(* ===== verification/Prelude.thy ===== *)
theory Prelude
  imports Main "HOL-Library.Sublist" "HOL-Library.Char_ord" "HOL-Library.List_Lexorder"
begin

text \<open>
  Shared vocabulary of the development: byte strings, the association lists that stand for Go
  maps, results that carry an error, and the generic lemmas the component theories use.

  A Go string is a sequence of bytes, so it is a \<^typ>\<open>string\<close> here (a list of 8-bit characters):
  \<open>len(s)\<close> is \<open>length s\<close>, and a rune appears only where the source ranges over runes or calls
  into \<^verbatim>\<open>unicode/utf8\<close> (theory \<open>Go_Utf8\<close>).
\<close>

named_theorems go_defs \<open>unfolding rules of the small byte and string predicates\<close>
named_theorems class_defs \<open>the spellings of the command classes and class sources\<close>
named_theorems rule_defs \<open>the spellings of rule identifiers and effects\<close>
named_theorems text_defs \<open>the fixed texts the gate shows\<close>

type_synonym ('k, 'v) gomap = "('k \<times> 'v) list"

abbreviation go_keys :: "('k, 'v) gomap \<Rightarrow> 'k list" where
  "go_keys m \<equiv> map fst m"

definition wf_map :: "('k, 'v) gomap \<Rightarrow> bool" where
  "wf_map m \<longleftrightarrow> distinct (go_keys m)"

abbreviation byte :: "char \<Rightarrow> nat" where
  "byte c \<equiv> of_char c"

section \<open>Results\<close>

primrec bind_result :: "'e + 'a \<Rightarrow> ('a \<Rightarrow> 'e + 'b) \<Rightarrow> 'e + 'b" where
  "bind_result (Inl e) f = Inl e"
| "bind_result (Inr a) f = f a"

lemma bind_result_Inr [simp]:
  "bind_result r f = Inr b \<longleftrightarrow> (\<exists>a. r = Inr a \<and> f a = Inr b)"
  by (cases r) auto

lemma bind_result_Inl [simp]:
  "bind_result r f = Inl e \<longleftrightarrow> r = Inl e \<or> (\<exists>a. r = Inr a \<and> f a = Inl e)"
  by (cases r) auto

section \<open>Lists and association lists\<close>

text \<open>The first element that satisfies a predicate, as a Go loop with a \<open>return\<close> finds it.\<close>

fun find_first :: "('a \<Rightarrow> bool) \<Rightarrow> 'a list \<Rightarrow> 'a option" where
  "find_first P [] = None"
| "find_first P (x # xs) = (if P x then Some x else find_first P xs)"

lemma find_first_None [simp]: "find_first P xs = None \<longleftrightarrow> (\<forall>x \<in> set xs. \<not> P x)"
  by (induction xs) auto

lemma find_first_Some:
  "find_first P xs = Some x \<longleftrightarrow>
     (\<exists>ys zs. xs = ys @ x # zs \<and> P x \<and> (\<forall>y \<in> set ys. \<not> P y))"
  (is "?l xs = ?r xs")
proof (induction xs)
  case Nil
  then show ?case by simp
next
  case (Cons a xs)
  show ?case
  proof (cases "P a")
    case True
    then show ?thesis by (auto simp: Cons_eq_append_conv)
  next
    case False
    have "?r xs = ?r (a # xs)"
    proof
      assume "?r xs"
      then obtain ys zs where "xs = ys @ x # zs" "P x" "\<forall>y \<in> set ys. \<not> P y" by blast
      then have "a # xs = (a # ys) @ x # zs \<and> P x \<and> (\<forall>y \<in> set (a # ys). \<not> P y)"
        using False by simp
      then show "?r (a # xs)" by blast
    next
      assume "?r (a # xs)"
      then show "?r xs" using False by (auto simp: Cons_eq_append_conv)
    qed
    then show ?thesis using False Cons.IH by simp
  qed
qed

lemma find_first_SomeD: "find_first P xs = Some x \<Longrightarrow> x \<in> set xs \<and> P x"
  by (auto simp: find_first_Some)

text \<open>Keep the first copy of every element, in order: the Go idiom of a slice with a seen-set.\<close>

fun dedup_from :: "'a set \<Rightarrow> 'a list \<Rightarrow> 'a list" where
  "dedup_from seen [] = []"
| "dedup_from seen (x # xs) =
     (if x \<in> seen then dedup_from seen xs else x # dedup_from (insert x seen) xs)"

lemma set_dedup_from [simp]: "set (dedup_from seen xs) = set xs - seen"
  by (induction xs arbitrary: seen) auto

lemma distinct_dedup_from [simp]: "distinct (dedup_from seen xs)"
  by (induction xs arbitrary: seen) auto

lemma dedup_from_distinct:
  "distinct xs \<Longrightarrow> set xs \<inter> seen = {} \<Longrightarrow> dedup_from seen xs = xs"
  by (induction xs arbitrary: seen) auto

lemma map_of_wf_map: "wf_map m \<Longrightarrow> (k, v) \<in> set m \<longleftrightarrow> map_of m k = Some v"
  by (simp add: wf_map_def)

lemma set_go_keys: "set (go_keys m) = dom (map_of m)"
  by (simp add: dom_map_of_conv_image_fst)

end
