(* ===== verification/Go_Strings.thy ===== *)
theory Go_Strings
  imports Prelude
begin

text \<open>
  The functions of Go's \<^verbatim>\<open>strings\<close>, \<^verbatim>\<open>strconv\<close> and \<^verbatim>\<open>sort\<close> packages the repository
  calls, on byte strings.

  \<open>strings.ToLower\<close> and \<open>strings.ToUpper\<close> are exact on ASCII and exact in what they make ASCII:
  beside the ASCII letters, only U+0130 and U+212A have an ASCII lower case, and only U+0131 and
  U+017F an ASCII upper case, and those four are mapped. A letter that stays outside ASCII keeps
  its bytes. The repository compares the result with ASCII text, where this is exact; the one
  use on two names of any alphabet (the inventory's key) is discussed in its theory.
  \<open>strings.Fields\<close> is modelled on the ASCII white space: every caller has refused bytes from
  0x80 on before it splits. \<open>strings.TrimSpace\<close> is exact, with the UTF-8 forms of the Unicode
  white space.
\<close>

section \<open>Bytes\<close>

definition is_lower :: "char \<Rightarrow> bool" where
  [go_defs]: "is_lower c \<longleftrightarrow> 97 \<le> byte c \<and> byte c \<le> 122"

definition is_upper :: "char \<Rightarrow> bool" where
  [go_defs]: "is_upper c \<longleftrightarrow> 65 \<le> byte c \<and> byte c \<le> 90"

definition is_decimal :: "char \<Rightarrow> bool" where
  [go_defs]: "is_decimal c \<longleftrightarrow> 48 \<le> byte c \<and> byte c \<le> 57"

definition is_ascii :: "string \<Rightarrow> bool" where
  "is_ascii s \<longleftrightarrow> (\<forall>c \<in> set s. byte c < 128)"

definition lower_byte :: "char \<Rightarrow> char" where
  "lower_byte c = (if is_upper c then char_of (byte c + 32) else c)"

definition upper_byte :: "char \<Rightarrow> char" where
  "upper_byte c = (if is_lower c then char_of (byte c - 32) else c)"

text \<open>The white space of \<open>asciiSpace\<close> in package strings: tab, LF, VT, FF, CR and space.\<close>

definition is_space :: "char \<Rightarrow> bool" where
  [go_defs]: "is_space c \<longleftrightarrow> byte c = 32 \<or> (9 \<le> byte c \<and> byte c \<le> 13)"

definition digit_char :: "nat \<Rightarrow> char" where
  "digit_char n = char_of (48 + n)"

section \<open>Case\<close>

fun to_lower :: "string \<Rightarrow> string" where
  "to_lower [] = []"
| "to_lower (c # s) =
     (if c = CHR 0xC4 \<and> prefix [CHR 0xB0] s then CHR ''i'' # to_lower (drop 1 s)
      else if c = CHR 0xE2 \<and> prefix [CHR 0x84, CHR 0xAA] s then CHR ''k'' # to_lower (drop 2 s)
      else lower_byte c # to_lower s)"

fun to_upper :: "string \<Rightarrow> string" where
  "to_upper [] = []"
| "to_upper (c # s) =
     (if c = CHR 0xC4 \<and> prefix [CHR 0xB1] s then CHR ''I'' # to_upper (drop 1 s)
      else if c = CHR 0xC5 \<and> prefix [CHR 0xBF] s then CHR ''S'' # to_upper (drop 1 s)
      else upper_byte c # to_upper s)"

section \<open>Searching, trimming, splitting, joining\<close>

abbreviation has_prefix :: "string \<Rightarrow> string \<Rightarrow> bool" where
  "has_prefix s p \<equiv> prefix p s"

fun contains :: "string \<Rightarrow> string \<Rightarrow> bool" where
  "contains [] sub = (sub = [])"
| "contains (c # s) sub = (prefix sub (c # s) \<or> contains s sub)"

definition trim_prefix :: "string \<Rightarrow> string \<Rightarrow> string" where
  "trim_prefix s p = (if prefix p s then drop (length p) s else s)"

definition trim_suffix :: "string \<Rightarrow> string \<Rightarrow> string" where
  "trim_suffix s p = (if suffix p s then take (length s - length p) s else s)"

definition trim_left :: "(char \<Rightarrow> bool) \<Rightarrow> string \<Rightarrow> string" where
  "trim_left P s = dropWhile P s"

definition trim_right :: "(char \<Rightarrow> bool) \<Rightarrow> string \<Rightarrow> string" where
  "trim_right P s = rev (dropWhile P (rev s))"

definition trim_set :: "(char \<Rightarrow> bool) \<Rightarrow> string \<Rightarrow> string" where
  "trim_set P s = trim_right P (trim_left P s)"

text \<open>The UTF-8 forms of the Unicode white space outside ASCII (\<open>unicode.IsSpace\<close>): U+0085,
  U+00A0, U+1680, U+2000 to U+200A, U+2028, U+2029, U+202F, U+205F, U+3000.\<close>

definition unicode_spaces :: "string list" where
  "unicode_spaces =
     [[CHR 0xC2, CHR 0x85], [CHR 0xC2, CHR 0xA0], [CHR 0xE1, CHR 0x9A, CHR 0x80],
      [CHR 0xE2, CHR 0x80, CHR 0x80], [CHR 0xE2, CHR 0x80, CHR 0x81],
      [CHR 0xE2, CHR 0x80, CHR 0x82], [CHR 0xE2, CHR 0x80, CHR 0x83],
      [CHR 0xE2, CHR 0x80, CHR 0x84], [CHR 0xE2, CHR 0x80, CHR 0x85],
      [CHR 0xE2, CHR 0x80, CHR 0x86], [CHR 0xE2, CHR 0x80, CHR 0x87],
      [CHR 0xE2, CHR 0x80, CHR 0x88], [CHR 0xE2, CHR 0x80, CHR 0x89],
      [CHR 0xE2, CHR 0x80, CHR 0x8A], [CHR 0xE2, CHR 0x80, CHR 0xA8],
      [CHR 0xE2, CHR 0x80, CHR 0xA9], [CHR 0xE2, CHR 0x80, CHR 0xAF],
      [CHR 0xE2, CHR 0x81, CHR 0x9F], [CHR 0xE3, CHR 0x80, CHR 0x80]]"

definition leading_space :: "string list \<Rightarrow> string \<Rightarrow> nat" where
  "leading_space spaces s =
     (case s of [] \<Rightarrow> 0
      | c # _ \<Rightarrow> if is_space c then 1
                else (case find_first (\<lambda>w. prefix w s) spaces of
                        None \<Rightarrow> 0 | Some w \<Rightarrow> length w))"

function drop_spaces :: "string list \<Rightarrow> string \<Rightarrow> string" where
  "drop_spaces spaces s =
     (if s = [] \<or> leading_space spaces s = 0 then s
      else drop_spaces spaces (drop (leading_space spaces s) s))"
  by pat_completeness auto
termination
  by (relation "measure (\<lambda>(spaces, s). length s)") auto

declare drop_spaces.simps [simp del]

text \<open>\<open>strings.TrimSpace\<close>. The right end is the left end of the reversed string, with the
  encodings reversed: a suffix that spells one of them is a whole rune, as its first byte is a
  lead byte.\<close>

definition trim_space :: "string \<Rightarrow> string" where
  "trim_space s =
     rev (drop_spaces (map rev unicode_spaces) (rev (drop_spaces unicode_spaces s)))"

fun split_when :: "(char \<Rightarrow> bool) \<Rightarrow> string \<Rightarrow> string list" where
  "split_when P [] = [[]]"
| "split_when P (c # s) =
     (if P c then [] # split_when P s
      else (case split_when P s of [] \<Rightarrow> [[c]] | w # ws \<Rightarrow> (c # w) # ws))"

abbreviation split_on :: "char \<Rightarrow> string \<Rightarrow> string list" where
  "split_on c \<equiv> split_when (\<lambda>x. x = c)"

text \<open>\<open>strings.FieldsFunc\<close>, and \<open>strings.Fields\<close> on ASCII.\<close>

definition fields_func :: "(char \<Rightarrow> bool) \<Rightarrow> string \<Rightarrow> string list" where
  "fields_func P s = filter (\<lambda>w. w \<noteq> []) (split_when P s)"

definition split_fields :: "string \<Rightarrow> string list" where
  "split_fields s = fields_func is_space s"

fun join :: "string \<Rightarrow> string list \<Rightarrow> string" where
  "join sep [] = []"
| "join sep [w] = w"
| "join sep (w # v # ws) = w @ sep @ join sep (v # ws)"

text \<open>\<open>strings.ReplaceAll\<close> of one byte by another.\<close>

definition replace_byte :: "char \<Rightarrow> char \<Rightarrow> string \<Rightarrow> string" where
  "replace_byte a b s = map (\<lambda>c. if c = a then b else c) s"

text \<open>\<open>strings.Cut\<close> at the first occurrence of a byte.\<close>

definition cut_byte :: "char \<Rightarrow> string \<Rightarrow> string \<times> string \<times> bool" where
  "cut_byte c s =
     (if c \<in> set s then (takeWhile (\<lambda>x. x \<noteq> c) s, tl (dropWhile (\<lambda>x. x \<noteq> c) s), True)
      else (s, [], False))"

section \<open>Numbers\<close>

fun nat_text :: "nat \<Rightarrow> string" where
  "nat_text n = (if n < 10 then [digit_char n] else nat_text (n div 10) @ [digit_char (n mod 10)])"

declare nat_text.simps [simp del]

text \<open>\<open>strconv.Itoa\<close> and the verb \<open>%d\<close>.\<close>

definition int_text :: "int \<Rightarrow> string" where
  "int_text i = (if i < 0 then CHR ''-'' # nat_text (nat (- i)) else nat_text (nat i))"

text \<open>The value of a string of decimal digits.\<close>

definition decimal_value :: "string \<Rightarrow> nat" where
  "decimal_value s = foldl (\<lambda>v c. 10 * v + (byte c - 48)) 0 s"

definition all_digits :: "string \<Rightarrow> bool" where
  "all_digits s \<longleftrightarrow> s \<noteq> [] \<and> list_all is_decimal s"

section \<open>Lemmas\<close>

lemma is_ascii_Nil [simp]: "is_ascii []"
  and is_ascii_Cons [simp]: "is_ascii (c # s) \<longleftrightarrow> byte c < 128 \<and> is_ascii s"
  and is_ascii_append [simp]: "is_ascii (s @ t) \<longleftrightarrow> is_ascii s \<and> is_ascii t"
  by (auto simp: is_ascii_def)

lemma to_lower_ascii: "is_ascii s \<Longrightarrow> to_lower s = map lower_byte s"
  by (induction s) auto

lemma to_upper_ascii: "is_ascii s \<Longrightarrow> to_upper s = map upper_byte s"
  by (induction s) auto

lemma contains_sublist: "contains s sub \<longleftrightarrow> sublist sub s"
  by (induction s) (auto simp: sublist_Cons_right)

lemma split_when_nonempty [simp]: "split_when P s \<noteq> []"
  by (induction s) (auto split: list.splits)

lemma split_when_no_sep: "w \<in> set (split_when P s) \<Longrightarrow> c \<in> set w \<Longrightarrow> \<not> P c \<and> c \<in> set s"
proof (induction s arbitrary: w)
  case Nil
  then show ?case by simp
next
  case (Cons a s)
  then show ?case
    by (cases "split_when P s") (fastforce split: if_splits)+
qed

lemma join_Cons: "ws \<noteq> [] \<Longrightarrow> join sep (w # ws) = w @ sep @ join sep ws"
  by (cases ws) auto

lemma join_split_on: "join [c] (split_on c s) = s"
proof (induction s)
  case Nil
  then show ?case by simp
next
  case (Cons a s)
  show ?case
  proof (cases "a = c")
    case True
    then show ?thesis using Cons.IH by (simp add: join_Cons)
  next
    case False
    obtain w ws where ws: "split_on c s = w # ws"
      by (meson neq_Nil_conv split_when_nonempty)
    then have "join [c] ((a # w) # ws) = a # join [c] (w # ws)"
      by (cases ws) auto
    then show ?thesis using False Cons.IH ws by simp
  qed
qed

lemma fields_func_nonempty: "w \<in> set (fields_func P s) \<Longrightarrow> w \<noteq> []"
  by (simp add: fields_func_def)

lemma fields_func_no_sep: "w \<in> set (fields_func P s) \<Longrightarrow> c \<in> set w \<Longrightarrow> \<not> P c \<and> c \<in> set s"
  by (auto simp: fields_func_def dest: split_when_no_sep)

lemma set_join: "set (join sep ws) \<subseteq> (\<Union>w \<in> set ws. set w) \<union> set sep"
  by (induction sep ws rule: join.induct) auto

lemma set_trim_set: "set (trim_set P s) \<subseteq> set s"
  unfolding trim_set_def trim_left_def trim_right_def
  by (metis set_dropWhileD set_rev subsetI)

lemma nat_text_nonempty [simp]: "nat_text n \<noteq> []"
  by (subst nat_text.simps) simp

lemma nat_text_digits: "c \<in> set (nat_text n) \<Longrightarrow> is_decimal c"
proof (induction n rule: nat_text.induct)
  case (1 n)
  then show ?case
    by (subst (asm) nat_text.simps) (auto simp: digit_char_def is_decimal_def split: if_splits)
qed

lemma decimal_value_nat_text: "decimal_value (nat_text n) = n"
proof (induction n rule: nat_text.induct)
  case (1 n)
  show ?case
  proof (cases "n < 10")
    case True
    then show ?thesis
      by (subst nat_text.simps) (simp add: decimal_value_def digit_char_def)
  next
    case False
    with 1 have "decimal_value (nat_text (n div 10)) = n div 10" by simp
    then show ?thesis using False
      by (subst nat_text.simps) (simp add: decimal_value_def digit_char_def)
  qed
qed

text \<open>Text between braces has nothing to trim.\<close>

lemma drop_spaces_id:
  "\<not> is_space c \<Longrightarrow> \<forall>w \<in> set sp. w \<noteq> [] \<and> hd w \<noteq> c \<Longrightarrow> drop_spaces sp (c # t) = c # t"
proof -
  assume c: "\<not> is_space c" "\<forall>w \<in> set sp. w \<noteq> [] \<and> hd w \<noteq> c"
  have "\<not> prefix w (c # t)" if "w \<in> set sp" for w using c(2) that by (cases w) auto
  then have "find_first (\<lambda>w. prefix w (c # t)) sp = None" by simp
  then show ?thesis using c(1) by (simp add: drop_spaces.simps [of sp "c # t"] leading_space_def del: find_first_None)
qed

lemma trim_space_braces: "trim_space (CHR ''{'' # s @ ''}'') = CHR ''{'' # s @ ''}''"
proof -
  have "drop_spaces unicode_spaces (CHR ''{'' # s @ ''}'') = CHR ''{'' # s @ ''}''"
    by (rule drop_spaces_id) (simp_all add: unicode_spaces_def is_space_def)
  moreover have "drop_spaces (map rev unicode_spaces) (CHR ''}'' # rev (CHR ''{'' # s)) = CHR ''}'' # rev (CHR ''{'' # s)"
    by (rule drop_spaces_id) (simp_all add: unicode_spaces_def is_space_def)
  ultimately show ?thesis by (simp add: trim_space_def)
qed

end
