(* ===== verification/Classify_Class.thy ===== *)
theory Classify_Class
  imports Go_Strings
begin

text \<open>
  \<^verbatim>\<open>internal/classify/class.go\<close>: the closed set of command classes. As in the source a class
  is a string, the spelling used in policy files, profiles and audit events, so a value outside
  the closed set exists and \<open>class_valid\<close> has something to decide.
\<close>

type_synonym cls = string

definition ReadOperational :: cls where [class_defs]: "ReadOperational = ''READ_OPERATIONAL''"
definition ReadConfig :: cls where [class_defs]: "ReadConfig = ''READ_CONFIG''"
definition WriteConfig :: cls where [class_defs]: "WriteConfig = ''WRITE_CONFIG''"
definition ExecArbitrary :: cls where [class_defs]: "ExecArbitrary = ''EXEC_ARBITRARY''"
definition InventoryRead :: cls where [class_defs]: "InventoryRead = ''INVENTORY_READ''"
definition LabLifecycle :: cls where [class_defs]: "LabLifecycle = ''LAB_LIFECYCLE''"
definition LocalAdmin :: cls where [class_defs]: "LocalAdmin = ''LOCAL_ADMIN''"

definition all_classes :: "cls list" where
  "all_classes = [ReadOperational, ReadConfig, WriteConfig, ExecArbitrary,
                  InventoryRead, LabLifecycle, LocalAdmin]"

datatype class_error = UnknownClass string

definition class_norm :: "string \<Rightarrow> string" where
  "class_norm s = to_upper (replace_byte (CHR ''-'') (CHR ''_'') (trim_space s))"

definition class_parse :: "string \<Rightarrow> class_error + cls" where
  "class_parse s =
     (case find_first (\<lambda>c. c = class_norm s) all_classes of
        Some c \<Rightarrow> Inr c
      | None \<Rightarrow> Inl (UnknownClass s))"

definition class_valid :: "cls \<Rightarrow> bool" where
  "class_valid c = (case class_parse c of Inl e \<Rightarrow> False | Inr d \<Rightarrow> True)"

definition is_write :: "cls \<Rightarrow> bool" where
  "is_write c \<longleftrightarrow> c = WriteConfig \<or> c = ExecArbitrary"

definition is_read :: "cls \<Rightarrow> bool" where
  "is_read c \<longleftrightarrow> c = ReadOperational \<or> c = ReadConfig \<or> c = InventoryRead"

text \<open>\<open>UnmarshalYAML\<close>: the scalar's text without quotes, spaces and line feeds at its ends.\<close>

definition class_unmarshal :: "string \<Rightarrow> class_error + cls" where
  "class_unmarshal b = class_parse (trim_set (\<lambda>c. byte c \<in> {34, 39, 32, 10}) b)"

section \<open>Lemmas\<close>

lemma class_distinct [simp]:
  "ReadOperational \<noteq> ReadConfig" "ReadOperational \<noteq> WriteConfig"
  "ReadOperational \<noteq> ExecArbitrary" "ReadOperational \<noteq> InventoryRead"
  "ReadOperational \<noteq> LabLifecycle" "ReadOperational \<noteq> LocalAdmin"
  "ReadConfig \<noteq> WriteConfig" "ReadConfig \<noteq> ExecArbitrary" "ReadConfig \<noteq> InventoryRead"
  "ReadConfig \<noteq> LabLifecycle" "ReadConfig \<noteq> LocalAdmin"
  "WriteConfig \<noteq> ExecArbitrary" "WriteConfig \<noteq> InventoryRead" "WriteConfig \<noteq> LabLifecycle"
  "WriteConfig \<noteq> LocalAdmin" "ExecArbitrary \<noteq> InventoryRead" "ExecArbitrary \<noteq> LabLifecycle"
  "ExecArbitrary \<noteq> LocalAdmin" "InventoryRead \<noteq> LabLifecycle" "InventoryRead \<noteq> LocalAdmin"
  "LabLifecycle \<noteq> LocalAdmin"
  by (simp_all add: class_defs)

lemmas class_distinct_sym [simp] = class_distinct [symmetric]

lemma find_first_eq: "find_first (\<lambda>c. c = k) xs = (if k \<in> set xs then Some k else None)"
  by (induction xs) auto

lemma class_parse_Inr: "class_parse s = Inr c \<longleftrightarrow> c \<in> set all_classes \<and> c = class_norm s"
  by (auto simp: class_parse_def find_first_eq)

text \<open>Every class is its own spelling: parsing what \<open>String\<close> prints gives the class back.\<close>

lemma class_norm_fixed: "c \<in> set all_classes \<Longrightarrow> class_norm c = c"
  by (auto simp: all_classes_def class_defs class_norm_def) (code_simp)+

lemma class_parse_spelling: "c \<in> set all_classes \<Longrightarrow> class_parse c = Inr c"
  by (simp add: class_parse_Inr class_norm_fixed)

text \<open>A spelling is valid when it denotes a class, in any letter case and with dashes for underscores.\<close>

lemma class_valid_iff: "class_valid c \<longleftrightarrow> class_norm c \<in> set all_classes"
  by (auto simp: class_valid_def class_parse_def find_first_eq)

lemma not_read_and_write: "\<not> (is_read c \<and> is_write c)"
  by (auto simp: is_read_def is_write_def)

end
