(* ===== verification/Classify_Command.thy ===== *)
theory Classify_Command
  imports Classify_Class
begin

text \<open>
  \<^verbatim>\<open>internal/classify/command.go\<close>: the fallback command classifier, which decides whether a
  free-form CLI command is a read. Everything it cannot prove to be a read is EXEC_ARBITRARY.

  The two regular expressions of the file, \<open>allowPrefix\<close> and \<open>blocklistStart\<close>, are anchored
  alternations of verbs followed by white space or the end of the text. A verb is the list of its
  words here (\<open>monitor\s+traffic\<close> has two), and \<open>starts_with_verb\<close> is the match.
\<close>

section \<open>The verb tables\<close>

text \<open>\<open>\s\<close> of a Go regular expression.\<close>

definition re_space :: "char \<Rightarrow> bool" where
  [go_defs]: "re_space c \<longleftrightarrow> byte c \<in> {9, 10, 12, 13, 32}"

fun match_words :: "string list \<Rightarrow> string \<Rightarrow> string option" where
  "match_words [] c = Some c"
| "match_words [w] c = (if prefix w c then Some (drop (length w) c) else None)"
| "match_words (w # v # ws) c =
     (if prefix w c then
        (case drop (length w) c of
           [] \<Rightarrow> None
         | b # r \<Rightarrow> if re_space b then match_words (v # ws) (dropWhile re_space r) else None)
      else None)"

definition starts_with_verb :: "string list list \<Rightarrow> string \<Rightarrow> bool" where
  "starts_with_verb verbs c \<longleftrightarrow>
     list_ex (\<lambda>v. case match_words v c of
                    None \<Rightarrow> False
                  | Some r \<Rightarrow> (case r of [] \<Rightarrow> True | b # _ \<Rightarrow> re_space b)) verbs"

definition allowPrefix :: "string list list" where
  "allowPrefix = [[''show''], [''get''], [''display''], [''monitor'', ''traffic''], [''ping''],
                  [''traceroute''], [''tracepath'']]"

definition blocklistStart :: "string list list" where
  "blocklistStart =
     [[''configure''], [''config''], [''conf''], [''edit''], [''set''], [''delete''], [''no''],
      [''commit''], [''rollback''], [''load''], [''save''], [''write''], [''wr''], [''copy''],
      [''erase''], [''format''], [''reload''], [''rel''], [''relo''], [''request''],
      [''restart''], [''shutdown''], [''clear''], [''reset''], [''debug''], [''undebug''],
      [''monitor'', ''start''], [''install''], [''boot''], [''zeroize''], [''reboot''],
      [''halt''], [''power''], [''activate''], [''deactivate''], [''license''], [''crypto''],
      [''archive''], [''exec''], [''start''], [''bash''], [''python''], [''guestshell''],
      [''tclsh''], [''run''], [''enable''], [''feature''], [''dockerd''], [''scp''], [''tftp''],
      [''ssh''], [''ftp''], [''telnet''], [''execute''], [''diagnose''], [''file''], [''test'']]"

definition blockedWords :: "string list" where
  "blockedWords =
     [''configure'', ''edit'', ''set'', ''delete'', ''rollback'', ''commit'',
      ''wr'', ''wri'', ''writ'', ''write'', ''write-file'', ''read-file'',
      ''copy'', ''rel'', ''relo'', ''reloa'', ''reload'', ''reboot'',
      ''shutdown'', ''clear'', ''reset'', ''format'', ''erase'', ''debug'',
      ''undebug'', ''zeroize'', ''tclsh'', ''bash'', ''python'', ''guestshell'']"

text \<open>A vendor CLI accepts any non-empty prefix of a keyword as an abbreviation of it.\<close>

definition isAbbrevOf :: "string \<Rightarrow> string \<Rightarrow> bool" where
  "isAbbrevOf w k \<longleftrightarrow> w \<noteq> [] \<and> has_prefix k w"

definition blockedPair :: "string \<Rightarrow> string \<Rightarrow> bool" where
  "blockedPair a b =
     (if a = ''request'' then b = ''system''
      else if a = ''admin'' then b = ''save'' \<or> b = ''reboot''
      else if a = ''start'' then b = ''shell''
      else length ''conf'' \<le> length a \<and> isAbbrevOf a ''configure'' \<and> isAbbrevOf b ''terminal'')"

fun blocked :: "string list \<Rightarrow> bool" where
  "blocked [] = False"
| "blocked (f # fs) =
     (f \<in> set blockedWords \<or> (case fs of [] \<Rightarrow> False | g # _ \<Rightarrow> blockedPair f g) \<or> blocked fs)"

section \<open>Shell metacharacters\<close>

text \<open>The bytes \<^verbatim>\<open>| < > ; & " ' { } * ? [ ] ~ ` \\<close>.\<close>

definition shell_meta_byte :: "char \<Rightarrow> bool" where
  [go_defs]: "shell_meta_byte c \<longleftrightarrow>
     byte c \<in> {124, 60, 62, 59, 38, 34, 39, 123, 125, 42, 63, 91, 93, 126, 96, 92}"

fun hasShellMeta :: "string \<Rightarrow> bool" where
  "hasShellMeta [] = False"
| "hasShellMeta (c # s) =
     (shell_meta_byte c
      \<or> (c = CHR ''$'' \<and> (case s of [] \<Rightarrow> False | d # _ \<Rightarrow> \<not> re_space d))
      \<or> hasShellMeta s)"

section \<open>Configuration reads\<close>

definition configKeywords :: "string list" where
  "configKeywords =
     [''running-config'', ''startup-config'', ''configuration'', ''config'',
      ''tech-support'', ''derived-config'', ''archive'', ''full-configuration'',
      ''current-configuration'', ''saved-configuration'', ''session-config'',
      ''checkpoint'', ''candidate'', ''file'', ''diff'']"

definition systemConfigKeywords :: "string list" where
  "systemConfigKeywords = [''rollback'', ''configuration'', ''admin'', ''interface'', ''ha'']"

definition prefixRelated :: "string \<Rightarrow> string \<Rightarrow> bool" where
  "prefixRelated w k \<longleftrightarrow> has_prefix k w \<or> has_prefix w k"

definition matchesAny :: "string \<Rightarrow> string list \<Rightarrow> bool" where
  "matchesAny w keywords = list_ex (prefixRelated w) keywords"

text \<open>Called with at least one field.\<close>

fun isConfigRead :: "string list \<Rightarrow> bool" where
  "isConfigRead [] = False"
| "isConfigRead (f0 # fs) =
     (if f0 \<notin> {''show'', ''display'', ''get''} then False
      else case fs of
        [] \<Rightarrow> True
      | f1 # rest \<Rightarrow>
          matchesAny f1 configKeywords
          \<or> (case rest of
               [] \<Rightarrow> False
             | f2 # _ \<Rightarrow> isAbbrevOf f1 ''system'' \<and> matchesAny f2 systemConfigKeywords))"

section \<open>Bounded captures\<close>

definition maxMonitorCount :: nat where
  "maxMonitorCount = 1000"

definition count_value_ok :: "string \<Rightarrow> bool" where
  "count_value_ok n \<longleftrightarrow>
     \<not> (n = [] \<or> 4 < length n \<or> trim_set is_decimal n \<noteq> [])
     \<and> \<not> (decimal_value n < 1 \<or> maxMonitorCount < decimal_value n)"

text \<open>The loop over the words, with \<open>seen\<close> carried along.\<close>

fun monitorCountFrom :: "bool \<Rightarrow> string list \<Rightarrow> bool" where
  "monitorCountFrom seen [] = seen"
| "monitorCountFrom seen (f # fs) =
     (if f \<noteq> ''count'' then monitorCountFrom seen fs
      else case fs of
        [] \<Rightarrow> False
      | n # _ \<Rightarrow> if count_value_ok n then monitorCountFrom True fs else False)"

definition monitorCountOK :: "string list \<Rightarrow> bool" where
  "monitorCountOK fs = monitorCountFrom False fs"

section \<open>One command\<close>

definition maxCommandLen :: nat where
  "maxCommandLen = 1024"

definition checkEmpty :: string where "checkEmpty = ''empty''"
definition checkControl :: string where "checkControl = ''control-character''"
definition checkNonASCII :: string where "checkNonASCII = ''non-ascii''"
definition checkShellMeta :: string where "checkShellMeta = ''shell-meta''"
definition checkLeadingDash :: string where "checkLeadingDash = ''leading-dash''"
definition checkBlocklist :: string where "checkBlocklist = ''blocklist''"
definition checkAllowPrefix :: string where "checkAllowPrefix = ''allow-prefix''"
definition checkTooLong :: string where "checkTooLong = ''too-long''"
definition checkNoCount :: string where "checkNoCount = ''monitor-no-count''"

lemmas check_defs = checkEmpty_def checkControl_def checkNonASCII_def checkShellMeta_def
  checkLeadingDash_def checkBlocklist_def checkAllowPrefix_def checkTooLong_def checkNoCount_def

text \<open>\<open>checkBytes\<close> (config.go), shared by commands and configuration lines.\<close>

fun checkBytes :: "string \<Rightarrow> string" where
  "checkBytes [] = []"
| "checkBytes (c # s) =
     (if byte c = 9 then checkBytes s
      else if byte c < 32 \<or> byte c = 127 then checkControl
      else if 128 \<le> byte c then checkNonASCII
      else checkBytes s)"

definition blank_byte :: "char \<Rightarrow> bool" where
  [go_defs]: "blank_byte c \<longleftrightarrow> byte c = 32 \<or> byte c = 9"

definition classifyCommand :: "string \<Rightarrow> cls \<times> string" where
  "classifyCommand cmd =
     (if maxCommandLen < length cmd then (ExecArbitrary, checkTooLong)
      else
        let raw = trim_set blank_byte cmd; check = checkBytes raw in
        if check \<noteq> [] then (ExecArbitrary, check)
        else
          let fs = split_fields (to_lower raw) in
          if fs = [] then (ExecArbitrary, checkEmpty)
          else
            let c = join '' '' fs in
            if hasShellMeta c then (ExecArbitrary, checkShellMeta)
            else if list_ex (\<lambda>f. has_prefix f ''-'') (tl fs) then (ExecArbitrary, checkLeadingDash)
            else if starts_with_verb blocklistStart c \<or> blocked fs
              then (ExecArbitrary, checkBlocklist)
            else if isConfigRead fs then (ReadConfig, [])
            else if hd fs = ''monitor'' \<and> 1 < length fs \<and> fs ! 1 = ''traffic''
                    \<and> \<not> monitorCountOK fs
              then (ExecArbitrary, checkNoCount)
            else if starts_with_verb allowPrefix c then (ReadOperational, [])
            else (ExecArbitrary, checkAllowPrefix))"

definition ClassifyCommand :: "string \<Rightarrow> cls" where
  "ClassifyCommand cmd = fst (classifyCommand cmd)"

section \<open>A batch of commands\<close>

fun classifyCommandsFrom :: "nat \<Rightarrow> cls \<Rightarrow> string list \<Rightarrow> cls \<times> int \<times> string" where
  "classifyCommandsFrom i out [] = (out, -1, [])"
| "classifyCommandsFrom i out (c # cs) =
     (case classifyCommand c of (cl, check) \<Rightarrow>
        if cl = ExecArbitrary then (ExecArbitrary, int i, check)
        else if cl = ReadConfig then classifyCommandsFrom (Suc i) ReadConfig cs
        else classifyCommandsFrom (Suc i) out cs)"

definition classifyCommands :: "string list \<Rightarrow> cls \<times> int \<times> string" where
  "classifyCommands cmds =
     (if cmds = [] then (ExecArbitrary, -1, checkEmpty)
      else classifyCommandsFrom 0 ReadOperational cmds)"

definition ClassifyCommands :: "string list \<Rightarrow> cls" where
  "ClassifyCommands cmds = fst (classifyCommands cmds)"

section \<open>Lemmas\<close>

text \<open>The lower-cased words a command is judged by.\<close>

definition command_words :: "string \<Rightarrow> string list" where
  "command_words cmd = split_fields (to_lower (trim_set blank_byte cmd))"

definition printable_or_tab :: "char \<Rightarrow> bool" where
  "printable_or_tab c \<longleftrightarrow> byte c = 9 \<or> (32 \<le> byte c \<and> byte c < 127)"

lemma checkBytes_ok: "checkBytes s = [] \<longleftrightarrow> list_all printable_or_tab s"
  by (induction s) (auto simp: printable_or_tab_def check_defs)

lemma blocked_iff:
  "blocked fs \<longleftrightarrow>
     (\<exists>f \<in> set fs. f \<in> set blockedWords)
     \<or> (\<exists>i. Suc i < length fs \<and> blockedPair (fs ! i) (fs ! Suc i))"
proof (induction fs)
  case Nil
  then show ?case by simp
next
  case (Cons f fs)
  have "(\<exists>i. Suc i < length (f # fs) \<and> blockedPair ((f # fs) ! i) ((f # fs) ! Suc i)) \<longleftrightarrow>
      (case fs of [] \<Rightarrow> False | g # _ \<Rightarrow> blockedPair f g)
      \<or> (\<exists>i. Suc i < length fs \<and> blockedPair (fs ! i) (fs ! Suc i))" (is "?l = ?r")
  proof
    assume ?l
    then obtain i where i: "Suc i < length (f # fs)" "blockedPair ((f # fs) ! i) ((f # fs) ! Suc i)"
      by blast
    then show ?r by (cases i; cases fs) auto
  next
    assume r: ?r
    show ?l
    proof (cases "\<exists>i. Suc i < length fs \<and> blockedPair (fs ! i) (fs ! Suc i)")
      case True
      then obtain i where "Suc i < length fs" "blockedPair (fs ! i) (fs ! Suc i)" by blast
      then show ?thesis by (intro exI [of _ "Suc i"]) simp
    next
      case False
      with r show ?thesis by (intro exI [of _ 0]) (simp split: list.splits)
    qed
  qed
  with Cons.IH show ?case by auto
qed

text \<open>\<open>hasShellMeta\<close> is a match of the expression \<^verbatim>\<open>[|<>;&"'{}*?\[\]~`\\]|\$\S\<close> anywhere.\<close>

lemma hasShellMeta_iff:
  "hasShellMeta s \<longleftrightarrow>
     (\<exists>i < length s. shell_meta_byte (s ! i)
        \<or> (s ! i = CHR ''$'' \<and> Suc i < length s \<and> \<not> re_space (s ! Suc i)))"
proof (induction s)
  case Nil
  then show ?case by simp
next
  case (Cons c s)
  let ?P = "\<lambda>s i. shell_meta_byte (s ! i)
        \<or> (s ! i = CHR ''$'' \<and> Suc i < length s \<and> \<not> re_space (s ! Suc i))"
  have "(\<exists>i < length (c # s). ?P (c # s) i) \<longleftrightarrow> ?P (c # s) 0 \<or> (\<exists>i < length s. ?P s i)"
    by (simp add: Ex_less_Suc2) 
  then show ?case using Cons.IH by (simp split: list.splits)
qed

lemma monitorCountFrom_iff:
  "monitorCountFrom seen fs \<longleftrightarrow>
     (seen \<or> ''count'' \<in> set fs)
     \<and> (\<forall>i < length fs. fs ! i = ''count'' \<longrightarrow>
           Suc i < length fs \<and> count_value_ok (fs ! Suc i))"
proof (induction fs arbitrary: seen)
  case Nil
  then show ?case by simp
next
  case (Cons f fs)
  have "(\<forall>i < length (f # fs). (f # fs) ! i = ''count'' \<longrightarrow>
           Suc i < length (f # fs) \<and> count_value_ok ((f # fs) ! Suc i)) \<longleftrightarrow>
     (f = ''count'' \<longrightarrow> fs \<noteq> [] \<and> count_value_ok (hd fs))
     \<and> (\<forall>i < length fs. fs ! i = ''count'' \<longrightarrow> Suc i < length fs \<and> count_value_ok (fs ! Suc i))"
    by (simp add: All_less_Suc2 hd_conv_nth) (cases fs; simp)
  then show ?case using Cons.IH by (cases fs) auto
qed

lemma split_fields_no_space: "w \<in> set (split_fields s) \<Longrightarrow> c \<in> set w \<Longrightarrow> \<not> is_space c"
  by (auto simp: split_fields_def dest: fields_func_no_sep)

lemma re_space_is_space: "re_space c \<Longrightarrow> is_space c"
  by (auto simp: go_defs)

lemma takeWhile_join_hd:
  assumes "\<forall>w \<in> set fs. \<forall>c \<in> set w. \<not> re_space c" and "fs \<noteq> []"
  shows "takeWhile (\<lambda>c. \<not> re_space c) (join '' '' fs) = hd fs"
proof (cases fs)
  case (Cons f gs)
  then have f: "\<forall>c \<in> set f. \<not> re_space c" using assms by simp
  show ?thesis
  proof (cases gs)
    case Nil
    then show ?thesis using Cons f by (simp add: takeWhile_eq_all_conv)
  next
    case (Cons g hs)
    then have "join '' '' fs = f @ CHR '' '' # join '' '' gs" using \<open>fs = f # gs\<close> by simp
    moreover have "re_space CHR '' ''" by (simp add: re_space_def)
    ultimately show ?thesis using f \<open>fs = f # gs\<close> by (simp add: takeWhile_append2)
  qed
qed (use assms in simp)

definition plain_verb :: "string list \<Rightarrow> bool" where
  "plain_verb v \<longleftrightarrow> v \<noteq> [] \<and> list_all (list_all (\<lambda>c. \<not> re_space c)) v"

lemma match_words_takeWhile:
  assumes "plain_verb v" and "match_words v c = Some r" and "r = [] \<or> re_space (hd r)"
  shows "takeWhile (\<lambda>c. \<not> re_space c) c = hd v"
proof -
  obtain w vs where v: "v = w # vs" using assms(1) by (cases v) (auto simp: plain_verb_def)
  have w: "\<forall>c \<in> set w. \<not> re_space c" using assms(1) v by (auto simp: plain_verb_def list_all_iff)
  have p: "prefix w c" using assms(2) v by (cases vs) (auto split: if_splits)
  then obtain t where c: "c = w @ t" by (auto simp: prefix_def)
  have t: "t = [] \<or> re_space (hd t)"
    using assms(2,3) v c p by (cases vs) (auto split: list.splits if_splits)
  then show ?thesis using c v w by (cases t) (simp_all add: takeWhile_append2 takeWhile_eq_all_conv)
qed

lemma starts_with_verb_hd:
  assumes "list_all plain_verb verbs" and "starts_with_verb verbs (join '' '' fs)"
    and "\<forall>w \<in> set fs. \<forall>c \<in> set w. \<not> re_space c" and "fs \<noteq> []"
  shows "hd fs \<in> hd ` set verbs"
proof -
  obtain v where v: "v \<in> set verbs"
      "case match_words v (join '' '' fs) of
         None \<Rightarrow> False | Some r \<Rightarrow> (case r of [] \<Rightarrow> True | b # _ \<Rightarrow> re_space b)"
    using assms(2) by (auto simp: starts_with_verb_def list_ex_iff)
  then obtain r where r: "match_words v (join '' '' fs) = Some r" "r = [] \<or> re_space (hd r)"
    by (auto split: option.splits list.splits)
  have "plain_verb v" using assms(1) v(1) by (simp add: list_all_iff)
  then have "hd fs = hd v"
    using match_words_takeWhile [OF _ r] takeWhile_join_hd [OF assms(3,4)] by simp
  then show ?thesis using v(1) by blast
qed

lemma allowPrefix_plain: "list_all plain_verb allowPrefix"
  by code_simp

lemma set_word_join: "w \<in> set ws \<Longrightarrow> set w \<subseteq> set (join sep ws)"
  by (induction sep ws rule: join.induct) auto

lemma in_set_dropWhile: "c \<in> set s \<Longrightarrow> P c \<or> c \<in> set (dropWhile P s)"
  by (metis takeWhile_dropWhile_id Un_iff set_append set_takeWhileD)

lemma in_set_trim_set: "c \<in> set s \<Longrightarrow> P c \<or> c \<in> set (trim_set P s)"
  unfolding trim_set_def trim_left_def trim_right_def
  by (metis in_set_dropWhile set_rev)

lemma list_all_trim_set:
  "list_all Q (trim_set P s) \<Longrightarrow> (\<And>c. P c \<Longrightarrow> Q c) \<Longrightarrow> list_all Q s"
  using in_set_trim_set [of _ s P] by (auto simp: list_all_iff)

text \<open>What the classifier has established about a command it calls a read.\<close>

lemma classifyCommand_read:
  assumes "classifyCommand cmd = (c, k)" and "c \<noteq> ExecArbitrary"
  defines "fs \<equiv> command_words cmd"
  shows "k = [] \<and> length cmd \<le> maxCommandLen \<and> list_all printable_or_tab (trim_set blank_byte cmd)
    \<and> fs \<noteq> [] \<and> \<not> hasShellMeta (join '' '' fs) \<and> \<not> list_ex (\<lambda>f. has_prefix f ''-'') (tl fs)
    \<and> \<not> starts_with_verb blocklistStart (join '' '' fs) \<and> \<not> blocked fs
    \<and> (if isConfigRead fs then c = ReadConfig
       else c = ReadOperational \<and> starts_with_verb allowPrefix (join '' '' fs)
         \<and> (hd fs = ''monitor'' \<and> 1 < length fs \<and> fs ! 1 = ''traffic'' \<longrightarrow> monitorCountOK fs))"
  using assms
  by (auto simp: classifyCommand_def Let_def command_words_def checkBytes_ok not_less split: if_splits)

lemma classifyCommand_range: "fst (classifyCommand cmd) \<in> {ExecArbitrary, ReadConfig, ReadOperational}"
  by (simp add: classifyCommand_def Let_def)

lemma isConfigRead_hd: "isConfigRead fs \<Longrightarrow> fs \<noteq> [] \<and> hd fs \<in> {''show'', ''display'', ''get''}"
  by (cases fs) (auto split: if_splits)

lemma command_words_no_space: "w \<in> set (command_words cmd) \<Longrightarrow> c \<in> set w \<Longrightarrow> \<not> re_space c"
  using split_fields_no_space re_space_is_space unfolding command_words_def by blast

lemma hasShellMeta_byte: "\<not> hasShellMeta s \<Longrightarrow> c \<in> set s \<Longrightarrow> \<not> shell_meta_byte c"
  by (auto simp: hasShellMeta_iff in_set_conv_nth)

text \<open>Property C11 (safety). A command the classifier does not call EXEC_ARBITRARY is at most 1024 bytes of
  printable ASCII and tabs, so it holds no line break; its words hold no shell metacharacter and
  no state-changing verb, no two consecutive words are a refused two-word verb, no word after the
  first starts with a dash, and its first word is one of the seven read verbs.\<close>

theorem read_command_sound:
  assumes "ClassifyCommand cmd \<noteq> ExecArbitrary"
  defines "fs \<equiv> command_words cmd"
  shows "length cmd \<le> 1024 \<and> list_all printable_or_tab cmd
    \<and> fs \<noteq> [] \<and> hd fs \<in> {''show'', ''get'', ''display'', ''monitor'', ''ping'', ''traceroute'', ''tracepath''}
    \<and> (\<forall>w \<in> set fs. w \<notin> set blockedWords \<and> \<not> list_ex shell_meta_byte w)
    \<and> (\<forall>i. Suc i < length fs \<longrightarrow> \<not> blockedPair (fs ! i) (fs ! Suc i))
    \<and> (\<forall>w \<in> set (tl fs). \<not> has_prefix w ''-'')"
proof -
  obtain c k where ck: "classifyCommand cmd = (c, k)" by (cases "classifyCommand cmd")
  with assms(1) have "c \<noteq> ExecArbitrary" by (simp add: ClassifyCommand_def)
  note r = classifyCommand_read [OF ck this, folded fs_def]
  have printable: "list_all printable_or_tab cmd"
  proof (rule list_all_trim_set [where P = blank_byte])
    show "list_all printable_or_tab (trim_set blank_byte cmd)" using r by blast
  qed (auto simp: go_defs printable_or_tab_def)
  have first: "hd fs \<in> {''show'', ''get'', ''display'', ''monitor'', ''ping'', ''traceroute'', ''tracepath''}"
  proof (cases "isConfigRead fs")
    case True
    then show ?thesis using isConfigRead_hd by blast
  next
    case False
    then have "starts_with_verb allowPrefix (join '' '' fs)" using r by simp
    then have "hd fs \<in> hd ` set allowPrefix"
      using r command_words_no_space unfolding fs_def
      by (intro starts_with_verb_hd [OF allowPrefix_plain]) auto
    then show ?thesis by (auto simp: allowPrefix_def)
  qed
  have "\<not> list_ex shell_meta_byte w" if "w \<in> set fs" for w
    using r that set_word_join [OF that] hasShellMeta_byte by (fastforce simp: list_ex_iff)
  then show ?thesis using r printable first
    by (auto simp: blocked_iff list_ex_iff maxCommandLen_def)
qed

theorem read_command_sound_witness:
  "ClassifyCommand ''show version'' \<noteq> ExecArbitrary
   \<and> hd (command_words ''show version'') \<in> {''show'', ''get'', ''display'', ''monitor'', ''ping'', ''traceroute'', ''tracepath''}"
proof -
  have h: "ClassifyCommand ''show version'' \<noteq> ExecArbitrary" by code_simp
  show ?thesis using h read_command_sound [OF h] by blast
qed

lemma classifyCommandsFrom_class:
  "fst (classifyCommandsFrom i out cs) =
     (if \<exists>c \<in> set cs. ClassifyCommand c = ExecArbitrary then ExecArbitrary
      else if \<exists>c \<in> set cs. ClassifyCommand c = ReadConfig then ReadConfig else out)"
  by (induction cs arbitrary: i out) (auto simp: ClassifyCommand_def split: prod.splits)

text \<open>A batch is EXEC_ARBITRARY exactly when it is empty or one of its commands is;
  otherwise it is READ_CONFIG when one command reads configuration, and READ_OPERATIONAL when none does.
  The order of the commands does not matter.\<close>

theorem ClassifyCommands_spec:
  "ClassifyCommands cmds =
     (if cmds = [] \<or> (\<exists>c \<in> set cmds. ClassifyCommand c = ExecArbitrary) then ExecArbitrary
      else if \<exists>c \<in> set cmds. ClassifyCommand c = ReadConfig then ReadConfig
      else ReadOperational)"
  by (simp add: ClassifyCommands_def classifyCommands_def classifyCommandsFrom_class)

lemma classifyCommandsFrom_fail:
  assumes "classifyCommandsFrom i out cs = (cl, idx, check)" and "0 \<le> idx"
  shows "\<exists>j < length cs. idx = int (i + j) \<and> cl = ExecArbitrary
           \<and> classifyCommand (cs ! j) = (ExecArbitrary, check)
           \<and> (\<forall>m < j. ClassifyCommand (cs ! m) \<noteq> ExecArbitrary)"
  using assms
proof (induction cs arbitrary: i out)
  case Nil
  then show ?case by simp
next
  case (Cons c cs)
  obtain d k where d: "classifyCommand c = (d, k)" by (cases "classifyCommand c")
  show ?case
  proof (cases "d = ExecArbitrary")
    case True
    then show ?thesis using Cons.prems d by (intro exI [of _ 0]) simp
  next
    case False
    then obtain out' where "classifyCommandsFrom (Suc i) out' cs = (cl, idx, check)"
      using Cons.prems d by (auto split: if_splits)
    then obtain j where "j < length cs" "idx = int (Suc i + j)" "cl = ExecArbitrary"
        "classifyCommand (cs ! j) = (ExecArbitrary, check)"
        "\<forall>m < j. ClassifyCommand (cs ! m) \<noteq> ExecArbitrary"
      using Cons.IH Cons.prems(2) by blast
    then show ?thesis using False d
      by (intro exI [of _ "Suc j"]) (simp add: All_less_Suc2 ClassifyCommand_def)
  qed
qed

lemma lower_byte_idem [simp]: "lower_byte (lower_byte c) = lower_byte c"
  by (simp add: lower_byte_def go_defs)

lemma byte_lower_byte: "byte (lower_byte c) = (if is_upper c then byte c + 32 else byte c)"
  by (simp add: lower_byte_def go_defs)

lemma checkBytes_lower [simp]: "checkBytes (map lower_byte s) = checkBytes s"
  by (induction s) (auto simp: byte_lower_byte go_defs)

lemma trim_set_map: "(\<And>c. P (f c) = P c) \<Longrightarrow> trim_set P (map f s) = map f (trim_set P s)"
  by (simp add: trim_set_def trim_left_def trim_right_def dropWhile_map rev_map comp_def)

lemma checkBytes_ascii: "checkBytes s = [] \<Longrightarrow> is_ascii s"
  by (auto simp: checkBytes_ok list_all_iff is_ascii_def printable_or_tab_def)

text \<open>Writing a command in other letter case never changes its class or
  the check it fails.\<close>

theorem classifyCommand_case_insensitive:
  "classifyCommand (map lower_byte cmd) = classifyCommand cmd"
proof -
  have t: "trim_set blank_byte (map lower_byte cmd) = map lower_byte (trim_set blank_byte cmd)"
    by (rule trim_set_map) (simp add: byte_lower_byte go_defs)
  have "to_lower (map lower_byte (trim_set blank_byte cmd)) = to_lower (trim_set blank_byte cmd)"
    if "checkBytes (trim_set blank_byte cmd) = []"
    using checkBytes_ascii [OF that] checkBytes_ascii [of "map lower_byte (trim_set blank_byte cmd)"] that
    by (simp add: to_lower_ascii comp_def)
  then show ?thesis by (simp add: classifyCommand_def Let_def t)
qed

end
