(* ===== verification/Go_Utf8.thy ===== *)
theory Go_Utf8
  imports Go_Strings
begin

text \<open>
  Package \<^verbatim>\<open>unicode/utf8\<close>: decoding one rune, ranging over the runes of a string (Go's
  \<^verbatim>\<open>for _, r := range s\<close>), encoding, validity. A rune is a natural number; an invalid byte decodes
  to U+FFFD with width 1, as in Go.
\<close>

definition is_cont :: "char \<Rightarrow> bool" where
  [go_defs]: "is_cont c \<longleftrightarrow> 128 \<le> byte c \<and> byte c < 192"

definition rune_error :: nat where
  "rune_error = 65533"

text \<open>The range the second byte must lie in, by the first (\<open>acceptRanges\<close>).\<close>

definition second_ok :: "nat \<Rightarrow> char \<Rightarrow> bool" where
  "second_ok b0 c \<longleftrightarrow>
     (if b0 = 224 then 160 \<le> byte c \<and> byte c < 192
      else if b0 = 237 then 128 \<le> byte c \<and> byte c < 160
      else if b0 = 240 then 144 \<le> byte c \<and> byte c < 192
      else if b0 = 244 then 128 \<le> byte c \<and> byte c < 144
      else is_cont c)"

text \<open>\<open>utf8.DecodeRuneInString\<close>: the rune and its width, \<open>(U+FFFD, 0)\<close> for the empty string.\<close>

definition decode_rune :: "string \<Rightarrow> nat \<times> nat" where
  "decode_rune s =
     (case s of
        [] \<Rightarrow> (rune_error, 0)
      | c0 # s1 \<Rightarrow>
          (let b0 = byte c0 in
           if b0 < 128 then (b0, 1)
           else case s1 of
             [] \<Rightarrow> (rune_error, 1)
           | c1 # s2 \<Rightarrow>
               if 194 \<le> b0 \<and> b0 < 224 then
                 (if is_cont c1 then ((b0 - 192) * 64 + (byte c1 - 128), 2) else (rune_error, 1))
               else if 224 \<le> b0 \<and> b0 < 245 \<and> second_ok b0 c1 then
                 (case s2 of
                    [] \<Rightarrow> (rune_error, 1)
                  | c2 # s3 \<Rightarrow>
                      if \<not> is_cont c2 then (rune_error, 1)
                      else if b0 < 240 then
                        ((b0 - 224) * 4096 + (byte c1 - 128) * 64 + (byte c2 - 128), 3)
                      else
                        (case s3 of
                           [] \<Rightarrow> (rune_error, 1)
                         | c3 # _ \<Rightarrow>
                             if is_cont c3 then
                               ((b0 - 240) * 262144 + (byte c1 - 128) * 4096
                                  + (byte c2 - 128) * 64 + (byte c3 - 128), 4)
                             else (rune_error, 1)))
               else (rune_error, 1)))"

text \<open>The runes of a string in order, each with the bytes it was decoded from.\<close>

function runes :: "string \<Rightarrow> (nat \<times> string) list" where
  "runes [] = []"
| "runes (c # s) =
     (let (r, n) = decode_rune (c # s)
      in (r, take n (c # s)) # runes (drop (n - 1) s))"
  by pat_completeness auto
termination
  by (relation "measure length") auto

text \<open>\<open>utf8.AppendRune\<close> and \<open>Builder.WriteRune\<close>: a surrogate half or a value past U+10FFFF is
  written as U+FFFD.\<close>

definition encode_rune :: "nat \<Rightarrow> string" where
  "encode_rune r =
     (let r = (if (55296 \<le> r \<and> r < 57344) \<or> 1114111 < r then rune_error else r) in
      if r < 128 then [char_of r]
      else if r < 2048 then [char_of (192 + r div 64), char_of (128 + r mod 64)]
      else if r < 65536 then
        [char_of (224 + r div 4096), char_of (128 + r div 64 mod 64), char_of (128 + r mod 64)]
      else
        [char_of (240 + r div 262144), char_of (128 + r div 4096 mod 64),
         char_of (128 + r div 64 mod 64), char_of (128 + r mod 64)])"

text \<open>\<open>utf8.Valid\<close>: no byte decodes as an error of width 1.\<close>

definition utf8_valid :: "string \<Rightarrow> bool" where
  "utf8_valid s \<longleftrightarrow> list_all (\<lambda>(r, w). \<not> (r = rune_error \<and> length w = 1)) (runes s)"

text \<open>\<open>utf8.RuneStart\<close>: not a continuation byte.\<close>

definition rune_start :: "char \<Rightarrow> bool" where
  "rune_start c \<longleftrightarrow> \<not> is_cont c"

text \<open>\<open>strings.Map\<close> for a mapping that never drops a rune.\<close>

definition map_runes :: "(nat \<Rightarrow> nat) \<Rightarrow> string \<Rightarrow> string" where
  "map_runes f s = concat (map (\<lambda>(r, w). encode_rune (f r)) (runes s))"

section \<open>Lemmas\<close>

lemma decode_rune_ascii [simp]: "byte c < 128 \<Longrightarrow> decode_rune (c # s) = (byte c, 1)"
  by (simp add: decode_rune_def Let_def)

lemma decode_rune_width:
  assumes "s \<noteq> []"
  shows "1 \<le> snd (decode_rune s) \<and> snd (decode_rune s) \<le> length s"
  using assms by (auto simp: decode_rune_def Let_def split: list.splits)

lemma runes_Cons:
  "runes (c # s) =
     (fst (decode_rune (c # s)), take (snd (decode_rune (c # s))) (c # s))
       # runes (drop (snd (decode_rune (c # s))) (c # s))"
proof -
  obtain n where "snd (decode_rune (c # s)) = Suc n"
    using decode_rune_width [of "c # s"] by (cases "snd (decode_rune (c # s))") auto
  then show ?thesis by (simp add: case_prod_beta Let_def)
qed

declare runes.simps(2) [simp del]

lemma runes_induct [case_names Nil Cons]:
  assumes "P []"
    and "\<And>c s. P (drop (snd (decode_rune (c # s))) (c # s)) \<Longrightarrow> P (c # s)"
  shows "P s"
proof (induction s rule: length_induct)
  case (1 s)
  show ?case
  proof (cases s)
    case Nil
    then show ?thesis using assms(1) by simp
  next
    case (Cons c t)
    have "length (drop (snd (decode_rune s)) s) < length s"
      using decode_rune_width [of s] Cons by simp
    with 1 have "P (drop (snd (decode_rune s)) s)" by blast
    then show ?thesis using assms(2) Cons by simp
  qed
qed

lemma concat_runes: "concat (map snd (runes s)) = s"
  by (induction s rule: runes_induct) (simp_all add: runes_Cons)

lemma runes_ascii: "is_ascii s \<Longrightarrow> runes s = map (\<lambda>c. (byte c, [c])) s"
  by (induction s) (simp_all add: runes_Cons)

text \<open>A rune of width above one is outside ASCII, and an ASCII rune is its own byte.\<close>

lemma decode_rune_small:
  assumes "decode_rune (c # s) = (r, n)" and "r < 128"
  shows "n = 1 \<and> r = byte c"
  using assms
  by (auto simp: decode_rune_def Let_def rune_error_def second_ok_def is_cont_def
      split: list.splits if_splits)

lemma encode_rune_small [simp]: "r < 128 \<Longrightarrow> encode_rune r = [char_of r]"
  by (simp add: encode_rune_def Let_def)

lemma encode_rune_bytes_high:
  assumes "128 \<le> r" and "c \<in> set (encode_rune r)"
  shows "128 \<le> byte c"
proof -
  define q where "q = (if (55296 \<le> r \<and> r < 57344) \<or> 1114111 < r then rune_error else r)"
  have q: "128 \<le> q" "q \<le> 1114111"
    using assms(1) by (auto simp: q_def rune_error_def)
  have "128 + q mod 64 < 256" "128 + q div 64 mod 64 < 256" "128 + q div 4096 mod 64 < 256"
    by (simp_all add: trans_less_add1 less_le_trans [OF add_strict_left_mono [OF mod_less_divisor]])
  moreover have "q < 2048 \<Longrightarrow> 192 + q div 64 < 256" "q < 65536 \<Longrightarrow> 224 + q div 4096 < 256"
      "240 + q div 262144 < 256"
    using q by (auto simp: div_less_iff_less_mult intro: le_less_trans)
  ultimately show ?thesis using assms q
    by (auto simp: encode_rune_def Let_def q_def [symmetric] split: if_splits)
qed

text \<open>Every byte of a rune of more than one byte is outside ASCII.\<close>

lemma second_ok_high: "second_ok b c \<Longrightarrow> 128 \<le> byte c"
  by (auto simp: second_ok_def is_cont_def split: if_splits)

lemma is_cont_high: "is_cont c \<Longrightarrow> 128 \<le> byte c"
  by (simp add: is_cont_def)

lemma decode_rune_multi:
  assumes "decode_rune (c # s) = (r, n)" "n \<noteq> 1" "b \<in> set (take n (c # s))"
  shows "128 \<le> byte b"
proof -
  have c: "128 \<le> byte c" using assms(1,2) decode_rune_ascii [of c s] by fastforce
  consider "s = []" | c1 where "s = [c1]" | c1 c2 where "s = [c1, c2]" | c1 c2 c3 t where "s = c1 # c2 # c3 # t"
    by (metis list.exhaust)
  then show ?thesis
    using assms c by cases (auto simp: decode_rune_def Let_def dest!: second_ok_high is_cont_high split: if_splits)
qed

lemma take_decode_ascii:
  assumes "b \<in> set (take (snd (decode_rune (c # s))) (c # s))" "byte b < 128"
  shows "decode_rune (c # s) = (byte b, 1)"
proof -
  obtain r n where d: "decode_rune (c # s) = (r, n)" by (cases "decode_rune (c # s)")
  then have "n = 1" using decode_rune_multi [OF d] assms by fastforce
  then have "b = c" using assms d by simp
  then show ?thesis using assms(2) by simp
qed

end
