(* ===== verification/Json.thy ===== *)
theory Json
  imports Go_Utf8
begin

text \<open>
  The JSON values package \<^verbatim>\<open>encoding/json\<close> decodes into an \<open>any\<close>, and its decoder, as far as
  the gate uses them: \<open>json.Valid\<close>, decoding one value, and the strings. A float64 is kept as
  the text \<open>fmt.Sprint\<close> prints for it. What \<open>strconv.ParseFloat\<close> makes of a number's literal
  (\<open>None\<close> when it is out of range) is an argument, \<open>num\<close>, of the decoder; validity does not
  depend on it.

  The parser is recursive descent with fuel: \<open>value_fuel s\<close> is enough for the string \<open>s\<close>, and
  more changes nothing (\<open>parse_value_fuel\<close>).
\<close>

datatype json =
    JNull
  | JBool bool
  | JNum string
  | JStr string
  | JStrs "string list"
  | JArr "json list"
  | JObj "(string \<times> json) list"

text \<open>Store a key in a map, replacing an earlier value.\<close>

fun put :: "'k \<Rightarrow> 'v \<Rightarrow> ('k, 'v) gomap \<Rightarrow> ('k, 'v) gomap" where
  "put k v [] = [(k, v)]"
| "put k v ((k', v') # m) = (if k = k' then (k, v) # m else (k', v') # put k v m)"

section \<open>Lexical structure\<close>

definition json_space :: "char \<Rightarrow> bool" where
  [go_defs]: "json_space c \<longleftrightarrow> byte c \<in> {32, 9, 13, 10}"

definition skip_space :: "string \<Rightarrow> string" where
  "skip_space s = dropWhile json_space s"

definition hex_value :: "char \<Rightarrow> nat option" where
  "hex_value c =
     (if is_decimal c then Some (byte c - 48)
      else if 97 \<le> byte c \<and> byte c \<le> 102 then Some (byte c - 87)
      else if 65 \<le> byte c \<and> byte c \<le> 70 then Some (byte c - 55)
      else None)"

text \<open>\<open>getu4\<close>: the code unit of a \<^verbatim>\<open>\uXXXX\<close> escape at the start of the string.\<close>

definition getu4 :: "string \<Rightarrow> nat option" where
  "getu4 s =
     (case s of
        b # u # a # c # d # e # _ \<Rightarrow>
          if byte b = 92 \<and> u = CHR ''u'' then
            (case (hex_value a, hex_value c, hex_value d, hex_value e) of
               (Some w, Some x, Some y, Some z) \<Rightarrow> Some (((w * 16 + x) * 16 + y) * 16 + z)
             | _ \<Rightarrow> None)
          else None
      | _ \<Rightarrow> None)"

definition is_surrogate :: "nat \<Rightarrow> bool" where
  "is_surrogate r \<longleftrightarrow> 55296 \<le> r \<and> r < 57344"

text \<open>\<open>utf16.DecodeRune\<close>.\<close>

definition decode_pair :: "nat \<Rightarrow> nat \<Rightarrow> nat option" where
  "decode_pair hi lo =
     (if 55296 \<le> hi \<and> hi < 56320 \<and> 56320 \<le> lo \<and> lo < 57344
      then Some ((hi - 55296) * 1024 + (lo - 56320) + 65536) else None)"

definition simple_escape :: "char \<Rightarrow> char option" where
  "simple_escape c =
     (if byte c \<in> {34, 92, 47} then Some c
      else if c = CHR ''b'' then Some (CHR 0x08)
      else if c = CHR ''f'' then Some (CHR 0x0C)
      else if c = CHR ''n'' then Some (CHR 0x0A)
      else if c = CHR ''r'' then Some (CHR 0x0D)
      else if c = CHR ''t'' then Some (CHR 0x09)
      else None)"

text \<open>The rest of a string literal, after the opening quote: the decoded text and what follows the
  closing quote.\<close>

function parse_string :: "string \<Rightarrow> (string \<times> string) option" where
  "parse_string s =
     (case s of
        [] \<Rightarrow> None
      | c # t \<Rightarrow>
          if byte c = 34 then Some ([], t)
          else if byte c < 32 then None
          else if byte c = 92 then
            (case t of
               [] \<Rightarrow> None
             | e # u \<Rightarrow>
                 if e = CHR ''u'' then
                   (case getu4 s of
                      None \<Rightarrow> None
                    | Some r \<Rightarrow>
                        if is_surrogate r then
                          (case getu4 (drop 6 s) of
                             None \<Rightarrow>
                               map_option (map_prod (append (encode_rune rune_error)) id)
                                 (parse_string (drop 6 s))
                           | Some r1 \<Rightarrow>
                               (case decode_pair r r1 of
                                  Some d \<Rightarrow> map_option (map_prod (append (encode_rune d)) id)
                                             (parse_string (drop 12 s))
                                | None \<Rightarrow>
                                    map_option (map_prod (append (encode_rune rune_error)) id)
                                      (parse_string (drop 6 s))))
                        else map_option (map_prod (append (encode_rune r)) id)
                               (parse_string (drop 6 s)))
                 else
                   (case simple_escape e of
                      None \<Rightarrow> None
                    | Some x \<Rightarrow> map_option (map_prod (append [x]) id) (parse_string u)))
          else if byte c < 128 then map_option (map_prod (append [c]) id) (parse_string t)
          else
            (let (r, n) = decode_rune s
             in map_option (map_prod (append (encode_rune r)) id) (parse_string (drop (n - 1) t))))"
  by pat_completeness auto
termination
  by (relation "measure length") auto

declare parse_string.simps [simp del]

text \<open>A number literal: optional minus, an integer part with no leading zero, fraction, exponent.\<close>

definition digits_of :: "string \<Rightarrow> string \<times> string" where
  "digits_of s = (takeWhile is_decimal s, dropWhile is_decimal s)"

definition parse_int_part :: "string \<Rightarrow> (string \<times> string) option" where
  "parse_int_part s =
     (case s of
        [] \<Rightarrow> None
      | c # t \<Rightarrow> if c = CHR ''0'' then Some ([c], t)
                else if is_decimal c then Some (digits_of s)
                else None)"

definition parse_frac :: "string \<Rightarrow> (string \<times> string) option" where
  "parse_frac s =
     (case s of
        [] \<Rightarrow> Some ([], [])
      | c # t \<Rightarrow> if c = CHR ''.'' then
                  (let (ds, r) = digits_of t in if ds = [] then None else Some (c # ds, r))
                else Some ([], s))"

definition parse_exp :: "string \<Rightarrow> (string \<times> string) option" where
  "parse_exp s =
     (case s of
        [] \<Rightarrow> Some ([], [])
      | c # t \<Rightarrow> if c = CHR ''e'' \<or> c = CHR ''E'' then
                  (let (sg, u) = (case t of
                                    [] \<Rightarrow> ([], [])
                                  | d # u \<Rightarrow> if d = CHR ''+'' \<or> d = CHR ''-'' then ([d], u)
                                            else ([], t));
                       (ds, r) = digits_of u
                   in if ds = [] then None else Some (c # sg @ ds, r))
                else Some ([], s))"

definition parse_number :: "string \<Rightarrow> (string \<times> string) option" where
  "parse_number s =
     (let (sg, t) = (case s of
                       [] \<Rightarrow> ([], [])
                     | c # t \<Rightarrow> if c = CHR ''-'' then ([c], t) else ([], s))
      in case parse_int_part t of
           None \<Rightarrow> None
         | Some (i, u) \<Rightarrow>
             (case parse_frac u of
                None \<Rightarrow> None
              | Some (f, v) \<Rightarrow>
                  (case parse_exp v of
                     None \<Rightarrow> None
                   | Some (e, r) \<Rightarrow> Some (sg @ i @ f @ e, r))))"

section \<open>Values\<close>

definition maxNestingDepth :: nat where
  "maxNestingDepth = 10000"

text \<open>A literal name or a number.\<close>

definition parse_scalar :: "(string \<Rightarrow> string option) \<Rightarrow> string \<Rightarrow> (json \<times> string) option" where
  "parse_scalar num s =
     (if prefix ''true'' s then Some (JBool True, drop 4 s)
      else if prefix ''false'' s then Some (JBool False, drop 5 s)
      else if prefix ''null'' s then Some (JNull, drop 4 s)
      else
        (case parse_number s of
           None \<Rightarrow> None
         | Some (lit, r) \<Rightarrow> map_option (\<lambda>x. (JNum x, r)) (num lit)))"

text \<open>\<open>parse_value n k s\<close>: a value at the start of \<open>s\<close>, inside \<open>k\<close> open arrays and objects.\<close>

fun parse_value :: "(string \<Rightarrow> string option) \<Rightarrow> nat \<Rightarrow> nat \<Rightarrow> string \<Rightarrow> (json \<times> string) option"
and parse_elems :: "(string \<Rightarrow> string option) \<Rightarrow> nat \<Rightarrow> nat \<Rightarrow> string \<Rightarrow> (json list \<times> string) option"
and parse_members ::
  "(string \<Rightarrow> string option) \<Rightarrow> nat \<Rightarrow> nat \<Rightarrow> (string \<times> json) list \<Rightarrow> string
     \<Rightarrow> ((string \<times> json) list \<times> string) option"
where
  "parse_value num 0 k s = None"
| "parse_value num (Suc n) k s =
     (case skip_space s of
        [] \<Rightarrow> None
      | c # t \<Rightarrow>
          if byte c = 34 then map_option (map_prod JStr id) (parse_string t)
          else if c = CHR ''['' then
            (if maxNestingDepth \<le> k then None
             else (case skip_space t of
               [] \<Rightarrow> None
             | d # u \<Rightarrow> if d = CHR '']'' then Some (JArr [], u)
                       else map_option (map_prod JArr id) (parse_elems num n (Suc k) t)))
          else if c = CHR ''{'' then
            (if maxNestingDepth \<le> k then None
             else (case skip_space t of
               [] \<Rightarrow> None
             | d # u \<Rightarrow> if d = CHR ''}'' then Some (JObj [], u)
                       else map_option (map_prod JObj id) (parse_members num n (Suc k) [] t)))
          else parse_scalar num (c # t))"
| "parse_elems num 0 k s = None"
| "parse_elems num (Suc n) k s =
     (case parse_value num n k s of
        None \<Rightarrow> None
      | Some (v, r) \<Rightarrow>
          (case skip_space r of
             [] \<Rightarrow> None
           | c # t \<Rightarrow> if c = CHR '']'' then Some ([v], t)
                     else if c = CHR '','' then
                       map_option (map_prod (Cons v) id) (parse_elems num n k t)
                     else None))"
| "parse_members num 0 k m s = None"
| "parse_members num (Suc n) k m s =
     (case skip_space s of
        [] \<Rightarrow> None
      | q # t \<Rightarrow>
          if byte q \<noteq> 34 then None
          else (case parse_string t of
            None \<Rightarrow> None
          | Some (key, r) \<Rightarrow>
              (case skip_space r of
                 [] \<Rightarrow> None
               | c # u \<Rightarrow>
                   if c \<noteq> CHR '':'' then None
                   else (case parse_value num n k u of
                     None \<Rightarrow> None
                   | Some (v, w) \<Rightarrow>
                       (case skip_space w of
                          [] \<Rightarrow> None
                        | d # x \<Rightarrow>
                            if d = CHR ''}'' then Some (put key v m, x)
                            else if d = CHR '','' then parse_members num n k (put key v m) x
                            else None)))))"

definition value_fuel :: "string \<Rightarrow> nat" where
  "value_fuel s = Suc (2 * length s)"

text \<open>One value at the start of the input (\<open>Decoder.Decode\<close>), and the rest.\<close>

definition decode_value :: "(string \<Rightarrow> string option) \<Rightarrow> string \<Rightarrow> (json \<times> string) option" where
  "decode_value num s = parse_value num (value_fuel s) 0 s"

text \<open>\<open>json.Valid\<close>.\<close>

definition json_valid :: "string \<Rightarrow> bool" where
  "json_valid s \<longleftrightarrow>
     (case decode_value Some s of None \<Rightarrow> False | Some (_, r) \<Rightarrow> skip_space r = [])"

text \<open>\<open>fmt.Sprint\<close> of a decoded value.\<close>

fun sprint :: "json \<Rightarrow> string" where
  "sprint JNull = ''<nil>''"
| "sprint (JBool b) = (if b then ''true'' else ''false'')"
| "sprint (JNum t) = t"
| "sprint (JStr s) = s"
| "sprint (JStrs ss) = ''['' @ join '' '' ss @ '']''"
| "sprint (JArr vs) = ''['' @ join '' '' (map sprint vs) @ '']''"
| "sprint (JObj m) =
     ''map['' @ join '' '' (map snd (sort_key fst (map (\<lambda>(k, v). (k, k @ '':'' @ sprint v)) m))) @ '']''"

section \<open>Lemmas\<close>

lemma set_put [simp]: "fst ` set (put k v m) = insert k (fst ` set m)"
  by (induction k v m rule: put.induct) (simp_all add: insert_commute)

lemma map_of_put [simp]: "map_of (put k v m) = (map_of m)(k \<mapsto> v)"
  by (induction k v m rule: put.induct) (auto simp: fun_eq_iff)

lemma length_skip_space [simp]: "length (skip_space s) \<le> length s"
  by (simp add: skip_space_def length_dropWhile_le)

lemma skip_space_Cons: "skip_space s = c # t \<Longrightarrow> length t < length s"
  using length_skip_space [of s] by simp

lemma parse_string_shorter: "parse_string s = Some (v, r) \<Longrightarrow> length r < length s"
proof (induction s arbitrary: v r rule: parse_string.induct)
  case (1 s)
  show ?case
  proof (cases s)
    case Nil
    then show ?thesis using "1.prems" by (simp add: parse_string.simps)
  next
    case (Cons c t)
    note prems = "1.prems" [unfolded parse_string.simps [of s]]
    show ?thesis
    proof (cases t)
      case Nil
      then show ?thesis using prems Cons "1.IH" [OF Cons]
        by (auto split: if_splits prod.splits) (fastforce simp: parse_string.simps [of "[]"])+
    next
      case e: (Cons e u)
      show ?thesis using prems Cons e "1.IH" [OF Cons]
        by (auto split: if_splits option.splits prod.splits simp: Let_def)
          (fastforce dest: "1.IH")+
    qed
  qed
qed

lemma parse_int_part_split: "parse_int_part s = Some (i, r) \<Longrightarrow> s = i @ r \<and> i \<noteq> []"
  by (auto simp: parse_int_part_def digits_of_def split: list.splits if_splits)

lemma parse_frac_split: "parse_frac s = Some (f, r) \<Longrightarrow> s = f @ r"
  by (auto simp: parse_frac_def digits_of_def Let_def split: list.splits if_splits)

lemma parse_exp_split: "parse_exp s = Some (e, r) \<Longrightarrow> s = e @ r"
  by (auto simp: parse_exp_def digits_of_def Let_def split: list.splits if_splits)

lemma parse_number_split: "parse_number s = Some (l, r) \<Longrightarrow> s = l @ r \<and> l \<noteq> []"
  by (auto simp: parse_number_def Let_def split: list.splits if_splits option.splits prod.splits
      dest!: parse_int_part_split parse_frac_split parse_exp_split)

lemma parse_scalar_shorter: "parse_scalar num s = Some (v, r) \<Longrightarrow> length r < length s"
  by (auto simp: parse_scalar_def prefix_def split: if_splits option.splits dest!: parse_number_split)

lemma parse_shorter:
  "parse_value num n k s = Some (v, r) \<Longrightarrow> length r < length s"
  "parse_elems num n k s = Some (vs, r) \<Longrightarrow> length r < length s"
  "parse_members num n k m s = Some (m', r) \<Longrightarrow> length r < length s"
proof (induction num n k s and num n k s and num n k m s arbitrary: v r and vs r and m' r
    rule: parse_value_parse_elems_parse_members.induct)
  case (2 num n k s)
  obtain c t where c: "skip_space s = c # t" using "2.prems" by (auto split: list.splits)
  note t = skip_space_Cons [OF c]
  consider (arr) "c = CHR ''[''" | (obj) "c = CHR ''{''" | (other) "c \<noteq> CHR ''[''" "c \<noteq> CHR ''{''"
    by blast
  then show ?case
  proof cases
    case arr
    then show ?thesis using "2.prems" c t "2.IH"(1) [OF c]
      by (auto split: if_splits list.splits dest!: skip_space_Cons) fastforce+
  next
    case obj
    then show ?thesis using "2.prems" c t "2.IH"(2) [OF c]
      by (auto split: if_splits list.splits dest!: skip_space_Cons) fastforce+
  next
    case other
    then show ?thesis using "2.prems" c t length_skip_space [of s]
      by (fastforce split: if_splits dest!: parse_string_shorter parse_scalar_shorter)
  qed
next
  case (4 num n k s)
  then show ?case
    by (fastforce split: if_splits list.splits option.splits dest!: skip_space_Cons)
next
  case (6 num n k m s)
  then show ?case
    by (fastforce split: if_splits list.splits option.splits dest!: skip_space_Cons parse_string_shorter)
qed auto

lemma parse_fuel_irrelevant:
  "2 * length s < n \<Longrightarrow> 2 * length s < n' \<Longrightarrow>
     parse_value num n k s = parse_value num n' k s"
  "Suc (2 * length s) < n \<Longrightarrow> Suc (2 * length s) < n' \<Longrightarrow>
     parse_elems num n k s = parse_elems num n' k s"
  "Suc (2 * length s) < n \<Longrightarrow> Suc (2 * length s) < n' \<Longrightarrow>
     parse_members num n k m s = parse_members num n' k m s"
proof (induction num n k s and num n k s and num n k m s arbitrary: n' and n' and n'
    rule: parse_value_parse_elems_parse_members.induct)
  case (2 num n k s)
  obtain p where p: "n' = Suc p" using "2.prems" by (cases n') auto
  show ?case
  proof (cases "skip_space s")
    case Nil
    then show ?thesis using p by simp
  next
    case (Cons c t)
    note t = skip_space_Cons [OF Cons]
    have le: "Suc (2 * length t) < n" "Suc (2 * length t) < p" using t "2.prems" p by simp_all
    consider (arr) "c = CHR ''[''" | (obj) "c = CHR ''{''" | (other) "c \<noteq> CHR ''[''" "c \<noteq> CHR ''{''"
      by blast
    then show ?thesis
    proof cases
      case arr
      then show ?thesis using p Cons "2.IH"(1) [OF Cons _ arr _ _ _ le] by (simp split: list.splits)
    next
      case obj
      then show ?thesis using p Cons "2.IH"(2) [OF Cons _ _ obj _ _ _ le] by (simp split: list.splits)
    next
      case other
      then show ?thesis using p Cons by simp
    qed
  qed
next
  case (4 num n k s)
  obtain p where p: "n' = Suc p" using "4.prems" by (cases n') auto
  have v: "parse_value num n k s = parse_value num p k s"
    by (rule "4.IH"(1)) (use "4.prems" p in simp_all)
  have "parse_elems num n k t = parse_elems num p k t"
    if "parse_value num n k s = Some (w, r)" "skip_space r = c # t" "c = CHR '',''" for w r c t
    by (rule "4.IH"(2) [OF that(1) refl that(2) _ that(3)])
      (use that(3) "4.prems" p parse_shorter(1) [OF that(1)] skip_space_Cons [OF that(2)] in simp_all)
  then show ?case using p v by (auto split: option.splits list.splits)
next
  case (6 num n k m s)
  obtain p where p: "n' = Suc p" using "6.prems" by (cases n') auto
  show ?case
  proof (cases "skip_space s")
    case Nil
    then show ?thesis using p by simp
  next
    case q: (Cons q t)
    show ?thesis
    proof (cases "byte q = 34 \<and> (\<exists>key r c u. parse_string t = Some (key, r) \<and> skip_space r = c # u \<and> c = CHR '':'')")
      case False
      then show ?thesis using p q by (auto split: option.splits list.splits)
    next
      case True
      then obtain key r c u where st: "byte q = 34" "parse_string t = Some (key, r)"
          "skip_space r = c # u" "c = CHR '':''" by blast
      have lu: "length u < length s"
        using skip_space_Cons [OF q] parse_string_shorter [OF st(2)] skip_space_Cons [OF st(3)] by simp
      have v: "parse_value num n k u = parse_value num p k u"
        by (rule "6.IH"(1) [OF q _ st(2) refl st(3)]) (use st(1,4) lu "6.prems" p in simp_all)
      have "parse_members num n k (put key w m) x = parse_members num p k (put key w m) x"
        if "parse_value num n k u = Some (w, y)" "skip_space y = d # x" "d = CHR '',''" for w y d x
        by (rule "6.IH"(2) [OF q _ st(2) refl st(3) _ that(1) refl that(2) _ that(3)])
          (use st(1,4) that(3) lu "6.prems" p parse_shorter(1) [OF that(1)]
            skip_space_Cons [OF that(2)] in simp_all)
      then show ?thesis using p q st v by (auto split: option.splits list.splits)
    qed
  qed
qed auto

text \<open>The fuel of \<open>decode_value\<close> is enough: any larger amount gives the same answer.\<close>

lemma decode_value_fuel: "value_fuel s \<le> n \<Longrightarrow> parse_value num n 0 s = decode_value num s"
  unfolding decode_value_def by (rule parse_fuel_irrelevant) (simp_all add: value_fuel_def)

lemma decode_value_shorter: "decode_value num s = Some (v, r) \<Longrightarrow> length r < length s"
  unfolding decode_value_def by (rule parse_shorter)

end
