(* ===== verification/Classify_Profile.thy ===== *)
theory Classify_Profile
  imports Classify_Class Json
begin

text \<open>
  \<^verbatim>\<open>internal/classify/profile.go\<close>: the description of one upstream server (which class each
  tool has and which arguments carry targets, commands and configuration) and its validation.
  \<open>upstreamMayParseJSON\<close> of \<^verbatim>\<open>normalize.go\<close> is here because the validation of a capability
  table uses it. A Go map is an association list; reading the YAML is not modelled, so
  \<open>profile_parse\<close> starts from the decoded record.
\<close>

record toolspec =
  ts_class :: cls
  ts_target_params :: "string list"
  ts_targets_params :: "string list"
  ts_group_params :: "string list"
  ts_command_params :: "string list"
  ts_config_params :: "string list"
  ts_args :: "string list option"
  ts_refused_args :: "string list"
  ts_capability_param :: string
  ts_capability_table :: string
  ts_notes :: string

text \<open>The zero \<open>ToolSpec\<close>; \<open>ts_args = None\<close> is the nil slice of a profile without \<open>args\<close>.\<close>

definition empty_spec :: toolspec where
  "empty_spec = \<lparr>ts_class = [], ts_target_params = [], ts_targets_params = [],
     ts_group_params = [], ts_command_params = [], ts_config_params = [], ts_args = None,
     ts_refused_args = [], ts_capability_param = [], ts_capability_table = [], ts_notes = []\<rparr>"

type_synonym captable = "(string, cls) gomap"

record profile =
  pr_server :: string
  pr_source :: string
  pr_description :: string
  pr_capabilities :: "(string, captable) gomap"
  pr_tools :: "(string, toolspec) gomap"

datatype profile_error =
    ServerRequired
  | ToolsEmpty
  | ToolError string profile_error
  | InvalidClass cls
  | ArgsRequired
  | BadArgName string string
  | NamedTwice string string string
  | NamedAndRefused string string
  | RefusedTwice string
  | CapabilityGoTogether
  | NoSuchTable string
  | CapabilityNeedsExec cls
  | CapabilityAlone
  | BadTableName string
  | EmptyTable string
  | BadCapabilityID string string
  | BadCapabilityClass string string cls
  | FoldedTwice string string string
  | UnusedTable string
  | DuplicateProfile string

text \<open>The first error a loop over the elements returns.\<close>

fun first_error :: "('a \<Rightarrow> 'e option) \<Rightarrow> 'a list \<Rightarrow> 'e option" where
  "first_error f [] = None"
| "first_error f (x # xs) = (case f x of Some e \<Rightarrow> Some e | None \<Rightarrow> first_error f xs)"

section \<open>Strings an upstream may parse as JSON\<close>

definition upstreamMayParseJSON :: "string \<Rightarrow> bool \<Rightarrow> bool" where
  "upstreamMayParseJSON s config =
     (case trim_space s of
        [] \<Rightarrow> False
      | c # t \<Rightarrow>
          if c = CHR ''['' \<or> c = CHR ''{'' then
            (if \<not> config then True else c = CHR ''['' \<and> json_valid (c # t))
          else if c = CHR ''n'' \<or> c = CHR ''t'' \<or> c = CHR ''f'' then json_valid (c # t)
          else False)"

section \<open>Named arguments\<close>

definition capabilityParams :: "toolspec \<Rightarrow> string list" where
  "capabilityParams s = (if ts_capability_param s = [] then [] else [ts_capability_param s])"

definition spec_args :: "toolspec \<Rightarrow> string list" where
  "spec_args s = (case ts_args s of None \<Rightarrow> [] | Some a \<Rightarrow> a)"

definition NamedArgs :: "toolspec \<Rightarrow> string list" where
  "NamedArgs s = ts_target_params s @ ts_targets_params s @ ts_group_params s
     @ ts_command_params s @ ts_config_params s @ capabilityParams s @ spec_args s"

definition Named :: "toolspec \<Rightarrow> string \<Rightarrow> bool" where
  "Named s arg = list_ex (\<lambda>n. n = arg) (NamedArgs s)"

definition Lookup :: "profile \<Rightarrow> string \<Rightarrow> toolspec option" where
  "Lookup p tool =
     (case map_of (pr_tools p) tool of
        Some spec \<Rightarrow> Some spec
      | None \<Rightarrow>
          (let pre = pr_server p @ ''.'' in
           if has_prefix tool pre then map_of (pr_tools p) (trim_prefix tool pre) else None))"

definition ToolNames :: "profile \<Rightarrow> string list" where
  "ToolNames p = sort (go_keys (pr_tools p))"

definition sortedKeys :: "(string, 'v) gomap \<Rightarrow> string list" where
  "sortedKeys m = sort (go_keys m)"

section \<open>Validation of one tool\<close>

definition bad_arg_name :: "string \<Rightarrow> bool" where
  "bad_arg_name n \<longleftrightarrow> trim_space n = [] \<or> n \<noteq> trim_space n"

text \<open>One of the lists of argument names, with the names seen so far and their fields.\<close>

fun check_names :: "string \<Rightarrow> string list \<Rightarrow> (string, string) gomap
    \<Rightarrow> profile_error + (string, string) gomap" where
  "check_names field [] seen = Inr seen"
| "check_names field (n # ns) seen =
     (if bad_arg_name n then Inl (BadArgName field n)
      else case map_of seen n of
        Some prev \<Rightarrow> Inl (NamedTwice n prev field)
      | None \<Rightarrow> check_names field ns ((n, field) # seen))"

fun check_lists :: "(string \<times> string list) list \<Rightarrow> (string, string) gomap
    \<Rightarrow> profile_error + (string, string) gomap" where
  "check_lists [] seen = Inr seen"
| "check_lists ((field, ns) # ls) seen =
     (case check_names field ns seen of
        Inl e \<Rightarrow> Inl e
      | Inr seen' \<Rightarrow> check_lists ls seen')"

fun check_refused :: "(string, string) gomap \<Rightarrow> string set \<Rightarrow> string list \<Rightarrow> profile_error option" where
  "check_refused seen refused [] = None"
| "check_refused seen refused (n # ns) =
     (if bad_arg_name n then Some (BadArgName ''refused_args'' n)
      else case map_of seen n of
        Some field \<Rightarrow> Some (NamedAndRefused n field)
      | None \<Rightarrow> if n \<in> refused then Some (RefusedTwice n)
                else check_refused seen (insert n refused) ns)"

definition arg_lists :: "toolspec \<Rightarrow> (string \<times> string list) list" where
  "arg_lists s =
     [(''target_params'', ts_target_params s), (''targets_params'', ts_targets_params s),
      (''group_params'', ts_group_params s), (''command_params'', ts_command_params s),
      (''config_params'', ts_config_params s), (''capability_param'', capabilityParams s),
      (''args'', spec_args s)]"

definition validateArgs :: "toolspec \<Rightarrow> profile_error option" where
  "validateArgs s =
     (if ts_args s = None then Some ArgsRequired
      else case check_lists (arg_lists s) [] of
        Inl e \<Rightarrow> Some e
      | Inr seen \<Rightarrow> check_refused seen {} (ts_refused_args s))"

definition validateCapability :: "toolspec \<Rightarrow> (string, captable) gomap \<Rightarrow> profile_error option" where
  "validateCapability s tables =
     (if ts_capability_param s = [] \<and> ts_capability_table s = [] then None
      else if ts_capability_param s = [] \<or> ts_capability_table s = [] then Some CapabilityGoTogether
      else if ts_capability_table s \<notin> set (go_keys tables)
        then Some (NoSuchTable (ts_capability_table s))
      else if ts_class s \<noteq> ExecArbitrary then Some (CapabilityNeedsExec (ts_class s))
      else if ts_command_params s \<noteq> [] \<or> ts_config_params s \<noteq> [] then Some CapabilityAlone
      else None)"

section \<open>Validation of a capability table\<close>

definition maxCapabilityID :: nat where
  "maxCapabilityID = 128"

definition validCapabilityID :: "string \<Rightarrow> bool" where
  "validCapabilityID i \<longleftrightarrow>
     i \<noteq> [] \<and> length i \<le> maxCapabilityID
     \<and> list_all (\<lambda>c. 33 \<le> byte c \<and> byte c \<le> 126) i
     \<and> \<not> upstreamMayParseJSON i False"

text \<open>The loop over the sorted ids, with the lower-cased ids met so far.\<close>

fun check_ids :: "string \<Rightarrow> captable \<Rightarrow> (string, string) gomap \<Rightarrow> string list \<Rightarrow> profile_error option" where
  "check_ids name table folded [] = None"
| "check_ids name table folded (i # ids) =
     (if \<not> validCapabilityID i then Some (BadCapabilityID name i)
      else if \<not> class_valid (the (map_of table i))
        then Some (BadCapabilityClass name i (the (map_of table i)))
      else case map_of folded (to_lower i) of
        Some prev \<Rightarrow> Some (FoldedTwice name prev i)
      | None \<Rightarrow> check_ids name table ((to_lower i, i) # folded) ids)"

definition validateTable :: "string \<Rightarrow> captable \<Rightarrow> profile_error option" where
  "validateTable name table =
     (if trim_space name = [] \<or> name \<noteq> trim_space name then Some (BadTableName name)
      else if table = [] then Some (EmptyTable name)
      else check_ids name table [] (sortedKeys table))"

section \<open>Validation of a profile\<close>

definition validate_tool :: "profile \<Rightarrow> string \<Rightarrow> profile_error option" where
  "validate_tool p name =
     (let spec = the (map_of (pr_tools p) name) in
      if \<not> class_valid (ts_class spec) then Some (ToolError name (InvalidClass (ts_class spec)))
      else case validateArgs spec of
        Some e \<Rightarrow> Some (ToolError name e)
      | None \<Rightarrow>
          (case validateCapability spec (pr_capabilities p) of
             Some e \<Rightarrow> Some (ToolError name e)
           | None \<Rightarrow> None))"

definition used_tables :: "profile \<Rightarrow> string set" where
  "used_tables p = set (filter (\<lambda>t. t \<noteq> []) (map (\<lambda>(name, spec). ts_capability_table spec) (pr_tools p)))"

definition validate_capability_table :: "profile \<Rightarrow> string \<Rightarrow> profile_error option" where
  "validate_capability_table p name =
     (case validateTable name (the (map_of (pr_capabilities p) name)) of
        Some e \<Rightarrow> Some e
      | None \<Rightarrow> if name \<in> used_tables p then None else Some (UnusedTable name))"

definition profile_validate :: "profile \<Rightarrow> profile_error option" where
  "profile_validate p =
     (if trim_space (pr_server p) = [] then Some ServerRequired
      else if pr_tools p = [] then Some ToolsEmpty
      else case first_error (validate_tool p) (ToolNames p) of
        Some e \<Rightarrow> Some e
      | None \<Rightarrow> first_error (validate_capability_table p) (sortedKeys (pr_capabilities p)))"

text \<open>\<open>ParseProfile\<close> after decoding.\<close>

definition profile_parse :: "profile \<Rightarrow> profile_error + profile" where
  "profile_parse p = (case profile_validate p of Some e \<Rightarrow> Inl e | None \<Rightarrow> Inr p)"

text \<open>\<open>LoadProfileDir\<close> after decoding: the profiles of a directory in path order, keyed by server;
  the first error, or a second profile for a server, fails the load.\<close>

fun load_profiles :: "profile list \<Rightarrow> (string, profile) gomap \<Rightarrow> profile_error + (string, profile) gomap" where
  "load_profiles [] out = Inr out"
| "load_profiles (p # ps) out =
     (case profile_parse p of
        Inl e \<Rightarrow> Inl e
      | Inr q \<Rightarrow>
          if pr_server q \<in> set (go_keys out) then Inl (DuplicateProfile (pr_server q))
          else load_profiles ps (out @ [(pr_server q, q)]))"

section \<open>What validation establishes\<close>

lemma first_error_None: "first_error f xs = None \<longleftrightarrow> (\<forall>x \<in> set xs. f x = None)"
  by (induction xs) (auto split: option.splits)

lemma set_sortedKeys [simp]: "set (sortedKeys m) = dom (map_of m)"
  by (simp add: sortedKeys_def dom_map_of_conv_image_fst)

lemma set_ToolNames [simp]: "set (ToolNames p) = dom (map_of (pr_tools p))"
  by (simp add: ToolNames_def dom_map_of_conv_image_fst)

lemma check_names_Inr:
  "check_names field ns seen = Inr seen' \<Longrightarrow>
     list_all (\<lambda>n. \<not> bad_arg_name n) ns \<and> distinct ns \<and> set ns \<inter> dom (map_of seen) = {}
     \<and> dom (map_of seen') = dom (map_of seen) \<union> set ns"
proof (induction ns arbitrary: seen)
  case (Cons n ns)
  then have "map_of seen n = None" "\<not> bad_arg_name n" "check_names field ns ((n, field) # seen) = Inr seen'"
    by (auto split: if_splits option.splits)
  with Cons.IH [OF this(3)] show ?case by auto
qed simp

lemma check_lists_Inr:
  "check_lists ls seen = Inr seen' \<Longrightarrow>
     list_all (\<lambda>n. \<not> bad_arg_name n) (concat (map snd ls)) \<and> distinct (concat (map snd ls))
     \<and> set (concat (map snd ls)) \<inter> dom (map_of seen) = {}
     \<and> dom (map_of seen') = dom (map_of seen) \<union> set (concat (map snd ls))"
proof (induction ls arbitrary: seen)
  case (Cons l ls)
  obtain field ns where l: "l = (field, ns)" by (cases l)
  from Cons.prems obtain s where s: "check_names field ns seen = Inr s" and rest: "check_lists ls s = Inr seen'"
    by (auto simp: l split: sum.splits)
  show ?case using check_names_Inr [OF s] Cons.IH [OF rest] by (auto simp: l)
qed simp

lemma check_refused_None:
  "check_refused seen R ns = None \<Longrightarrow>
     list_all (\<lambda>n. \<not> bad_arg_name n) ns \<and> distinct ns \<and> set ns \<inter> (dom (map_of seen) \<union> R) = {}"
proof (induction ns arbitrary: R)
  case (Cons n ns)
  then have "map_of seen n = None" "\<not> bad_arg_name n" "n \<notin> R" "check_refused seen (insert n R) ns = None"
    by (auto split: if_splits option.splits)
  with Cons.IH [OF this(4)] show ?case by auto
qed simp

lemma concat_arg_lists: "concat (map snd (arg_lists s)) = NamedArgs s"
  by (simp add: arg_lists_def NamedArgs_def)

lemma validateArgs_None:
  assumes "validateArgs s = None"
  shows "ts_args s \<noteq> None \<and> distinct (NamedArgs s) \<and> distinct (ts_refused_args s)
    \<and> set (ts_refused_args s) \<inter> set (NamedArgs s) = {}
    \<and> (\<forall>n \<in> set (NamedArgs s) \<union> set (ts_refused_args s). \<not> bad_arg_name n)"
proof -
  from assms obtain seen where a: "ts_args s \<noteq> None" and seen: "check_lists (arg_lists s) [] = Inr seen"
      and ref: "check_refused seen {} (ts_refused_args s) = None"
    by (auto simp: validateArgs_def split: if_splits sum.splits)
  show ?thesis using a check_lists_Inr [OF seen] check_refused_None [OF ref]
    by (auto simp: concat_arg_lists list_all_iff)
qed

lemma check_ids_None:
  "check_ids name t folded ids = None \<Longrightarrow>
     (\<forall>i \<in> set ids. validCapabilityID i \<and> class_valid (the (map_of t i)) \<and> to_lower i \<notin> dom (map_of folded))
     \<and> distinct (map to_lower ids)"
proof (induction ids arbitrary: folded)
  case (Cons i ids)
  then have "validCapabilityID i" "class_valid (the (map_of t i))" "map_of folded (to_lower i) = None"
      "check_ids name t ((to_lower i, i) # folded) ids = None"
    by (auto split: if_splits option.splits)
  with Cons.IH [OF this(4)] show ?case by auto
qed simp

lemma distinct_map_inj_on: "distinct (map f xs) \<Longrightarrow> inj_on f (set xs)"
  by (simp add: distinct_map)

lemma validateTable_None:
  assumes "validateTable name t = None"
  shows "t \<noteq> [] \<and> (\<forall>i c. map_of t i = Some c \<longrightarrow> validCapabilityID i \<and> class_valid c)
    \<and> inj_on to_lower (dom (map_of t))"
proof -
  from assms have ne: "t \<noteq> []" and ids: "check_ids name t [] (sortedKeys t) = None"
    by (auto simp: validateTable_def split: if_splits)
  have "\<forall>i \<in> dom (map_of t). validCapabilityID i \<and> class_valid (the (map_of t i))"
      and "inj_on to_lower (dom (map_of t))"
    using check_ids_None [OF ids] distinct_map_inj_on [of to_lower "sortedKeys t"] by simp_all
  then show ?thesis using ne by (metis domI option.sel)
qed

text \<open>What the rest of the program relies on when it holds a validated profile.\<close>

definition tool_ok :: "profile \<Rightarrow> toolspec \<Rightarrow> bool" where
  "tool_ok p s \<longleftrightarrow> class_valid (ts_class s) \<and> ts_args s \<noteq> None \<and> distinct (NamedArgs s)
     \<and> set (ts_refused_args s) \<inter> set (NamedArgs s) = {}
     \<and> (\<forall>n \<in> set (NamedArgs s). n \<noteq> [] \<and> trim_space n = n)
     \<and> (ts_capability_param s \<noteq> [] \<longleftrightarrow> ts_capability_table s \<noteq> [])
     \<and> (ts_capability_param s \<noteq> [] \<longrightarrow>
          ts_class s = ExecArbitrary \<and> ts_command_params s = [] \<and> ts_config_params s = []
          \<and> ts_capability_table s \<in> dom (map_of (pr_capabilities p)))"

definition table_ok :: "profile \<Rightarrow> string \<Rightarrow> captable \<Rightarrow> bool" where
  "table_ok p name t \<longleftrightarrow> t \<noteq> [] \<and> inj_on to_lower (dom (map_of t))
     \<and> (\<forall>i \<in> dom (map_of t). validCapabilityID i \<and> class_valid (the (map_of t i)))
     \<and> (\<exists>spec \<in> snd ` set (pr_tools p). ts_capability_table spec = name)"

lemma trim_space_Nil [simp]: "trim_space [] = []"
  by code_simp

lemma not_bad_arg_name: "\<not> bad_arg_name n \<longleftrightarrow> n \<noteq> [] \<and> trim_space n = n"
  by (auto simp: bad_arg_name_def)

lemma validate_tool_None:
  assumes "validate_tool p name = None" and "map_of (pr_tools p) name = Some s"
  shows "tool_ok p s"
proof -
  have c: "class_valid (ts_class s)" and a: "validateArgs s = None"
      and k: "validateCapability s (pr_capabilities p) = None"
    using assms by (auto simp: validate_tool_def Let_def split: if_splits option.splits)
  show ?thesis using c validateArgs_None [OF a] k
    by (auto simp: tool_ok_def not_bad_arg_name validateCapability_def dom_map_of_conv_image_fst split: if_splits)
qed

lemma used_tables_iff:
  "name \<in> used_tables p \<longleftrightarrow> name \<noteq> [] \<and> (\<exists>spec \<in> snd ` set (pr_tools p). ts_capability_table spec = name)"
  by (force simp: used_tables_def)

lemma validate_capability_table_None:
  assumes "validate_capability_table p name = None" and "map_of (pr_capabilities p) name = Some t"
  shows "table_ok p name t"
proof -
  have v: "validateTable name t = None" and u: "name \<in> used_tables p"
    using assms by (auto simp: validate_capability_table_def split: if_splits option.splits)
  show ?thesis using validateTable_None [OF v] u by (auto simp: table_ok_def used_tables_iff)
qed

text \<open>Property C26 (invariant). A profile that passes \<open>Validate\<close> has a server name and at least one tool. Every
  tool has a class of the closed set, an \<open>args\<close> list, argument names that are trimmed, non-empty
  and named once, and no refused argument among them; a meta-tool has class EXEC_ARBITRARY, no
  command or config arguments, and an existing table. Every capability table is used by a tool,
  is not empty, holds valid ids with valid classes, and no two of its ids differ only in case.\<close>

theorem profile_validate_ok:
  assumes "profile_validate p = None"
  shows "trim_space (pr_server p) \<noteq> [] \<and> pr_tools p \<noteq> []
    \<and> (\<forall>name s. map_of (pr_tools p) name = Some s \<longrightarrow> tool_ok p s)
    \<and> (\<forall>name t. map_of (pr_capabilities p) name = Some t \<longrightarrow> table_ok p name t)"
proof -
  from assms have *: "trim_space (pr_server p) \<noteq> []" "pr_tools p \<noteq> []"
      "first_error (validate_tool p) (ToolNames p) = None"
      "first_error (validate_capability_table p) (sortedKeys (pr_capabilities p)) = None"
    by (auto simp: profile_validate_def split: if_splits option.splits)
  have "tool_ok p s" if "map_of (pr_tools p) name = Some s" for name s
    using *(3) that by (intro validate_tool_None [OF _ that]) (auto simp: first_error_None)
  moreover have "table_ok p name t" if "map_of (pr_capabilities p) name = Some t" for name t
    using *(4) that by (intro validate_capability_table_None [OF _ that]) (auto simp: first_error_None)
  ultimately show ?thesis using * by blast
qed

definition demo_meta_profile :: profile where
  "demo_meta_profile = \<lparr>pr_server = ''meraki'', pr_source = [], pr_description = [],
     pr_capabilities = [(''ops'', [(''getDevice'', ReadOperational), (''rebootDevice'', ExecArbitrary)])],
     pr_tools = [(''execute_api'', empty_spec\<lparr>ts_class := ExecArbitrary, ts_target_params := [''serial''],
        ts_capability_param := ''capability_id'', ts_capability_table := ''ops'', ts_args := Some [''body'']\<rparr>)]\<rparr>"

theorem profile_validate_ok_witness:
  "profile_validate demo_meta_profile = None
   \<and> tool_ok demo_meta_profile (snd (hd (pr_tools demo_meta_profile)))"
proof -
  have h: "profile_validate demo_meta_profile = None" by code_simp
  have "map_of (pr_tools demo_meta_profile) ''execute_api'' = Some (snd (hd (pr_tools demo_meta_profile)))"
    by (simp add: demo_meta_profile_def)
  with h profile_validate_ok [OF h] show ?thesis by blast
qed

text \<open>The profiles of a directory are keyed by their server names, which are distinct, and each
  of them passed validation.\<close>

definition loaded_ok :: "(string, profile) gomap \<Rightarrow> bool" where
  "loaded_ok m \<longleftrightarrow> wf_map m \<and> (\<forall>(k, p) \<in> set m. k = pr_server p \<and> profile_validate p = None)"

lemma load_profiles_ok: "load_profiles ps out = Inr m \<Longrightarrow> loaded_ok out \<Longrightarrow> loaded_ok m"
proof (induction ps out rule: load_profiles.induct)
  case (2 p ps out)
  from "2.prems"(1) obtain q where q: "profile_parse p = Inr q" and new: "pr_server q \<notin> set (go_keys out)"
      and rest: "load_profiles ps (out @ [(pr_server q, q)]) = Inr m"
    by (auto split: sum.splits if_splits)
  have "profile_validate q = None" using q by (auto simp: profile_parse_def split: option.splits)
  then have "loaded_ok (out @ [(pr_server q, q)])" using "2.prems"(2) new by (auto simp: loaded_ok_def wf_map_def)
  then show ?case using "2.IH" [OF q new rest] by blast
qed simp

end
