(* ===== verification/Classify_Config.thy ===== *)
theory Classify_Config
  imports Classify_Command Classify_Profile
begin

text \<open>
  \<^verbatim>\<open>internal/classify/config.go\<close>: the check of a configuration payload. A line that leaves
  configuration mode, runs an exec command or schedules one makes the call EXEC_ARBITRARY.
\<close>

section \<open>Dialects and word lists\<close>

datatype configDialect = dialectCLI | dialectJunosLoad

definition configDialects :: "((string \<times> string), configDialect) gomap" where
  "configDialects = [((''junos-mcp-server'', ''load_and_commit_config''), dialectJunosLoad)]"

definition dialect_of :: "string \<Rightarrow> string \<Rightarrow> configDialect" where
  "dialect_of server tool =
     (case map_of configDialects (server, tool) of None \<Rightarrow> dialectCLI | Some d \<Rightarrow> d)"

definition cliEscapeWords :: "string list" where
  "cliEscapeWords =
     [''end'', ''exit'', ''quit'', ''abort'', ''configure'', ''commit'', ''rollback'',
      ''do'', ''run'', ''exec'', ''execute'', ''enable'', ''disable'',
      ''bash'', ''shell'', ''start'', ''tclsh'', ''python'', ''python3'', ''guestshell'', ''op'',
      ''reload'', ''reboot'', ''halt'', ''reset'', ''restart'', ''zeroize'', ''zerotouch'',
      ''copy'', ''write'', ''delete'', ''erase'', ''format'', ''rename'', ''mkdir'', ''rmdir'',
      ''clear'', ''request'', ''load'', ''save'', ''install'', ''diagnose'', ''debug'',
      ''undebug'', ''test'', ''tcpdump'', ''show'', ''more'', ''ssh'', ''telnet'', ''connect'',
      ''alias'', ''cli'', ''event'', ''event-handler'', ''schedule'', ''scheduler'', ''kron'',
      ''daemon'', ''command'', ''ping'', ''traceroute'', ''clock'', ''send'', ''watch'',
      ''logout'', ''terminal'', ''agent'', ''return'', ''system-view'', ''admin'']"

definition junosSetVerbs :: "string list" where
  "junosSetVerbs =
     [''set'', ''delete'', ''activate'', ''deactivate'', ''annotate'', ''insert'', ''rename'',
      ''copy'', ''protect'', ''unprotect'', ''edit'', ''top'', ''up'']"

definition junosExecConfigWords :: "string list" where
  "junosExecConfigWords = [''event-options'', ''scripts'', ''extensions'', ''execute-commands'']"

definition maxConfigLineLen :: nat where
  "maxConfigLineLen = maxCommandLen"

definition maxConfigPayloadLen :: nat where
  "maxConfigPayloadLen = 65536"

definition autocommand :: string where
  "autocommand = ''autocommand''"

definition minAutocommandAbbrev :: nat where
  "minAutocommandAbbrev = 5"

definition checkEscapeWord :: string where "checkEscapeWord = ''escape-word''"
definition checkLeadingSymbol :: string where "checkLeadingSymbol = ''leading-symbol''"
definition checkSetVerb :: string where "checkSetVerb = ''set-verb''"
definition checkSeparator :: string where "checkSeparator = ''separator''"
definition checkExecConfig :: string where "checkExecConfig = ''exec-config''"
definition checkDTD :: string where "checkDTD = ''dtd''"

lemmas config_check_defs = checkEscapeWord_def checkLeadingSymbol_def checkSetVerb_def
  checkSeparator_def checkExecConfig_def checkDTD_def

section \<open>Words and lines\<close>

definition isLowerAlnum :: "char \<Rightarrow> bool" where
  [go_defs]: "isLowerAlnum c \<longleftrightarrow> is_lower c \<or> is_decimal c"

definition word_keep :: "char \<Rightarrow> bool" where
  [go_defs]: "word_keep c \<longleftrightarrow> isLowerAlnum c \<or> c = CHR ''-''"

definition trimWord :: "string \<Rightarrow> string" where
  "trimWord w = trim_set (\<lambda>c. \<not> word_keep c) w"

definition allDigits :: "string \<Rightarrow> bool" where
  "allDigits s \<longleftrightarrow> s \<noteq> [] \<and> list_all is_decimal s"

text \<open>\<open>ReplaceAll(s, CRLF, LF)\<close>.\<close>

fun crlf_to_lf :: "string \<Rightarrow> string" where
  "crlf_to_lf [] = []"
| "crlf_to_lf (c # s) =
     (if byte c = 13 \<and> (case s of [] \<Rightarrow> False | d # _ \<Rightarrow> byte d = 10)
      then CHR 0x0A # crlf_to_lf (drop 1 s)
      else c # crlf_to_lf s)"

definition splitLines :: "string \<Rightarrow> string list" where
  "splitLines s = split_on (CHR 0x0A) (replace_byte (CHR 0x0D) (CHR 0x0A) (crlf_to_lf s))"

definition first_word_byte :: "char \<Rightarrow> bool" where
  [go_defs]: "first_word_byte c \<longleftrightarrow> isLowerAlnum c \<or> c = CHR ''-'' \<or> c = CHR ''_''"

definition autocommand_word :: "string \<Rightarrow> bool" where
  "autocommand_word w \<longleftrightarrow>
     (let t = trimWord w in minAutocommandAbbrev \<le> length t \<and> has_prefix autocommand t)"

text \<open>The empty string means that the line passes; otherwise it is the check that failed.\<close>

definition checkCLIConfigLine :: "string \<Rightarrow> string" where
  "checkCLIConfigLine line =
     (if maxConfigLineLen < length line then checkTooLong
      else if checkBytes line \<noteq> [] then checkBytes line
      else
        let t = to_lower (trim_set blank_byte line) in
        if contains t '';'' then checkSeparator
        else case t of
          [] \<Rightarrow> []
        | b # u \<Rightarrow>
            if b = CHR ''!'' then []
            else if list_ex autocommand_word (split_fields t) then checkExecConfig
            else if \<not> isLowerAlnum b then checkLeadingSymbol
            else if list_ex (\<lambda>v. has_prefix v (b # takeWhile first_word_byte u)) cliEscapeWords
              then checkEscapeWord
            else [])"

definition exec_config_word :: "string \<Rightarrow> bool" where
  "exec_config_word w \<longleftrightarrow>
     (let t = trimWord w in t \<noteq> [] \<and> list_ex (\<lambda>x. has_prefix x t) junosExecConfigWords)"

definition checkJunosSetLine :: "string \<Rightarrow> string" where
  "checkJunosSetLine line =
     (if maxConfigLineLen < length line then checkTooLong
      else if checkBytes line \<noteq> [] then checkBytes line
      else
        let t = to_lower (trim_set blank_byte line) in
        if t = [] \<or> hd t = CHR ''#'' then []
        else
          let words = split_fields t in
          if hd words \<notin> set junosSetVerbs then checkSetVerb
          else if hd words = ''top'' \<and> length words \<noteq> 1 then checkSetVerb
          else if hd words = ''up''
                  \<and> (2 < length words \<or> (length words = 2 \<and> \<not> allDigits (words ! 1)))
            then checkSetVerb
          else if list_ex exec_config_word (tl words) then checkExecConfig
          else [])"

definition checkJunosDataLine :: "string \<Rightarrow> string \<Rightarrow> string" where
  "checkJunosDataLine line fmt =
     (if checkBytes line \<noteq> [] then checkBytes line
      else
        let t = to_lower line in
        if list_ex (\<lambda>x. contains t x) junosExecConfigWords then checkExecConfig
        else if fmt = ''xml'' \<and> contains t ''<!'' then checkDTD
        else [])"

text \<open>\<open>junosLoadFormat\<close> of the argument's value; an absent argument is the nil interface.\<close>

definition junosLoadFormat :: "json option \<Rightarrow> string" where
  "junosLoadFormat v =
     (case v of
        Some (JStr s) \<Rightarrow>
          if \<not> list_all (\<lambda>c. byte c < 128) s then ''set''
          else if to_lower s = ''text'' \<or> to_lower s = ''xml'' then to_lower s
          else ''set''
      | _ \<Rightarrow> ''set'')"

section \<open>The payload\<close>

text \<open>\<open>rawValues\<close> (normalize.go): an argument flattened into strings.\<close>

fun raw_values :: "json \<Rightarrow> string list" where
  "raw_values JNull = []"
| "raw_values (JStr s) = [s]"
| "raw_values (JStrs ss) = ss"
| "raw_values (JArr vs) = concat (map raw_values vs)"
| "raw_values v = [sprint v]"

definition rawValues :: "json option \<Rightarrow> string list" where
  "rawValues v = (case v of None \<Rightarrow> [] | Some j \<Rightarrow> raw_values j)"

definition bareToolName :: "profile \<Rightarrow> string \<Rightarrow> string" where
  "bareToolName p tool =
     (case map_of (pr_tools p) tool of
        Some spec \<Rightarrow> tool
      | None \<Rightarrow> trim_prefix tool (pr_server p @ ''.''))"

datatype configFailure = ConfigFailure (cf_element: nat) (cf_line: nat) (cf_check: string)

definition config_reason :: "configFailure \<Rightarrow> string" where
  "config_reason f =
     (if cf_element f = 0
      then ''config payload failed the config payload check ('' @ cf_check f @ '')''
      else ''config element '' @ nat_text (cf_element f) @ '' line '' @ nat_text (cf_line f)
             @ '' failed the config payload check ('' @ cf_check f @ '')'')"

definition check_line :: "configDialect \<Rightarrow> string \<Rightarrow> string \<Rightarrow> string" where
  "check_line dialect fmt line =
     (if dialect = dialectCLI then checkCLIConfigLine line
      else if fmt = ''set'' then checkJunosSetLine line
      else checkJunosDataLine line fmt)"

fun check_lines :: "configDialect \<Rightarrow> string \<Rightarrow> nat \<Rightarrow> nat \<Rightarrow> string list \<Rightarrow> configFailure option" where
  "check_lines d fmt e i [] = None"
| "check_lines d fmt e i (l # ls) =
     (if check_line d fmt l \<noteq> [] then Some (ConfigFailure e i (check_line d fmt l))
      else check_lines d fmt e (Suc i) ls)"

fun check_elements :: "configDialect \<Rightarrow> string \<Rightarrow> nat \<Rightarrow> string list \<Rightarrow> configFailure option" where
  "check_elements d fmt e [] = None"
| "check_elements d fmt e (v # vs) =
     (case check_lines d fmt e 1 (splitLines v) of
        Some f \<Rightarrow> Some f
      | None \<Rightarrow> check_elements d fmt (Suc e) vs)"

type_synonym args = "(string, json) gomap"

definition config_values :: "toolspec \<Rightarrow> args \<Rightarrow> string list" where
  "config_values spec a = concat (map (\<lambda>p. rawValues (map_of a p)) (ts_config_params spec))"

definition payload_format :: "configDialect \<Rightarrow> args \<Rightarrow> string" where
  "payload_format d a =
     (if d = dialectJunosLoad then junosLoadFormat (map_of a ''config_format'') else [])"

definition checkConfigPayload :: "profile \<Rightarrow> string \<Rightarrow> toolspec \<Rightarrow> args \<Rightarrow> configFailure option" where
  "checkConfigPayload p tool spec a =
     (let d = dialect_of (pr_server p) (bareToolName p tool);
          fmt = payload_format d a;
          values = config_values spec a
      in if maxConfigPayloadLen < sum_list (map length values) then Some (ConfigFailure 0 0 checkTooLong)
         else check_elements d fmt 1 values)"

section \<open>Properties of the payload check\<close>

lemma check_lines_None: "check_lines d fmt e i ls = None \<longleftrightarrow> (\<forall>l \<in> set ls. check_line d fmt l = [])"
  by (induction ls arbitrary: i) auto

lemma check_elements_None:
  "check_elements d fmt e vs = None \<longleftrightarrow> (\<forall>v \<in> set vs. \<forall>l \<in> set (splitLines v). check_line d fmt l = [])"
proof (induction vs arbitrary: e)
  case (Cons v vs)
  show ?case
  proof (cases "check_lines d fmt e 1 (splitLines v)")
    case None
    then show ?thesis using Cons.IH [of "Suc e"] check_lines_None [of d fmt e 1 "splitLines v"] by simp
  next
    case (Some f)
    then show ?thesis using check_lines_None [of d fmt e 1 "splitLines v"] by auto
  qed
qed simp

lemma check_lines_Some:
  "check_lines d fmt e i ls = Some f \<Longrightarrow>
     \<exists>j < length ls. f = ConfigFailure e (i + j) (check_line d fmt (ls ! j)) \<and> check_line d fmt (ls ! j) \<noteq> []
       \<and> (\<forall>m < j. check_line d fmt (ls ! m) = [])"
proof (induction ls arbitrary: i)
  case Nil
  then show ?case by simp
next
  case (Cons l ls)
  show ?case
  proof (cases "check_line d fmt l = []")
    case False
    then show ?thesis using Cons.prems by (intro exI [of _ 0]) auto
  next
    case True
    then obtain j where "j < length ls" "f = ConfigFailure e (Suc i + j) (check_line d fmt (ls ! j))"
        "check_line d fmt (ls ! j) \<noteq> []" "\<forall>m < j. check_line d fmt (ls ! m) = []"
      using Cons.IH [of "Suc i"] Cons.prems by auto
    then show ?thesis using True by (intro exI [of _ "Suc j"]) (simp add: All_less_Suc2)
  qed
qed

text \<open>Property C23 (functional). The payload check passes exactly when the whole payload is at most 64 KiB and every
  line of every element of every config argument passes the line rules of the tool's dialect.\<close>

theorem checkConfigPayload_spec:
  "checkConfigPayload p tool spec a = None \<longleftrightarrow>
     sum_list (map length (config_values spec a)) \<le> maxConfigPayloadLen
     \<and> (\<forall>v \<in> set (config_values spec a). \<forall>l \<in> set (splitLines v).
          check_line (dialect_of (pr_server p) (bareToolName p tool))
            (payload_format (dialect_of (pr_server p) (bareToolName p tool)) a) l = [])"
  by (auto simp: checkConfigPayload_def Let_def check_elements_None not_less)

lemma to_lower_trim_ascii:
  "checkBytes line = [] \<Longrightarrow> to_lower (trim_set blank_byte line) = map lower_byte (trim_set blank_byte line)"
  by (intro to_lower_ascii) (meson checkBytes_ascii is_ascii_def set_trim_set subsetD)

text \<open>Property C25 (safety). A line of a CLI payload that passes is one printable line of at most 1024 bytes with no
  command separator, and is blank, a comment, or starts with a letter or digit; its first word
  (letters, digits, dash and underscore) abbreviates no word that leaves configuration mode or
  runs an exec command, and no word of it abbreviates autocommand.\<close>

theorem cli_config_line_sound:
  assumes "checkCLIConfigLine line = []"
  defines "t \<equiv> to_lower (trim_set blank_byte line)"
  shows "length line \<le> 1024 \<and> list_all printable_or_tab line \<and> CHR '';'' \<notin> set line
    \<and> (t = [] \<or> hd t = CHR ''!''
       \<or> (isLowerAlnum (hd t)
          \<and> (\<forall>v \<in> set cliEscapeWords. \<not> isAbbrevOf (takeWhile first_word_byte t) v)
          \<and> (\<forall>w \<in> set (split_fields t). \<not> (5 \<le> length (trimWord w) \<and> isAbbrevOf (trimWord w) autocommand))))"
proof -
  have cb: "checkBytes line = []" and len: "length line \<le> 1024" and sep: "\<not> contains t '';''"
    using assms
    by (auto simp: checkCLIConfigLine_def Let_def t_def maxConfigLineLen_def maxCommandLen_def check_defs
        config_check_defs split: if_splits)
  have t: "t = map lower_byte (trim_set blank_byte line)" unfolding t_def by (rule to_lower_trim_ascii [OF cb])
  have semi: "CHR '';'' \<notin> set line"
  proof
    assume "CHR '';'' \<in> set line"
    then have "CHR '';'' \<in> set (trim_set blank_byte line)"
      using in_set_trim_set [of "CHR '';''" line blank_byte] by (auto simp: go_defs)
    then have "lower_byte (CHR '';'') \<in> set t" unfolding t by auto
    then have "CHR '';'' \<in> set t" by (simp add: lower_byte_def go_defs)
    then show False using sep by (auto simp: contains_sublist sublist_def dest: split_list)
  qed
  have rest: "t = [] \<or> hd t = CHR ''!''
       \<or> (isLowerAlnum (hd t)
          \<and> (\<forall>v \<in> set cliEscapeWords. \<not> isAbbrevOf (takeWhile first_word_byte t) v)
          \<and> (\<forall>w \<in> set (split_fields t). \<not> (5 \<le> length (trimWord w) \<and> isAbbrevOf (trimWord w) autocommand)))"
  proof (cases t)
    case (Cons b u)
    show ?thesis
    proof (cases "b = CHR ''!''")
      case False
      have ok: "\<not> list_ex autocommand_word (split_fields t)" "isLowerAlnum b"
          "\<not> list_ex (\<lambda>v. has_prefix v (b # takeWhile first_word_byte u)) cliEscapeWords"
        using assms(1) Cons False cb
        by (auto simp: checkCLIConfigLine_def Let_def t_def [symmetric] check_defs config_check_defs
            split: if_splits)
      have "takeWhile first_word_byte t = b # takeWhile first_word_byte u"
        using ok(2) Cons by (simp add: first_word_byte_def)
      then show ?thesis using ok Cons
        by (auto simp: list_ex_iff isAbbrevOf_def autocommand_word_def Let_def minAutocommandAbbrev_def)
    qed (use Cons in simp)
  qed simp
  show ?thesis using len cb semi rest by (simp add: checkBytes_ok)
qed

theorem cli_config_line_sound_witness:
  "checkCLIConfigLine ''interface Ethernet1'' = [] \<and> CHR '';'' \<notin> set ''interface Ethernet1''"
proof -
  have h: "checkCLIConfigLine ''interface Ethernet1'' = []" by code_simp
  show ?thesis using h cli_config_line_sound [OF h] by blast
qed

text \<open>A failing element is located by its position, and every element before it passes.\<close>

lemma check_elements_Some:
  "check_elements d fmt e vs = Some f \<Longrightarrow>
     \<exists>n < length vs. \<exists>j < length (splitLines (vs ! n)).
       f = ConfigFailure (e + n) (Suc j) (check_line d fmt (splitLines (vs ! n) ! j))
       \<and> check_line d fmt (splitLines (vs ! n) ! j) \<noteq> []
       \<and> (\<forall>m < j. check_line d fmt (splitLines (vs ! n) ! m) = [])
       \<and> (\<forall>k < n. \<forall>l \<in> set (splitLines (vs ! k)). check_line d fmt l = [])"
proof (induction vs arbitrary: e)
  case (Cons v vs)
  show ?case
  proof (cases "check_lines d fmt e 1 (splitLines v)")
    case (Some g)
    then have "g = f" using Cons.prems by simp
    then show ?thesis using check_lines_Some [OF Some] by (intro exI [of _ 0]) auto
  next
    case None
    have pass: "\<forall>l \<in> set (splitLines v). check_line d fmt l = []"
      using None check_lines_None [of d fmt e 1 "splitLines v"] by simp
    have "check_elements d fmt (Suc e) vs = Some f" using Cons.prems None by simp
    from Cons.IH [OF this] obtain n j where
      "n < length vs" "j < length (splitLines (vs ! n))"
      "f = ConfigFailure (Suc e + n) (Suc j) (check_line d fmt (splitLines (vs ! n) ! j))"
      "check_line d fmt (splitLines (vs ! n) ! j) \<noteq> []"
      "\<forall>m < j. check_line d fmt (splitLines (vs ! n) ! m) = []"
      "\<forall>k < n. \<forall>l \<in> set (splitLines (vs ! k)). check_line d fmt l = []" by blast
    then show ?thesis using pass by (intro exI [of _ "Suc n"]) (auto simp: All_less_Suc2)
  qed
qed simp

text \<open>A failure the payload check reports for a line names the first failing line of
  the first failing element, counted from 1, and the check that this line failed.\<close>

theorem checkConfigPayload_first_failure:
  assumes "checkConfigPayload p tool spec a = Some (ConfigFailure e i c)" and "e \<noteq> 0"
  defines "d \<equiv> dialect_of (pr_server p) (bareToolName p tool)"
  defines "fmt \<equiv> payload_format d a" and "vs \<equiv> config_values spec a"
  shows "e \<le> length vs \<and> 1 \<le> i \<and> i \<le> length (splitLines (vs ! (e - 1)))
    \<and> c = check_line d fmt (splitLines (vs ! (e - 1)) ! (i - 1)) \<and> c \<noteq> []
    \<and> (\<forall>m < i - 1. check_line d fmt (splitLines (vs ! (e - 1)) ! m) = [])
    \<and> (\<forall>k < e - 1. \<forall>l \<in> set (splitLines (vs ! k)). check_line d fmt l = [])"
proof -
  have "check_elements d fmt 1 vs = Some (ConfigFailure e i c)"
    using assms by (auto simp: checkConfigPayload_def Let_def split: if_splits)
  from check_elements_Some [OF this] show ?thesis by auto
qed

definition demo_push_spec :: toolspec where
  "demo_push_spec = empty_spec\<lparr>ts_class := WriteConfig, ts_config_params := [''config'']\<rparr>"

definition demo_push_args :: args where
  "demo_push_args = [(''config'', JArr [JStr ''vlan 7'', JStr (''vlan 8'' @ [CHR 0x0A] @ ''do reload'')])]"

definition demo_push_profile :: profile where
  "demo_push_profile = \<lparr>pr_server = ''eos'', pr_source = [], pr_description = [], pr_capabilities = [],
     pr_tools = [(''push'', demo_push_spec)]\<rparr>"

theorem checkConfigPayload_first_failure_witness:
  "checkConfigPayload demo_push_profile ''push'' demo_push_spec demo_push_args
     = Some (ConfigFailure 2 2 checkEscapeWord) \<and> checkEscapeWord \<noteq> []"
proof -
  have h: "checkConfigPayload demo_push_profile ''push'' demo_push_spec demo_push_args
      = Some (ConfigFailure 2 2 checkEscapeWord)"
  proof -
    have "dialect_of (pr_server demo_push_profile) (bareToolName demo_push_profile ''push'') = dialectCLI"
      by code_simp
    moreover have "config_values demo_push_spec demo_push_args
        = [''vlan 7'', ''vlan 8'' @ [CHR 0x0A] @ ''do reload'']" by code_simp
    moreover have "check_elements dialectCLI [] 1 [''vlan 7'', ''vlan 8'' @ [CHR 0x0A] @ ''do reload'']
        = Some (ConfigFailure 2 2 checkEscapeWord)" by code_simp
    ultimately show ?thesis
      by (simp add: checkConfigPayload_def payload_format_def maxConfigPayloadLen_def)
  qed
  show ?thesis using h checkConfigPayload_first_failure [OF h] by simp
qed

theorem checkConfigPayload_spec_witness:
  "checkConfigPayload demo_push_profile ''push'' demo_push_spec [(''config'', JStr ''vlan 7'')] = None
   \<and> config_values demo_push_spec [(''config'', JStr ''vlan 7'')] = [''vlan 7'']
   \<and> list_all (\<lambda>l. checkCLIConfigLine l = []) (splitLines ''vlan 7'')"
proof -
  let ?a = "[(''config'', JStr ''vlan 7'')]"
  have d: "dialect_of (pr_server demo_push_profile) (bareToolName demo_push_profile ''push'') = dialectCLI"
    by code_simp
  have v: "config_values demo_push_spec ?a = [''vlan 7'']" by code_simp
  have l: "\<forall>l \<in> set (splitLines ''vlan 7''). check_line dialectCLI [] l = []" by code_simp
  have "checkConfigPayload demo_push_profile ''push'' demo_push_spec ?a = None"
    using l by (subst checkConfigPayload_spec) (simp add: d v payload_format_def maxConfigPayloadLen_def)
  then show ?thesis using v l by (simp add: check_line_def list_all_iff)
qed

end
