(* ===== verification/Classify_Normalize.thy ===== *)
theory Classify_Normalize
  imports Classify_Config
begin

text \<open>
  \<^verbatim>\<open>internal/classify/normalize.go\<close>: the extraction of targets, commands and payload from a
  call's arguments, the closed argument list, and \<open>Classify\<close>, which gives a call its class. A
  nil profile is \<open>None\<close>; the arguments are the decoded JSON object as an association list.
\<close>

section \<open>Class sources\<close>

type_synonym csource = string

definition SourceProfile :: csource where [class_defs]: "SourceProfile = ''profile''"
definition SourceCapabilityTable :: csource where
  [class_defs]: "SourceCapabilityTable = ''capability_table''"
definition SourceFallback :: csource where [class_defs]: "SourceFallback = ''fallback''"
definition SourceAnnotationRaise :: csource where
  [class_defs]: "SourceAnnotationRaise = ''annotation_raise''"
definition SourceDowngrade :: csource where [class_defs]: "SourceDowngrade = ''downgrade''"
definition SourceReclassify :: csource where [class_defs]: "SourceReclassify = ''reclassify''"

definition Sources :: "csource list" where
  "Sources = [SourceProfile, SourceCapabilityTable, SourceFallback, SourceAnnotationRaise,
              SourceDowngrade, SourceReclassify]"

datatype source_error = UnknownSource string

definition ParseSource :: "string \<Rightarrow> source_error + csource" where
  "ParseSource s =
     (case find_first (\<lambda>x. x = s) Sources of Some x \<Rightarrow> Inr x | None \<Rightarrow> Inl (UnknownSource s))"

section \<open>Normalising the arguments\<close>

definition stringValues :: "json option \<Rightarrow> string list" where
  "stringValues v =
     concat (map (\<lambda>raw. filter (\<lambda>p. p \<noteq> []) (map trim_space (split_on (CHR '','') raw)))
       (rawValues v))"

definition param_values :: "(json option \<Rightarrow> string list) \<Rightarrow> args \<Rightarrow> string list \<Rightarrow> string list" where
  "param_values f a ps = concat (map (\<lambda>p. f (map_of a p)) ps)"

definition group_token :: "string \<Rightarrow> string" where
  "group_token v = (if has_prefix v ''@'' then v else ''@'' @ v)"

text \<open>The \<open>add\<close> closure of \<open>Normalize\<close>, run over every value: trimmed, non-empty, first copy only.\<close>

definition norm_targets :: "toolspec \<Rightarrow> args \<Rightarrow> string list" where
  "norm_targets spec a =
     dedup_from {} (filter (\<lambda>v. v \<noteq> []) (map trim_space
       (param_values stringValues a (ts_target_params spec)
        @ param_values stringValues a (ts_targets_params spec)
        @ map group_token (param_values stringValues a (ts_group_params spec)))))"

definition norm_commands :: "toolspec \<Rightarrow> args \<Rightarrow> string list" where
  "norm_commands spec a =
     map (trim_set blank_byte) (param_values rawValues a (ts_command_params spec))"

definition norm_payload :: "toolspec \<Rightarrow> args \<Rightarrow> string" where
  "norm_payload spec a =
     join [CHR 0x0A] (filter (\<lambda>v. v \<noteq> [])
       (map (trim_right (\<lambda>c. byte c = 10)) (param_values rawValues a (ts_config_params spec))))"

definition Normalize :: "profile option \<Rightarrow> string \<Rightarrow> args \<Rightarrow> string list \<times> string list \<times> string" where
  "Normalize po tool a =
     (case po of
        None \<Rightarrow> ([], [], [])
      | Some p \<Rightarrow>
          (case Lookup p tool of
             None \<Rightarrow> ([], [], [])
           | Some spec \<Rightarrow> (norm_targets spec a, norm_commands spec a, norm_payload spec a)))"

section \<open>The closed argument list\<close>

fun is_string :: "json \<Rightarrow> bool" where
  "is_string (JStr s) = True"
| "is_string v = False"

fun stringOrStrings :: "json \<Rightarrow> bool" where
  "stringOrStrings JNull = True"
| "stringOrStrings (JStr s) = True"
| "stringOrStrings (JStrs ss) = True"
| "stringOrStrings (JArr vs) = list_all is_string vs"
| "stringOrStrings v = False"

text \<open>Whether a present value of a mapped argument is malformed; \<open>config\<close> for config arguments.\<close>

definition malformed_value :: "bool \<Rightarrow> json \<Rightarrow> bool" where
  "malformed_value config v \<longleftrightarrow>
     (if \<not> stringOrStrings v then True
      else case v of JStr s \<Rightarrow> upstreamMayParseJSON s config | _ \<Rightarrow> False)"

definition malformed_in :: "bool \<Rightarrow> args \<Rightarrow> string list \<Rightarrow> string list" where
  "malformed_in config a names =
     filter (\<lambda>n. case map_of a n of None \<Rightarrow> False | Some v \<Rightarrow> malformed_value config v) names"

definition malformed_capability :: "toolspec \<Rightarrow> args \<Rightarrow> string list" where
  "malformed_capability spec a =
     (let name = ts_capability_param spec in
      if name = [] then []
      else case map_of a name of
        None \<Rightarrow> []
      | Some v \<Rightarrow>
          (case v of
             JNull \<Rightarrow> []
           | JStr s \<Rightarrow> if upstreamMayParseJSON s False then [name] else []
           | _ \<Rightarrow> [name]))"

definition CheckArguments :: "profile option \<Rightarrow> string \<Rightarrow> args \<Rightarrow> string list \<times> string list" where
  "CheckArguments po tool a =
     (case po of
        None \<Rightarrow> ([], [])
      | Some p \<Rightarrow>
          (case Lookup p tool of
             None \<Rightarrow> (sort (go_keys a), [])
           | Some spec \<Rightarrow>
               (sort (filter (\<lambda>k. \<not> Named spec k) (go_keys a)),
                sort (malformed_in False a (ts_target_params spec)
                  @ malformed_in False a (ts_targets_params spec)
                  @ malformed_in False a (ts_group_params spec)
                  @ malformed_in False a (ts_command_params spec)
                  @ malformed_in True a (ts_config_params spec)
                  @ malformed_capability spec a))))"

section \<open>Classify\<close>

record result =
  r_class :: cls
  r_source :: csource
  r_profile_class :: cls
  r_known :: bool
  r_targets :: "string list"
  r_commands :: "string list"
  r_payload :: string
  r_reason :: string
  r_unnamed :: "string list"
  r_malformed :: "string list"

definition zero_result :: result where
  "zero_result = \<lparr>r_class = [], r_source = [], r_profile_class = [], r_known = False,
     r_targets = [], r_commands = [], r_payload = [], r_reason = [], r_unnamed = [],
     r_malformed = []\<rparr>"

definition ArgumentsOK :: "result \<Rightarrow> bool" where
  "ArgumentsOK r \<longleftrightarrow> r_unnamed r = [] \<and> r_malformed r = []"

definition neverDowngrade :: string where
  "neverDowngrade = ''never-downgrade''"

definition failReason :: "int \<Rightarrow> string \<Rightarrow> string" where
  "failReason idx check =
     (if idx < 0 then ''no command to check''
      else ''command '' @ int_text (idx + 1) @ '' failed the read allow-list ('' @ check @ '')'')"

definition classifyCapability :: "profile \<Rightarrow> toolspec \<Rightarrow> args \<Rightarrow> cls \<times> string" where
  "classifyCapability p spec a =
     (case map_of a (ts_capability_param spec) of
        None \<Rightarrow> (ExecArbitrary, ''no capability id'')
      | Some JNull \<Rightarrow> (ExecArbitrary, ''no capability id'')
      | Some (JStr i) \<Rightarrow>
          (case (case map_of (pr_capabilities p) (ts_capability_table spec) of
                   None \<Rightarrow> None | Some t \<Rightarrow> map_of t i) of
             None \<Rightarrow> (ExecArbitrary,
                       ''capability not in capability table '' @ ts_capability_table spec)
           | Some c \<Rightarrow> (c, ''capability listed in capability table '' @ ts_capability_table spec))
      | Some _ \<Rightarrow> (ExecArbitrary, ''capability id is not a string''))"

text \<open>The command rules, for a tool with command arguments.\<close>

definition classify_commands_rule :: "toolspec \<Rightarrow> result \<Rightarrow> result" where
  "classify_commands_rule spec res =
     (if ts_class spec = ExecArbitrary then
        (if contains (to_lower (ts_notes spec)) neverDowngrade
         then res\<lparr>r_reason := ''tool is never downgraded (profile notes: never-downgrade)''\<rparr>
         else case classifyCommands (r_commands res) of (cc, idx, check) \<Rightarrow>
           if cc = ExecArbitrary then res\<lparr>r_reason := failReason idx check\<rparr>
           else if cc = ReadOperational then
             res\<lparr>r_class := ReadOperational, r_source := SourceDowngrade,
                 r_reason := ''every command passed the read allow-list''\<rparr>
           else if cc = ReadConfig then
             res\<lparr>r_class := ReadConfig, r_source := SourceReclassify,
                 r_reason := ''every command passed the read allow-list; a command reads configuration''\<rparr>
           else res)
      else if ts_class spec = ReadOperational then
        (case classifyCommands (r_commands res) of (cc, idx, check) \<Rightarrow>
           if cc = ExecArbitrary then
             res\<lparr>r_class := ExecArbitrary, r_source := SourceReclassify,
                 r_reason := failReason idx check\<rparr>
           else if cc = ReadConfig then
             res\<lparr>r_class := ReadConfig, r_source := SourceReclassify,
                 r_reason := ''a command reads configuration''\<rparr>
           else res)
      else res)"

text \<open>\<open>Classify\<close> once the tool's entry is found: the base result, the capability table, the
  payload check, the command rules.\<close>

definition classify_base :: "profile option \<Rightarrow> toolspec \<Rightarrow> string \<Rightarrow> args \<Rightarrow> result" where
  "classify_base po spec tool a =
     (case (CheckArguments po tool a, Normalize po tool a) of
        ((unnamed, malformed), (targets, commands, payload)) \<Rightarrow>
          \<lparr>r_class = ts_class spec, r_source = SourceProfile, r_profile_class = ts_class spec,
           r_known = True, r_targets = targets, r_commands = commands, r_payload = payload,
           r_reason = [], r_unnamed = unnamed, r_malformed = malformed\<rparr>)"

definition classify_known :: "profile \<Rightarrow> toolspec \<Rightarrow> string \<Rightarrow> args \<Rightarrow> result" where
  "classify_known p spec tool a =
     (let res = classify_base (Some p) spec tool a in
      if ts_capability_param spec \<noteq> [] then
        (case classifyCapability p spec a of (c, reason) \<Rightarrow>
           res\<lparr>r_class := c, r_reason := reason, r_source := SourceCapabilityTable\<rparr>)
      else case (if ts_class spec \<noteq> ExecArbitrary \<and> ts_config_params spec \<noteq> []
                 then checkConfigPayload p tool spec a else None) of
        Some f \<Rightarrow> res\<lparr>r_class := ExecArbitrary, r_source := SourceReclassify,
                       r_reason := config_reason f\<rparr>
      | None \<Rightarrow> if ts_command_params spec = [] then res else classify_commands_rule spec res)"

definition Classify :: "profile option \<Rightarrow> string \<Rightarrow> args \<Rightarrow> result" where
  "Classify po tool a =
     (case CheckArguments po tool a of (unnamed, malformed) \<Rightarrow>
        (case po of
          None \<Rightarrow> zero_result\<lparr>r_class := ExecArbitrary, r_source := SourceFallback,
                    r_reason := ''no profile for server'', r_unnamed := unnamed,
                    r_malformed := malformed\<rparr>
        | Some p \<Rightarrow>
            (case Lookup p tool of
               None \<Rightarrow> zero_result\<lparr>r_class := ExecArbitrary, r_source := SourceFallback,
                         r_reason := ''tool not in profile'', r_unnamed := unnamed,
                         r_malformed := malformed\<rparr>
             | Some spec \<Rightarrow> classify_known p spec tool a)))"

section \<open>When a call is not EXEC_ARBITRARY\<close>

lemma classifyCommands_class: "fst (classifyCommands cs) = ClassifyCommands cs"
  by (simp add: ClassifyCommands_def)

lemma Normalize_Some: "Lookup p tool = Some s \<Longrightarrow>
    Normalize (Some p) tool a = (norm_targets s a, norm_commands s a, norm_payload s a)"
  by (simp add: Normalize_def)

lemma classify_base_sel [simp]:
  assumes "Lookup p tool = Some s"
  shows "r_class (classify_base (Some p) s tool a) = ts_class s"
    "r_source (classify_base (Some p) s tool a) = SourceProfile"
    "r_profile_class (classify_base (Some p) s tool a) = ts_class s"
    "r_known (classify_base (Some p) s tool a)"
    "r_targets (classify_base (Some p) s tool a) = norm_targets s a"
    "r_commands (classify_base (Some p) s tool a) = norm_commands s a"
    "r_payload (classify_base (Some p) s tool a) = norm_payload s a"
    "r_unnamed (classify_base (Some p) s tool a) = fst (CheckArguments (Some p) tool a)"
    "r_malformed (classify_base (Some p) s tool a) = snd (CheckArguments (Some p) tool a)"
  using assms by (simp_all add: classify_base_def Normalize_Some split: prod.splits)

lemma classify_commands_rule_class:
  "r_class (classify_commands_rule s res) =
     (if ts_class s = ExecArbitrary then
        (if contains (to_lower (ts_notes s)) neverDowngrade then r_class res
         else if ClassifyCommands (r_commands res) \<in> {ReadOperational, ReadConfig}
           then ClassifyCommands (r_commands res) else r_class res)
      else if ts_class s = ReadOperational \<and> ClassifyCommands (r_commands res) \<in> {ExecArbitrary, ReadConfig}
        then ClassifyCommands (r_commands res) else r_class res)"
  by (auto simp: classify_commands_rule_def classifyCommands_class [symmetric] split: prod.splits)

lemma classify_commands_rule_keeps [simp]:
  "r_known (classify_commands_rule s res) = r_known res"
  "r_targets (classify_commands_rule s res) = r_targets res"
  "r_commands (classify_commands_rule s res) = r_commands res"
  "r_payload (classify_commands_rule s res) = r_payload res"
  "r_profile_class (classify_commands_rule s res) = r_profile_class res"
  "r_unnamed (classify_commands_rule s res) = r_unnamed res"
  "r_malformed (classify_commands_rule s res) = r_malformed res"
  by (auto simp: classify_commands_rule_def split: prod.splits)

lemma ClassifyCommands_class:
  "ClassifyCommands cs \<in> {ExecArbitrary, ReadConfig, ReadOperational}"
  by (simp add: ClassifyCommands_def classifyCommands_def classifyCommandsFrom_class)

lemma ClassifyCommands_pass:
  "ClassifyCommands cs \<noteq> ExecArbitrary \<longleftrightarrow> cs \<noteq> [] \<and> (\<forall>c \<in> set cs. ClassifyCommand c \<noteq> ExecArbitrary)"
  by (auto simp: ClassifyCommands_def classifyCommands_def classifyCommandsFrom_class)

lemma checkConfigPayload_pass:
  "(if ts_class s \<noteq> ExecArbitrary \<and> ts_config_params s \<noteq> [] then checkConfigPayload p tool s a else None) = None
   \<longleftrightarrow> (ts_class s \<noteq> ExecArbitrary \<and> ts_config_params s \<noteq> [] \<longrightarrow> checkConfigPayload p tool s a = None)"
  by simp

text \<open>The class of a call to a tool of the profile, as one expression.\<close>

lemma classify_known_class:
  assumes "Lookup p tool = Some s"
  shows "r_class (classify_known p s tool a) =
    (if ts_capability_param s \<noteq> [] then fst (classifyCapability p s a)
     else if ts_class s \<noteq> ExecArbitrary \<and> ts_config_params s \<noteq> [] \<and> checkConfigPayload p tool s a \<noteq> None
       then ExecArbitrary
     else if ts_command_params s = [] then ts_class s
     else r_class (classify_commands_rule s (classify_base (Some p) s tool a)))"
  using assms by (simp add: classify_known_def Let_def split: prod.splits option.splits)

lemma classifyCapability_not_exec:
  "fst (classifyCapability p s a) \<noteq> ExecArbitrary \<Longrightarrow>
    \<exists>i t. map_of a (ts_capability_param s) = Some (JStr i)
      \<and> map_of (pr_capabilities p) (ts_capability_table s) = Some t
      \<and> map_of t i = Some (fst (classifyCapability p s a))"
  by (auto simp: classifyCapability_def split: option.splits json.splits)

text \<open>The three ways a call can get a class below EXEC_ARBITRARY: the capability table lists the
  id the call carries; or the tool's own class, with its payload checked; or the class of its
  commands, all of which pass the read allow-list.\<close>

definition class_justified :: "profile \<Rightarrow> toolspec \<Rightarrow> string \<Rightarrow> args \<Rightarrow> cls \<Rightarrow> bool" where
  "class_justified p s tool a c \<longleftrightarrow>
     (if ts_capability_param s \<noteq> [] then
        (\<exists>i t. map_of a (ts_capability_param s) = Some (JStr i)
           \<and> map_of (pr_capabilities p) (ts_capability_table s) = Some t \<and> map_of t i = Some c)
      else
        (ts_class s \<noteq> ExecArbitrary \<and> ts_config_params s \<noteq> [] \<longrightarrow> checkConfigPayload p tool s a = None)
        \<and> (if ts_command_params s \<noteq> [] \<and> ts_class s \<in> {ExecArbitrary, ReadOperational} then
             (ts_class s = ExecArbitrary \<longrightarrow> \<not> contains (to_lower (ts_notes s)) neverDowngrade)
             \<and> norm_commands s a \<noteq> []
             \<and> (\<forall>cmd \<in> set (norm_commands s a). ClassifyCommand cmd \<noteq> ExecArbitrary)
             \<and> c = ClassifyCommands (norm_commands s a)
           else c = ts_class s))"

text \<open>Property C10 (safety). A call gets a class other than EXEC_ARBITRARY only when the server has a profile
  that lists the tool and one of three things holds: the tool is a meta-tool and its capability
  table lists the id of the call under that class; or the class is the tool's own and its
  configuration payload passed the payload check; or the tool takes commands, is not marked
  never-downgrade, has at least one command, every command passed the read allow-list and the
  class is the class of the batch.\<close>

theorem Classify_not_exec_justified:
  assumes "r_class (Classify po tool a) \<noteq> ExecArbitrary"
  shows "\<exists>p s. po = Some p \<and> Lookup p tool = Some s \<and> r_known (Classify po tool a)
     \<and> class_justified p s tool a (r_class (Classify po tool a))"
proof -
  from assms obtain p s where p: "po = Some p" and s: "Lookup p tool = Some s"
    by (auto simp: Classify_def split: option.splits prod.splits)
  have eq: "Classify po tool a = classify_known p s tool a"
    by (simp add: Classify_def p s split: prod.splits)
  have known: "r_known (classify_known p s tool a)"
    using s by (simp add: classify_known_def Let_def split: prod.splits option.splits)
  have "class_justified p s tool a (r_class (classify_known p s tool a))"
  proof (cases "ts_capability_param s = []")
    case False
    then show ?thesis using assms classifyCapability_not_exec [of p s a]
      by (simp add: eq classify_known_class [OF s] class_justified_def)
  next
    case True
    have pay: "ts_class s \<noteq> ExecArbitrary \<and> ts_config_params s \<noteq> [] \<longrightarrow> checkConfigPayload p tool s a = None"
      using assms True by (auto simp: eq classify_known_class [OF s] split: if_splits)
    show ?thesis using assms True pay ClassifyCommands_class [of "norm_commands s a"]
        ClassifyCommands_pass [of "norm_commands s a"]
      by (auto simp: eq classify_known_class [OF s] class_justified_def classify_commands_rule_class s
          split: if_splits)
  qed
  with known eq p s show ?thesis by auto
qed

definition demo_exec_spec :: toolspec where
  "demo_exec_spec = empty_spec\<lparr>ts_class := ExecArbitrary, ts_target_params := [''host''],
     ts_command_params := [''commands''], ts_args := Some [''timeout'']\<rparr>"

definition demo_exec_profile :: profile where
  "demo_exec_profile = \<lparr>pr_server = ''ssh'', pr_source = [], pr_description = [], pr_capabilities = [],
     pr_tools = [(''run'', demo_exec_spec)]\<rparr>"

definition demo_show_args :: args where
  "demo_show_args = [(''host'', JStr ''leaf1''), (''commands'', JArr [JStr ''show version'', JStr ''ping 10.0.0.1''])]"

theorem Classify_not_exec_justified_witness:
  "r_class (Classify (Some demo_exec_profile) ''ssh.run'' demo_show_args) = ReadOperational
   \<and> (\<exists>s. Lookup demo_exec_profile ''ssh.run'' = Some s
        \<and> class_justified demo_exec_profile s ''ssh.run'' demo_show_args ReadOperational)"
proof -
  have h: "r_class (Classify (Some demo_exec_profile) ''ssh.run'' demo_show_args) = ReadOperational"
    by code_simp
  then have "r_class (Classify (Some demo_exec_profile) ''ssh.run'' demo_show_args) \<noteq> ExecArbitrary" by simp
  from Classify_not_exec_justified [OF this] show ?thesis by (auto simp: h)
qed

section \<open>The closed argument list\<close>

lemma Classify_arguments:
  "r_unnamed (Classify po tool a) = fst (CheckArguments po tool a)
   \<and> r_malformed (Classify po tool a) = snd (CheckArguments po tool a)"
proof (cases "\<exists>p s. po = Some p \<and> Lookup p tool = Some s")
  case True
  then obtain p s where po: "po = Some p" and s: "Lookup p tool = Some s" by blast
  show ?thesis
    by (simp add: Classify_def po s classify_known_def Let_def split: prod.splits option.splits)
next
  case False
  then show ?thesis by (auto simp: Classify_def split: prod.splits option.splits)
qed

text \<open>The arguments of a tool that the gate reads: \<open>config\<close> for those that carry configuration.\<close>

definition mapped_value_ok :: "bool \<Rightarrow> json \<Rightarrow> bool" where
  "mapped_value_ok config v \<longleftrightarrow> stringOrStrings v \<and> (\<forall>s. v = JStr s \<longrightarrow> \<not> upstreamMayParseJSON s config)"

lemma malformed_value_iff: "malformed_value config v \<longleftrightarrow> \<not> mapped_value_ok config v"
  by (auto simp: malformed_value_def mapped_value_ok_def split: json.splits)

lemma malformed_in_Nil:
  "malformed_in config a names = [] \<longleftrightarrow>
     (\<forall>n \<in> set names. \<forall>v. map_of a n = Some v \<longrightarrow> mapped_value_ok config v)"
  by (auto simp: malformed_in_def filter_empty_conv malformed_value_iff split: option.splits)

lemma malformed_capability_Nil:
  "malformed_capability s a = [] \<longleftrightarrow>
     (\<forall>n \<in> set (capabilityParams s). \<forall>v. map_of a n = Some v \<longrightarrow>
        v = JNull \<or> (\<exists>t. v = JStr t \<and> \<not> upstreamMayParseJSON t False))"
  by (auto simp: malformed_capability_def capabilityParams_def Let_def split: option.splits json.splits if_splits)

lemma Named_iff: "Named s n \<longleftrightarrow> n \<in> set (NamedArgs s)"
  by (simp add: Named_def list_ex_iff)

lemma sort_Nil [simp]: "sort xs = [] \<longleftrightarrow> xs = []"
  by (metis length_0_conv length_sort)

text \<open>Property C22 (functional). For a tool of the profile, \<open>CheckArguments\<close> has no finding exactly when every
  argument of the call is named by the tool's entry, every value of a target or command argument
  is null, a string or a list of strings and no string an upstream could decode as JSON, a config
  value likewise except for text that only looks like JSON, and the capability id is null or such
  a string. A tool outside the profile may carry no argument at all.\<close>

theorem ArgumentsOK_spec:
  "ArgumentsOK (Classify (Some p) tool a) \<longleftrightarrow>
     (case Lookup p tool of
        None \<Rightarrow> a = []
      | Some s \<Rightarrow>
          set (go_keys a) \<subseteq> set (NamedArgs s)
          \<and> (\<forall>n \<in> set (ts_target_params s @ ts_targets_params s @ ts_group_params s @ ts_command_params s).
               \<forall>v. map_of a n = Some v \<longrightarrow> mapped_value_ok False v)
          \<and> (\<forall>n \<in> set (ts_config_params s). \<forall>v. map_of a n = Some v \<longrightarrow> mapped_value_ok True v)
          \<and> (\<forall>n \<in> set (capabilityParams s). \<forall>v. map_of a n = Some v \<longrightarrow>
               v = JNull \<or> (\<exists>t. v = JStr t \<and> \<not> upstreamMayParseJSON t False)))"
proof (cases "Lookup p tool")
  case None
  then show ?thesis using Classify_arguments [of "Some p" tool a]
    by (simp add: ArgumentsOK_def CheckArguments_def)
next
  case (Some s)
  have "ArgumentsOK (Classify (Some p) tool a) \<longleftrightarrow>
      filter (\<lambda>k. \<not> Named s k) (go_keys a) = []
      \<and> malformed_in False a (ts_target_params s) = [] \<and> malformed_in False a (ts_targets_params s) = []
      \<and> malformed_in False a (ts_group_params s) = [] \<and> malformed_in False a (ts_command_params s) = []
      \<and> malformed_in True a (ts_config_params s) = [] \<and> malformed_capability s a = []"
    using Classify_arguments [of "Some p" tool a] Some by (simp add: ArgumentsOK_def CheckArguments_def)
  moreover have "filter (\<lambda>k. \<not> Named s k) (go_keys a) = [] \<longleftrightarrow> set (go_keys a) \<subseteq> set (NamedArgs s)"
    by (auto simp: filter_empty_conv Named_iff)
  ultimately show ?thesis
    unfolding malformed_in_Nil malformed_capability_Nil by (auto simp: Some)
qed

theorem ArgumentsOK_spec_witness:
  "ArgumentsOK (Classify (Some demo_exec_profile) ''run'' demo_show_args)
   \<and> \<not> ArgumentsOK (Classify (Some demo_exec_profile) ''run'' ((''user'', JStr ''root'') # demo_show_args))"
proof
  show "ArgumentsOK (Classify (Some demo_exec_profile) ''run'' demo_show_args)"
    by (subst ArgumentsOK_spec)
       (simp add: demo_exec_profile_def Lookup_def demo_exec_spec_def empty_spec_def NamedArgs_def
         capabilityParams_def spec_args_def demo_show_args_def mapped_value_ok_def, code_simp)
  show "\<not> ArgumentsOK (Classify (Some demo_exec_profile) ''run'' ((''user'', JStr ''root'') # demo_show_args))"
    by (subst ArgumentsOK_spec)
       (simp add: demo_exec_profile_def Lookup_def demo_exec_spec_def empty_spec_def NamedArgs_def
         capabilityParams_def spec_args_def demo_show_args_def)
qed

section \<open>Targets\<close>

text \<open>The targets of a call are non-empty, trimmed and listed once each.\<close>

lemma Normalize_targets_wf:
  "distinct (fst (Normalize po tool a))
   \<and> (\<forall>t \<in> set (fst (Normalize po tool a)). t \<noteq> [] \<and> (\<exists>v. t = trim_space v))"
  by (auto simp: Normalize_def norm_targets_def split: option.splits)

end
