(* ===== verification/Policy_Types.thy ===== *)
theory Policy_Types
  imports Classify_Class
begin

text \<open>
  \<^verbatim>\<open>internal/policy/types.go\<close>: the policy file, the request it judges and the decision.
  Numbers of the file are Go ints; the one sum the package computes wraps at 64 bits
  (\<open>wrap64\<close>). A trace note is a value of \<open>trace_note\<close>, one constructor for each format string of
  the source; every text that reaches the agent is spelled out as a string.
\<close>

section \<open>Effects\<close>

type_synonym effect = string

definition Allow :: effect where [rule_defs]: "Allow = ''allow''"
definition Hold :: effect where [rule_defs]: "Hold = ''hold''"
definition Deny :: effect where [rule_defs]: "Deny = ''deny''"

datatype effect_error = UnknownEffect string

definition ParseEffect :: "string \<Rightarrow> effect_error + effect" where
  "ParseEffect s =
     (let t = to_lower (trim_space s) in
      if t = ''allow'' then Inr Allow
      else if t = ''hold'' then Inr Hold
      else if t = ''deny'' then Inr Deny
      else Inl (UnknownEffect s))"

definition effect_valid :: "effect \<Rightarrow> bool" where
  "effect_valid e = (case ParseEffect e of Inl x \<Rightarrow> False | Inr f \<Rightarrow> True)"

definition effect_unmarshal :: "string \<Rightarrow> effect_error + effect" where
  "effect_unmarshal b = ParseEffect (trim_set (\<lambda>c. byte c \<in> {34, 39, 32, 10}) b)"

section \<open>The policy file\<close>

text \<open>A 64-bit Go int.\<close>

definition wrap64 :: "int \<Rightarrow> int" where
  "wrap64 x = (x + 2 ^ 63) mod 2 ^ 64 - 2 ^ 63"

record session_limits =
  sl_max_devices :: int
  sl_max_pending :: int

record defaults =
  df_unknown_target :: effect
  df_session :: session_limits

record match =
  m_class :: "cls list"
  m_device_roles :: "string list"
  m_device_tags :: "string list"
  m_tools :: "string list"
  m_servers :: "string list"

record range =
  rg_gt :: "int option"
  rg_gte :: "int option"
  rg_lt :: "int option"
  rg_lte :: "int option"
  rg_eq :: "int option"

record when_cond =
  wh_targets_count :: "range option"

text \<open>\<open>Approval\<close>, with its TTL in nanoseconds.\<close>

record approval =
  ap_ttl :: int
  ap_approver_must_differ :: bool

record rule =
  rl_id :: string
  rl_match :: match
  rl_when :: "when_cond option"
  rl_effect :: effect
  rl_reason :: string
  rl_obligations :: "string list"
  rl_approval :: "approval option"

record policy =
  po_version :: int
  po_defaults :: defaults
  po_rules :: "rule list"

text \<open>\<open>Range.Contains\<close> and \<open>Range.Empty\<close>; \<open>None\<close> is the nil pointer.\<close>

definition range_contains :: "range option \<Rightarrow> int \<Rightarrow> bool" where
  "range_contains ro n =
     (case ro of
        None \<Rightarrow> True
      | Some r \<Rightarrow>
          if (case rg_gt r of None \<Rightarrow> False | Some g \<Rightarrow> n \<le> g) then False
          else if (case rg_gte r of None \<Rightarrow> False | Some g \<Rightarrow> n < g) then False
          else if (case rg_lt r of None \<Rightarrow> False | Some l \<Rightarrow> l \<le> n) then False
          else if (case rg_lte r of None \<Rightarrow> False | Some l \<Rightarrow> l < n) then False
          else if (case rg_eq r of None \<Rightarrow> False | Some e \<Rightarrow> n \<noteq> e) then False
          else True)"

definition range_empty :: "range option \<Rightarrow> bool" where
  "range_empty ro =
     (case ro of
        None \<Rightarrow> True
      | Some r \<Rightarrow> rg_gt r = None \<and> rg_gte r = None \<and> rg_lt r = None \<and> rg_lte r = None
                   \<and> rg_eq r = None)"

section \<open>Requests and decisions\<close>

record target =
  tg_name :: string
  tg_role :: string
  tg_tags :: "string list"
  tg_site :: string
  tg_known :: bool

record session =
  se_devices_touched :: int
  se_pending_holds :: int

record request =
  rq_server :: string
  rq_tool :: string
  rq_class :: cls
  rq_targets :: "target list"
  rq_session :: session

datatype trace_note =
    NoteReason string
  | NoteUnknownAllowed "string list" cls
  | NoteDevices int int
  | NoteMatched
  | NoteClass cls "cls list"
  | NoteServer string "string list"
  | NoteTool string "string list"
  | NoteRolesNoTargets
  | NoteRole string string "string list"
  | NoteTagsNoTargets
  | NoteTags string "string list" "string list"
  | NoteTargetsCount nat

record trace_entry =
  te_rule_id :: string
  te_matched :: bool
  te_note :: trace_note

record decision =
  dc_effect :: effect
  dc_rule_id :: string
  dc_reason :: string
  dc_obligations :: "string list"
  dc_approval :: "approval option"
  dc_trace :: "trace_entry list"

definition RuleUnknownTarget :: string where [rule_defs]: "RuleUnknownTarget = ''default:unknown_target''"
definition RuleMaxDevices :: string where [rule_defs]: "RuleMaxDevices = ''default:session.max_devices''"
definition RuleMaxPending :: string where [rule_defs]: "RuleMaxPending = ''default:session.max_pending''"
definition RuleNoMatch :: string where [rule_defs]: "RuleNoMatch = ''default:no-match''"
definition RuleBadArguments :: string where [rule_defs]: "RuleBadArguments = ''default:bad_arguments''"

definition KnownObligations :: "string list" where
  "KnownObligations =
     [''dry_run'', ''diff'', ''timed_rollback'', ''redact'', ''canary_first'', ''require_ticket'',
      ''notify'']"

section \<open>Lemmas\<close>

lemma effect_distinct [simp]:
  "Allow \<noteq> Hold" "Allow \<noteq> Deny" "Hold \<noteq> Deny" "Hold \<noteq> Allow" "Deny \<noteq> Allow" "Deny \<noteq> Hold"
  by (simp_all add: rule_defs)

lemma wrap64_id [simp]: "- (2 ^ 63) \<le> x \<Longrightarrow> x < 2 ^ 63 \<Longrightarrow> wrap64 x = x"
  by (simp add: wrap64_def)

lemma wrap64_bounds: "- (2 ^ 63) \<le> wrap64 x \<and> wrap64 x < 2 ^ 63"
  by (simp add: wrap64_def)

lemma range_contains_iff:
  "range_contains ro n \<longleftrightarrow>
     (\<forall>r. ro = Some r \<longrightarrow>
       (\<forall>g. rg_gt r = Some g \<longrightarrow> g < n) \<and> (\<forall>g. rg_gte r = Some g \<longrightarrow> g \<le> n)
       \<and> (\<forall>l. rg_lt r = Some l \<longrightarrow> n < l) \<and> (\<forall>l. rg_lte r = Some l \<longrightarrow> n \<le> l)
       \<and> (\<forall>e. rg_eq r = Some e \<longrightarrow> n = e))"
  by (auto simp: range_contains_def not_le not_less split: option.splits)

end
