(* ===== verification/Go_Path_Match.thy ===== *)
theory Go_Path_Match
  imports Go_Utf8
begin

text \<open>
  Package \<^verbatim>\<open>path\<close>: \<open>path.Match\<close>, the shell globs of the policy's tool and server
  matchers, with its three helpers. A malformed pattern is the error of the sum (the package
  has one, \<^verbatim>\<open>ErrBadPattern\<close>).
\<close>

datatype bad_pattern = ErrBadPattern

text \<open>\<open>scanChunk\<close>: whether stars lead the pattern, the chunk up to the next star outside a class,
  and the rest.\<close>

fun scan_chunk :: "bool \<Rightarrow> string \<Rightarrow> string \<times> string" where
  "scan_chunk inrange [] = ([], [])"
| "scan_chunk inrange (c # s) =
     (if c = CHR 0x5C then
        (case s of
           [] \<Rightarrow> ([c], [])
         | d # t \<Rightarrow> (case scan_chunk inrange t of (ch, rest) \<Rightarrow> (c # d # ch, rest)))
      else if c = CHR ''*'' \<and> \<not> inrange then ([], c # s)
      else
        (case scan_chunk (if c = CHR ''['' then True else if c = CHR '']'' then False else inrange) s of
           (ch, rest) \<Rightarrow> (c # ch, rest)))"

definition scanChunk :: "string \<Rightarrow> bool \<times> string \<times> string" where
  "scanChunk pattern =
     (let body = dropWhile (\<lambda>c. c = CHR ''*'') pattern in
      (body \<noteq> pattern, scan_chunk False body))"

text \<open>\<open>getEsc\<close>: one character of a class, and the chunk after it, which is never empty.\<close>

fun class_char :: "string \<Rightarrow> bad_pattern + (nat \<times> string)" where
  "class_char [] = Inl ErrBadPattern"
| "class_char (c # s) =
     (case decode_rune (c # s) of (r, n) \<Rightarrow>
        if r = rune_error \<and> n = 1 then Inl ErrBadPattern
        else if drop n (c # s) = [] then Inl ErrBadPattern
        else Inr (r, drop n (c # s)))"

fun getEsc :: "string \<Rightarrow> bad_pattern + (nat \<times> string)" where
  "getEsc [] = Inl ErrBadPattern"
| "getEsc (c # s) =
     (if c = CHR ''-'' \<or> c = CHR '']'' then Inl ErrBadPattern
      else if c = CHR 0x5C then class_char s
      else class_char (c # s))"

lemma class_char_shorter:
  assumes "class_char s = Inr (r, ch)" shows "length ch < length s \<and> ch \<noteq> []"
proof (cases s)
  case (Cons c t)
  have "0 < snd (decode_rune (c # t))" using decode_rune_width [of "c # t"] by simp
  then show ?thesis using assms Cons by (auto split: if_splits prod.splits)
qed (use assms in simp)

lemma getEsc_shorter: "getEsc chunk = Inr (r, ch) \<Longrightarrow> length ch < length chunk \<and> ch \<noteq> []"
  by (cases chunk) (auto dest: class_char_shorter simp del: class_char.simps split: if_splits)

declare getEsc.simps(2) [simp del]

text \<open>The loop over the ranges of a class; \<open>r\<close> is the rune read, or 0 once the match has failed.\<close>

function class_ranges :: "nat \<Rightarrow> bool \<Rightarrow> bool \<Rightarrow> string \<Rightarrow> bad_pattern + (bool \<times> string)" where
  "class_ranges r seen m [] = Inl ErrBadPattern"
| "class_ranges r seen m (c # chunk) =
     (if c = CHR '']'' \<and> seen then Inr (m, chunk)
      else case getEsc (c # chunk) of
        Inl e \<Rightarrow> Inl e
      | Inr (lo, c1) \<Rightarrow>
          (case c1 of
             [] \<Rightarrow> Inl ErrBadPattern
           | d # c2 \<Rightarrow>
               if d = CHR ''-'' then
                 (case getEsc c2 of
                    Inl e \<Rightarrow> Inl e
                  | Inr (hi, c3) \<Rightarrow> class_ranges r True (m \<or> (lo \<le> r \<and> r \<le> hi)) c3)
               else class_ranges r True (m \<or> lo = r) c1))"
  by pat_completeness auto
termination
  by (relation "measure (\<lambda>(r, seen, m, chunk). length chunk)") (auto dest!: getEsc_shorter)

declare class_ranges.simps(2) [simp del]

lemma class_ranges_shorter:
  "class_ranges r seen m chunk = Inr (m', rest) \<Longrightarrow> length rest < length chunk"
proof (induction r seen m chunk rule: class_ranges.induct)
  case (2 r seen m c chunk)
  note unf = class_ranges.simps(2) [of r seen m c chunk]
  show ?case
  proof (cases "c = CHR '']'' \<and> seen")
    case True
    then show ?thesis using "2.prems" unfolding unf by auto
  next
    case False
    then obtain lo d c2 where e1: "getEsc (c # chunk) = Inr (lo, d # c2)"
      using "2.prems" by (auto simp: unf split: sum.splits list.splits)
    note s1 = getEsc_shorter [OF e1]
    show ?thesis
    proof (cases "d = CHR ''-''")
      case True
      then obtain hi c3 where e2: "getEsc c2 = Inr (hi, c3)"
        using False "2.prems" e1 by (auto simp: unf split: sum.splits)
      have "class_ranges r True (m \<or> (lo \<le> r \<and> r \<le> hi)) c3 = Inr (m', rest)"
        using "2.prems" unfolding unf if_not_P [OF False] e1 by (simp add: True e2)
      from "2.IH"(1) [OF False e1 _ _ True e2 _ this]
      show ?thesis using s1 getEsc_shorter [OF e2] by simp
    next
      case c: False
      have "class_ranges r True (m \<or> lo = r) (d # c2) = Inr (m', rest)"
        using "2.prems" unfolding unf if_not_P [OF False] e1 by (simp add: c)
      from "2.IH"(2) [OF False e1 _ _ c this] show ?thesis using s1 by simp
    qed
  qed
qed simp

text \<open>\<open>matchChunk\<close>, with its flag \<open>failed\<close>: after a mismatch only the syntax is checked. The
  result is the rest of the name, or \<open>None\<close> for a mismatch.\<close>

definition class_body :: "string \<Rightarrow> bool \<times> string" where
  "class_body chunk =
     (if chunk \<noteq> [] \<and> hd chunk = CHR ''^'' then (True, tl chunk) else (False, chunk))"

lemma class_body_shorter: "length (snd (class_body chunk)) \<le> length chunk"
  by (simp add: class_body_def)

definition skip_rune :: "string \<Rightarrow> string" where
  "skip_rune s = drop (snd (decode_rune s)) s"

function match_chunk :: "bool \<Rightarrow> string \<Rightarrow> string \<Rightarrow> bad_pattern + string option" where
  "match_chunk failed [] s = Inr (if failed then None else Some s)"
| "match_chunk failed (c # chunk) s =
     (let failed' = (failed \<or> s = []) in
      if c = CHR ''['' then
        (case class_ranges (if failed' then 0 else fst (decode_rune s)) False False
                (snd (class_body chunk)) of
           Inl e \<Rightarrow> Inl e
         | Inr (m, rest) \<Rightarrow>
             match_chunk (failed' \<or> m = fst (class_body chunk)) rest
               (if failed' then s else skip_rune s))
      else if c = CHR ''?'' then
        match_chunk (failed' \<or> hd s = CHR ''/'') chunk (if failed' then s else skip_rune s)
      else if c = CHR 0x5C then
        (case chunk of
           [] \<Rightarrow> Inl ErrBadPattern
         | d # rest \<Rightarrow> match_chunk (failed' \<or> d \<noteq> hd s) rest (if failed' then s else tl s))
      else match_chunk (failed' \<or> c \<noteq> hd s) chunk (if failed' then s else tl s))"
  by pat_completeness auto
termination
proof (relation "measure (\<lambda>(failed, chunk, s). length chunk)", goal_cases)
  case (2 failed c chunk s x b y z)
  then show ?case using class_ranges_shorter [of _ False False "snd (class_body chunk)"]
      class_body_shorter [of chunk] by fastforce
qed auto

declare match_chunk.simps [simp del]

text \<open>\<open>scanChunk\<close> cuts the pattern: stars, chunk, rest.\<close>

lemma scan_chunk_append: "fst (scan_chunk inr s) @ snd (scan_chunk inr s) = s"
proof (induction inr s rule: scan_chunk.induct)
  case (2 inr c s)
  consider "c = CHR 0x5C" | "c \<noteq> CHR 0x5C" "c = CHR ''*'' \<and> \<not> inr" | "c \<noteq> CHR 0x5C" "\<not> (c = CHR ''*'' \<and> \<not> inr)"
    by blast
  then show ?case
  proof cases
    case 1
    then show ?thesis using "2.IH"(1) by (cases s) (simp_all add: split_beta)
  next
    case 3
    show ?thesis using "2.IH"(2) [OF 3] unfolding scan_chunk.simps if_not_P [OF 3(1)] if_not_P [OF 3(2)]
      by (simp add: split_beta)
  qed simp
qed simp

lemma scan_chunk_rest_shorter: "length (snd (scan_chunk inr s)) \<le> length s"
  by (metis scan_chunk_append le_add2 length_append)

lemma scan_chunk_nonempty:
  "s \<noteq> [] \<Longrightarrow> hd s \<noteq> CHR ''*'' \<Longrightarrow> fst (scan_chunk inr s) \<noteq> []"
  by (cases s) (simp_all add: split_beta split: list.split)

lemma scan_chunk_progress:
  assumes "s \<noteq> []" "hd s \<noteq> CHR ''*''" shows "length (snd (scan_chunk False s)) < length s"
proof -
  have "length s = length (fst (scan_chunk False s)) + length (snd (scan_chunk False s))"
    by (metis scan_chunk_append length_append)
  then show ?thesis using scan_chunk_nonempty [OF assms, of False] by simp
qed

lemma scanChunk_progress:
  assumes "p \<noteq> []" shows "length (snd (snd (scanChunk p))) < length p"
proof -
  define b where "b = dropWhile (\<lambda>c. c = CHR ''*'') p"
  have rest: "snd (snd (scanChunk p)) = snd (scan_chunk False b)" by (simp add: scanChunk_def b_def Let_def)
  show ?thesis
  proof (cases "hd p = CHR ''*''")
    case True
    then have "length b < length p" using assms by (cases p) (auto simp: b_def less_Suc_eq_le length_dropWhile_le)
    then show ?thesis using scan_chunk_rest_shorter [of False b] rest by simp
  next
    case False
    then have "b = p" using assms by (cases p) (auto simp: b_def)
    then show ?thesis using scan_chunk_progress [OF assms False] rest by simp
  qed
qed

text \<open>The loop that checks the syntax of the rest of the pattern after a mismatch.\<close>

function check_rest :: "string \<Rightarrow> bad_pattern + bool" where
  "check_rest pattern =
     (if pattern = [] then Inr False
      else case scanChunk pattern of (star, chunk, rest) \<Rightarrow>
        (case match_chunk False chunk [] of
           Inl e \<Rightarrow> Inl e
         | Inr m \<Rightarrow> check_rest rest))"
  by pat_completeness auto
termination
  by (relation "measure length") (use scanChunk_progress in \<open>auto, metis snd_conv\<close>)

declare check_rest.simps [simp del]

text \<open>The retries of a starred chunk after skipping one byte or more, none of them a slash:
  \<open>None\<close> when no position matches.\<close>

fun star_match :: "string \<Rightarrow> bool \<Rightarrow> string \<Rightarrow> bad_pattern + string option" where
  "star_match chunk final [] = Inr None"
| "star_match chunk final (c # s) =
     (if c = CHR ''/'' then Inr None
      else case match_chunk False chunk s of
        Inl e \<Rightarrow> Inl e
      | Inr None \<Rightarrow> star_match chunk final s
      | Inr (Some t) \<Rightarrow> if final \<and> t \<noteq> [] then star_match chunk final s else Inr (Some t))"

function path_match :: "string \<Rightarrow> string \<Rightarrow> bad_pattern + bool" where
  "path_match pattern name =
     (if pattern = [] then Inr (name = [])
      else case scanChunk pattern of (star, chunk, rest) \<Rightarrow>
        if star \<and> chunk = [] then Inr (CHR ''/'' \<notin> set name)
        else (case match_chunk False chunk name of
          Inl e \<Rightarrow> Inl e
        | Inr m \<Rightarrow>
            (if m \<noteq> None \<and> (m = Some [] \<or> rest \<noteq> []) then path_match rest (the m)
             else if star then
               (case star_match chunk (rest = []) name of
                  Inl e \<Rightarrow> Inl e
                | Inr (Some t) \<Rightarrow> path_match rest t
                | Inr None \<Rightarrow> check_rest rest)
             else check_rest rest)))"
  by pat_completeness auto
termination
  by (relation "measure (\<lambda>(pattern, name). length pattern)") (use scanChunk_progress in \<open>auto, (metis snd_conv)+\<close>)

declare path_match.simps [simp del]

section \<open>Literal patterns and the lone star\<close>

definition glob_meta :: "char \<Rightarrow> bool" where
  [go_defs]: "glob_meta c \<longleftrightarrow> c = CHR ''*'' \<or> c = CHR ''?'' \<or> c = CHR ''['' \<or> c = CHR 0x5C"

definition glob_literal :: "string \<Rightarrow> bool" where
  "glob_literal p \<longleftrightarrow> list_all (\<lambda>c. \<not> glob_meta c) p"

lemma scan_chunk_literal: "glob_literal s \<Longrightarrow> scan_chunk False s = (s, [])"
  by (induction s) (auto simp: glob_literal_def glob_meta_def)

lemma match_chunk_literal:
  "glob_literal chunk \<Longrightarrow>
     match_chunk failed chunk s = Inr (if \<not> failed \<and> prefix chunk s then Some (drop (length chunk) s) else None)"
proof (induction chunk arbitrary: failed s)
  case Nil
  then show ?case by (simp add: match_chunk.simps)
next
  case (Cons c chunk)
  then have c: "c \<noteq> CHR ''['' \<and> c \<noteq> CHR ''?'' \<and> c \<noteq> CHR 0x5C" and l: "glob_literal chunk"
    by (auto simp: glob_literal_def glob_meta_def)
  show ?case using c Cons.IH [OF l] by (cases s) (auto simp: match_chunk.simps(2) [of failed c chunk] Let_def)
qed

lemma path_match_literal:
  assumes "glob_literal p" shows "path_match p s = Inr (p = s)"
proof (cases p)
  case Nil
  then show ?thesis by (auto simp: path_match.simps [of "[]" s])
next
  case (Cons c q)
  have "dropWhile (\<lambda>c. c = CHR ''*'') p = p" using assms Cons by (auto simp: glob_literal_def glob_meta_def)
  then have sc: "scanChunk p = (False, p, [])" using scan_chunk_literal [OF assms] by (simp add: scanChunk_def Let_def)
  have nil: "path_match [] t = Inr (t = [])" "check_rest [] = Inr False" for t
    by (simp_all add: path_match.simps [of "[]"] check_rest.simps [of "[]"])
  have ne: "p \<noteq> []" by (simp add: Cons)
  show ?thesis
  proof (cases "prefix p s")
    case True
    then obtain t where s: "s = p @ t" by (auto simp: prefix_def)
    show ?thesis using ne match_chunk_literal [OF assms, of False s] unfolding path_match.simps [of p] sc s
      by (simp add: nil)
  next
    case False
    then show ?thesis using ne match_chunk_literal [OF assms, of False s] unfolding path_match.simps [of p] sc
      by (auto simp: nil)
  qed
qed

lemma path_match_star: "path_match ''*'' s = Inr (CHR ''/'' \<notin> set s)"
  by (simp add: path_match.simps [of "''*''"] scanChunk_def Let_def)

end
