(* ===== verification/Policy_Evaluate.thy ===== *)
theory Policy_Evaluate
  imports Policy_Types Go_Path_Match
begin

text \<open>
  \<^verbatim>\<open>internal/policy/evaluate.go\<close>: \<open>Evaluate\<close>, a pure function of a policy and a request. A nil
  policy is \<open>None\<close>.
\<close>

section \<open>Matching one rule\<close>

definition globAny :: "string list \<Rightarrow> string \<Rightarrow> bool" where
  "globAny patterns s = list_ex (\<lambda>p. path_match p s = Inr True \<or> p = s) patterns"

definition anyIn :: "string list \<Rightarrow> string list \<Rightarrow> bool" where
  "anyIn have_tags want = list_ex (\<lambda>h. h \<in> set want) have_tags"

definition unknownTargets :: "target list \<Rightarrow> string list" where
  "unknownTargets ts = map tg_name (filter (\<lambda>t. \<not> tg_known t) ts)"

text \<open>The tool name without its server prefix.\<close>

definition bare_tool :: "request \<Rightarrow> string" where
  "bare_tool r =
     (if rq_server r \<noteq> [] then trim_prefix (rq_tool r) (rq_server r @ ''.'') else rq_tool r)"

text \<open>\<open>Rule.matches\<close>: the first failing matcher, in the order of the source.\<close>

definition matches :: "rule \<Rightarrow> request \<Rightarrow> bool \<times> trace_note" where
  "matches rl r =
     (let m = rl_match rl in
      if m_class m \<noteq> [] \<and> rq_class r \<notin> set (m_class m)
        then (False, NoteClass (rq_class r) (m_class m))
      else if m_servers m \<noteq> [] \<and> \<not> globAny (m_servers m) (rq_server r)
        then (False, NoteServer (rq_server r) (m_servers m))
      else if m_tools m \<noteq> [] \<and> \<not> globAny (m_tools m) (bare_tool r)
              \<and> \<not> globAny (m_tools m) (rq_server r @ ''.'' @ bare_tool r)
        then (False, NoteTool (rq_tool r) (m_tools m))
      else if m_device_roles m \<noteq> [] \<and> rq_targets r = [] then (False, NoteRolesNoTargets)
      else case (if m_device_roles m \<noteq> []
                 then find_first (\<lambda>t. tg_role t \<notin> set (m_device_roles m)) (rq_targets r) else None) of
        Some t \<Rightarrow> (False, NoteRole (tg_name t) (tg_role t) (m_device_roles m))
      | None \<Rightarrow>
          if m_device_tags m \<noteq> [] \<and> rq_targets r = [] then (False, NoteTagsNoTargets)
          else (case (if m_device_tags m \<noteq> []
                      then find_first (\<lambda>t. \<not> anyIn (tg_tags t) (m_device_tags m)) (rq_targets r)
                      else None) of
            Some t \<Rightarrow> (False, NoteTags (tg_name t) (tg_tags t) (m_device_tags m))
          | None \<Rightarrow>
              (case rl_when rl of
                 None \<Rightarrow> (True, NoteMatched)
               | Some w \<Rightarrow>
                   if wh_targets_count w \<noteq> None
                      \<and> \<not> range_contains (wh_targets_count w) (int (length (rq_targets r)))
                   then (False, NoteTargetsCount (length (rq_targets r)))
                   else (True, NoteMatched))))"

section \<open>Evaluate\<close>

definition mk_trace :: "string \<Rightarrow> bool \<Rightarrow> trace_note \<Rightarrow> trace_entry" where
  "mk_trace i m n = \<lparr>te_rule_id = i, te_matched = m, te_note = n\<rparr>"

text \<open>A decision of a default: deny, with its reason as the note of the last trace entry.\<close>

definition deny_default :: "string \<Rightarrow> string \<Rightarrow> trace_entry list \<Rightarrow> decision" where
  "deny_default i reason tr =
     \<lparr>dc_effect = Deny, dc_rule_id = i, dc_reason = reason, dc_obligations = [], dc_approval = None,
      dc_trace = tr @ [mk_trace i True (NoteReason reason)]\<rparr>"

text \<open>The matching rule decides, except that the pending cap turns a hold into a deny; the rule's
  obligations stay on that deny, its approval does not.\<close>

definition decide_rule :: "policy \<Rightarrow> request \<Rightarrow> rule \<Rightarrow> trace_entry list \<Rightarrow> decision" where
  "decide_rule p r rl tr =
     (let mx = sl_max_pending (df_session (po_defaults p));
          pending = se_pending_holds (rq_session r)
      in if rl_effect rl = Hold \<and> 0 < mx \<and> mx \<le> pending then
           (let reason = ''rule '' @ rl_id rl @ '' would hold but '' @ int_text pending
                  @ '' holds are already pending, cap is '' @ int_text mx
            in \<lparr>dc_effect = Deny, dc_rule_id = RuleMaxPending, dc_reason = reason,
                dc_obligations = rl_obligations rl, dc_approval = None,
                dc_trace = tr @ [mk_trace RuleMaxPending True (NoteReason reason)]\<rparr>)
         else
           \<lparr>dc_effect = rl_effect rl, dc_rule_id = rl_id rl, dc_reason = rl_reason rl,
            dc_obligations = rl_obligations rl, dc_approval = rl_approval rl, dc_trace = tr\<rparr>)"

fun eval_rules :: "policy \<Rightarrow> request \<Rightarrow> trace_entry list \<Rightarrow> rule list \<Rightarrow> decision" where
  "eval_rules p r tr [] = deny_default RuleNoMatch ''no rule matched'' tr"
| "eval_rules p r tr (rl # rls) =
     (case matches rl r of (ok, note) \<Rightarrow>
        if ok then decide_rule p r rl (tr @ [mk_trace (rl_id rl) ok note])
        else eval_rules p r (tr @ [mk_trace (rl_id rl) ok note]) rls)"

definition devices_total :: "request \<Rightarrow> int" where
  "devices_total r = wrap64 (se_devices_touched (rq_session r) + int (length (rq_targets r)))"

definition unknown_note :: "string list \<Rightarrow> string" where
  "unknown_note unknown = ''unknown targets: '' @ join '', '' unknown"

definition unknown_reason :: "string list \<Rightarrow> string" where
  "unknown_reason unknown = unknown_note unknown
     @ ''; a device absent from inventory is not a device the agent may touch''"

definition devices_reason :: "int \<Rightarrow> int \<Rightarrow> string" where
  "devices_reason n mx =
     ''session would touch '' @ int_text n @ '' devices, cap is '' @ int_text mx"

definition Evaluate :: "policy option \<Rightarrow> request \<Rightarrow> decision" where
  "Evaluate po r =
     (case po of
        None \<Rightarrow> deny_default RuleNoMatch ''no policy loaded'' []
      | Some p \<Rightarrow>
          (let unknown = unknownTargets (rq_targets r);
               mx = sl_max_devices (df_session (po_defaults p));
               n = devices_total r;
               tr1 = (if unknown \<noteq> [] then
                        [mk_trace RuleUnknownTarget False (NoteUnknownAllowed unknown (rq_class r))]
                      else []);
               tr2 = (if 0 < mx then tr1 @ [mk_trace RuleMaxDevices False (NoteDevices n mx)] else tr1)
           in if unknown \<noteq> [] \<and> df_unknown_target (po_defaults p) \<noteq> Allow
                then deny_default RuleUnknownTarget (unknown_reason unknown) []
              else if 0 < mx \<and> mx < n
                then deny_default RuleMaxDevices (devices_reason n mx) tr1
              else eval_rules p r tr2 (po_rules p)))"

section \<open>The specification: first selecting rule, defaults before and after\<close>

definition glob_hit :: "string list \<Rightarrow> string \<Rightarrow> bool" where
  "glob_hit patterns s \<longleftrightarrow> (\<exists>p \<in> set patterns. p = s \<or> path_match p s = Inr True)"

text \<open>A rule selects a request when every matcher it sets holds; a role or tag matcher must hold
  for every target, and for at least one.\<close>

definition selects :: "rule \<Rightarrow> request \<Rightarrow> bool" where
  "selects rl r \<longleftrightarrow>
     (m_class (rl_match rl) = [] \<or> rq_class r \<in> set (m_class (rl_match rl)))
     \<and> (m_servers (rl_match rl) = [] \<or> glob_hit (m_servers (rl_match rl)) (rq_server r))
     \<and> (m_tools (rl_match rl) = [] \<or> glob_hit (m_tools (rl_match rl)) (bare_tool r)
          \<or> glob_hit (m_tools (rl_match rl)) (rq_server r @ ''.'' @ bare_tool r))
     \<and> (m_device_roles (rl_match rl) = []
          \<or> (rq_targets r \<noteq> [] \<and> (\<forall>t \<in> set (rq_targets r). tg_role t \<in> set (m_device_roles (rl_match rl)))))
     \<and> (m_device_tags (rl_match rl) = []
          \<or> (rq_targets r \<noteq> []
             \<and> (\<forall>t \<in> set (rq_targets r). set (tg_tags t) \<inter> set (m_device_tags (rl_match rl)) \<noteq> {})))
     \<and> (\<forall>w. rl_when rl = Some w \<longrightarrow> range_contains (wh_targets_count w) (int (length (rq_targets r))))"

text \<open>What a decision says, without its trace.\<close>

definition verdict_of :: "decision \<Rightarrow> effect \<times> string \<times> string \<times> string list \<times> approval option" where
  "verdict_of d = (dc_effect d, dc_rule_id d, dc_reason d, dc_obligations d, dc_approval d)"

definition pending_full :: "policy \<Rightarrow> request \<Rightarrow> bool" where
  "pending_full p r \<longleftrightarrow> 0 < sl_max_pending (df_session (po_defaults p))
     \<and> sl_max_pending (df_session (po_defaults p)) \<le> se_pending_holds (rq_session r)"

definition devices_full :: "policy \<Rightarrow> request \<Rightarrow> bool" where
  "devices_full p r \<longleftrightarrow> 0 < sl_max_devices (df_session (po_defaults p))
     \<and> sl_max_devices (df_session (po_defaults p)) < devices_total r"

definition refuses_unknown :: "policy \<Rightarrow> request \<Rightarrow> bool" where
  "refuses_unknown p r \<longleftrightarrow> df_unknown_target (po_defaults p) \<noteq> Allow \<and> (\<exists>t \<in> set (rq_targets r). \<not> tg_known t)"

section \<open>Lemmas\<close>

lemma globAny_iff: "globAny patterns s \<longleftrightarrow> glob_hit patterns s"
  by (auto simp: globAny_def glob_hit_def list_ex_iff)

lemma anyIn_iff: "anyIn h w \<longleftrightarrow> set h \<inter> set w \<noteq> {}"
  by (auto simp: anyIn_def list_ex_iff)

lemma unknownTargets_Nil: "unknownTargets ts = [] \<longleftrightarrow> (\<forall>t \<in> set ts. tg_known t)"
  by (simp add: unknownTargets_def filter_empty_conv)

lemma range_contains_None [simp]: "range_contains None n"
  by (simp add: range_contains_def)

lemma matches_True_note: "matches rl r = (True, n) \<Longrightarrow> n = NoteMatched"
  by (auto simp: matches_def Let_def split: if_splits option.splits)

lemma fst_case_none:
  "fst (case x of Some t \<Rightarrow> (False, f t) | None \<Rightarrow> g) \<longleftrightarrow> x = None \<and> fst g"
  by (cases x) auto

lemma fst_if_false: "fst (if c then (False, x) else y) \<longleftrightarrow> \<not> c \<and> fst y"
  by simp

lemma if_find_None: "(if c then find_first P xs else None) = None \<longleftrightarrow> (c \<longrightarrow> (\<forall>x \<in> set xs. \<not> P x))"
  by simp

lemma matches_selects: "fst (matches rl r) \<longleftrightarrow> selects rl r"
proof -
  have w: "fst (case rl_when rl of None \<Rightarrow> (True, NoteMatched)
      | Some w \<Rightarrow> if wh_targets_count w \<noteq> None \<and> \<not> range_contains (wh_targets_count w) k
                   then (False, NoteTargetsCount l) else (True, NoteMatched))
    \<longleftrightarrow> (\<forall>w. rl_when rl = Some w \<longrightarrow> range_contains (wh_targets_count w) k)" for k l
    by (auto split: option.split)
  show ?thesis
    unfolding matches_def Let_def fst_if_false fst_case_none if_find_None w selects_def globAny_iff anyIn_iff
    by blast
qed

text \<open>The rule loop finds the first selecting rule, and traces the rules before it as unmatched.\<close>

definition skipped :: "request \<Rightarrow> rule list \<Rightarrow> trace_entry list" where
  "skipped r rls = map (\<lambda>rl. mk_trace (rl_id rl) False (snd (matches rl r))) (takeWhile (\<lambda>rl. \<not> selects rl r) rls)"

lemma skipped_unmatched: "e \<in> set (skipped r rls) \<Longrightarrow> \<not> te_matched e"
  by (auto simp: skipped_def mk_trace_def)

lemma eval_rules_spec:
  "eval_rules p r tr rls =
     (case find_first (\<lambda>rl. selects rl r) rls of
        None \<Rightarrow> deny_default RuleNoMatch ''no rule matched'' (tr @ skipped r rls)
      | Some rl \<Rightarrow> decide_rule p r rl (tr @ skipped r rls @ [mk_trace (rl_id rl) True NoteMatched]))"
proof (induction rls arbitrary: tr)
  case Nil
  then show ?case by (simp add: skipped_def)
next
  case (Cons rl rls)
  obtain ok n where m: "matches rl r = (ok, n)" by (cases "matches rl r")
  have sel: "selects rl r \<longleftrightarrow> ok" using matches_selects [of rl r] m by simp
  show ?case
  proof (cases ok)
    case True
    then have "n = NoteMatched" using matches_True_note m by simp
    then show ?thesis using True sel m by (simp add: skipped_def)
  next
    case False
    then have "skipped r (rl # rls) = mk_trace (rl_id rl) False n # skipped r rls"
      using sel m by (simp add: skipped_def)
    then show ?thesis using False sel m Cons.IH [of "tr @ [mk_trace (rl_id rl) False n]"]
      by (simp split: option.split del: find_first_None)
  qed
qed

lemma verdict_deny_default [simp]: "verdict_of (deny_default i reason tr) = (Deny, i, reason, [], None)"
  by (simp add: verdict_of_def deny_default_def)

lemma verdict_decide_rule: "verdict_of (decide_rule p r rl tr) = verdict_of (decide_rule p r rl tr')"
  by (simp add: verdict_of_def decide_rule_def Let_def)

lemma Evaluate_Some:
  "Evaluate (Some p) r =
     (if refuses_unknown p r then deny_default RuleUnknownTarget (unknown_reason (unknownTargets (rq_targets r))) []
      else if devices_full p r then
        deny_default RuleMaxDevices
          (devices_reason (devices_total r) (sl_max_devices (df_session (po_defaults p))))
          (if unknownTargets (rq_targets r) \<noteq> []
           then [mk_trace RuleUnknownTarget False (NoteUnknownAllowed (unknownTargets (rq_targets r)) (rq_class r))]
           else [])
      else eval_rules p r
          ((if unknownTargets (rq_targets r) \<noteq> []
            then [mk_trace RuleUnknownTarget False (NoteUnknownAllowed (unknownTargets (rq_targets r)) (rq_class r))]
            else [])
           @ (if 0 < sl_max_devices (df_session (po_defaults p))
              then [mk_trace RuleMaxDevices False
                      (NoteDevices (devices_total r) (sl_max_devices (df_session (po_defaults p))))]
              else []))
          (po_rules p))"
proof -
  have "refuses_unknown p r \<longleftrightarrow> unknownTargets (rq_targets r) \<noteq> [] \<and> df_unknown_target (po_defaults p) \<noteq> Allow"
    by (auto simp: refuses_unknown_def unknownTargets_Nil)
  then show ?thesis by (simp add: Evaluate_def Let_def devices_full_def)
qed

section \<open>Properties\<close>

text \<open>The specification of a decision.\<close>

definition policy_spec ::
  "policy option \<Rightarrow> request \<Rightarrow> effect \<times> string \<times> string \<times> string list \<times> approval option" where
  "policy_spec po r =
     (case po of
        None \<Rightarrow> (Deny, RuleNoMatch, ''no policy loaded'', [], None)
      | Some p \<Rightarrow>
          if refuses_unknown p r then
            (Deny, RuleUnknownTarget, unknown_reason (unknownTargets (rq_targets r)), [], None)
          else if devices_full p r then
            (Deny, RuleMaxDevices,
             devices_reason (devices_total r) (sl_max_devices (df_session (po_defaults p))), [], None)
          else (case find_first (\<lambda>rl. selects rl r) (po_rules p) of
              None \<Rightarrow> (Deny, RuleNoMatch, ''no rule matched'', [], None)
            | Some rl \<Rightarrow>
                if rl_effect rl = Hold \<and> pending_full p r then
                  (Deny, RuleMaxPending,
                   ''rule '' @ rl_id rl @ '' would hold but '' @ int_text (se_pending_holds (rq_session r))
                     @ '' holds are already pending, cap is ''
                     @ int_text (sl_max_pending (df_session (po_defaults p))),
                   rl_obligations rl, None)
                else (rl_effect rl, rl_id rl, rl_reason rl, rl_obligations rl, rl_approval rl)))"

lemma Evaluate_policy_spec: "verdict_of (Evaluate po r) = policy_spec po r"
proof (cases po)
  case None
  then show ?thesis by (simp add: Evaluate_def policy_spec_def)
next
  case (Some p)
  have rule: "verdict_of (decide_rule p r rl tr) =
      (if rl_effect rl = Hold \<and> pending_full p r then
         (Deny, RuleMaxPending,
          ''rule '' @ rl_id rl @ '' would hold but '' @ int_text (se_pending_holds (rq_session r))
            @ '' holds are already pending, cap is ''
            @ int_text (sl_max_pending (df_session (po_defaults p))), rl_obligations rl, None)
       else (rl_effect rl, rl_id rl, rl_reason rl, rl_obligations rl, rl_approval rl))" for rl tr
    by (simp add: decide_rule_def verdict_of_def Let_def pending_full_def)
  have rules: "verdict_of (eval_rules p r tr (po_rules p)) =
      (case find_first (\<lambda>rl. selects rl r) (po_rules p) of
         None \<Rightarrow> (Deny, RuleNoMatch, ''no rule matched'', [], None)
       | Some rl \<Rightarrow> verdict_of (decide_rule p r rl []))" for tr
    unfolding eval_rules_spec by (auto intro: verdict_decide_rule split: option.split simp del: find_first_None)
  show ?thesis unfolding Some Evaluate_Some policy_spec_def option.case
    by (simp only: if_distrib [of verdict_of] verdict_deny_default rules rule)
qed

lemma Evaluate_allow:
  assumes "dc_effect (Evaluate po r) = Allow"
  obtains p rl where "po = Some p" "\<not> refuses_unknown p r" "\<not> devices_full p r"
    "find_first (\<lambda>rl. selects rl r) (po_rules p) = Some rl" "rl_effect rl = Allow"
    "dc_rule_id (Evaluate po r) = rl_id rl" "dc_obligations (Evaluate po r) = rl_obligations rl"
proof -
  have v: "fst (verdict_of (Evaluate po r)) = Allow" using assms by (simp add: verdict_of_def)
  then obtain p where p: "po = Some p" by (cases po) (auto simp: Evaluate_def)
  have u: "\<not> refuses_unknown p r" and d: "\<not> devices_full p r"
    using v unfolding Evaluate_policy_spec policy_spec_def p by (auto split: if_splits)
  obtain rl where rl: "find_first (\<lambda>rl. selects rl r) (po_rules p) = Some rl" and a: "rl_effect rl = Allow"
      and e: "verdict_of (Evaluate po r) = (rl_effect rl, rl_id rl, rl_reason rl, rl_obligations rl, rl_approval rl)"
    using v u d unfolding Evaluate_policy_spec policy_spec_def p by (auto split: option.splits if_splits)
  show thesis using that [OF p u d rl a] e by (simp add: verdict_of_def)
qed

text \<open>Property C8 (refinement). \<open>Evaluate\<close> implements first match with fail-closed defaults: a request with an
  unknown target is denied unless unknown targets are allowed; one that would pass the device cap
  is denied; otherwise the first rule of the file that selects the request decides, with its
  effect, reason, obligations and approval, except that a hold beyond the pending cap is denied;
  and a request no rule selects is denied, as is every request without a policy.\<close>

theorem Evaluate_first_match: "verdict_of (Evaluate po r) = policy_spec po r"
  by (rule Evaluate_policy_spec)

text \<open>Property C9 (safety). An allow is always one rule's: the policy exists, the rule selects the request, has
  effect allow and is the first of the file that does; its obligations are on the decision; every
  target is known unless unknown targets are allowed; and, short of an overflow of the counter,
  the session stays within its device cap.\<close>

theorem Evaluate_allow_sound:
  assumes "dc_effect (Evaluate po r) = Allow"
  shows "\<exists>p pre rl post. po = Some p \<and> po_rules p = pre @ rl # post \<and> selects rl r \<and> rl_effect rl = Allow
    \<and> (\<forall>q \<in> set pre. \<not> selects q r) \<and> dc_rule_id (Evaluate po r) = rl_id rl
    \<and> dc_obligations (Evaluate po r) = rl_obligations rl
    \<and> (df_unknown_target (po_defaults p) \<noteq> Allow \<longrightarrow> (\<forall>t \<in> set (rq_targets r). tg_known t))
    \<and> (0 < sl_max_devices (df_session (po_defaults p)) \<and> 0 \<le> se_devices_touched (rq_session r)
        \<and> se_devices_touched (rq_session r) + int (length (rq_targets r)) < 2 ^ 63
       \<longrightarrow> se_devices_touched (rq_session r) + int (length (rq_targets r))
             \<le> sl_max_devices (df_session (po_defaults p)))"
proof -
  obtain p rl where p: "po = Some p" and u: "\<not> refuses_unknown p r" and d: "\<not> devices_full p r"
      and rl: "find_first (\<lambda>rl. selects rl r) (po_rules p) = Some rl" and a: "rl_effect rl = Allow"
      and e: "dc_rule_id (Evaluate po r) = rl_id rl" "dc_obligations (Evaluate po r) = rl_obligations rl"
    using Evaluate_allow [OF assms] .
  obtain pre post where "po_rules p = pre @ rl # post" "selects rl r" "\<forall>q \<in> set pre. \<not> selects q r"
    using rl by (auto simp: find_first_Some)
  moreover have "df_unknown_target (po_defaults p) \<noteq> Allow \<longrightarrow> (\<forall>t \<in> set (rq_targets r). tg_known t)"
    using u by (auto simp: refuses_unknown_def)
  moreover have "0 < sl_max_devices (df_session (po_defaults p)) \<and> 0 \<le> se_devices_touched (rq_session r)
        \<and> se_devices_touched (rq_session r) + int (length (rq_targets r)) < 2 ^ 63
       \<longrightarrow> se_devices_touched (rq_session r) + int (length (rq_targets r))
             \<le> sl_max_devices (df_session (po_defaults p))"
    using d by (auto simp: devices_full_def devices_total_def)
  ultimately show ?thesis using p a e by blast
qed

definition demo_rule :: rule where
  "demo_rule = \<lparr>rl_id = ''lab-reads'', rl_match = \<lparr>m_class = [ReadOperational], m_device_roles = [''lab''],
     m_device_tags = [], m_tools = [''get_*''], m_servers = []\<rparr>, rl_when = None, rl_effect = Allow,
     rl_reason = [], rl_obligations = [''redact''], rl_approval = None\<rparr>"

definition demo_policy :: policy where
  "demo_policy = \<lparr>po_version = 1,
     po_defaults = \<lparr>df_unknown_target = Deny, df_session = \<lparr>sl_max_devices = 3, sl_max_pending = 0\<rparr>\<rparr>,
     po_rules = [demo_rule\<lparr>rl_id := ''no-writes'', rl_match := (rl_match demo_rule)\<lparr>m_class := [WriteConfig]\<rparr>,
       rl_effect := Deny\<rparr>, demo_rule]\<rparr>"

definition demo_request :: request where
  "demo_request = \<lparr>rq_server = ''ssh'', rq_tool = ''ssh.get_facts'', rq_class = ReadOperational,
     rq_targets = [\<lparr>tg_name = ''leaf1'', tg_role = ''lab'', tg_tags = [], tg_site = [], tg_known = True\<rparr>],
     rq_session = \<lparr>se_devices_touched = 2, se_pending_holds = 0\<rparr>\<rparr>"

theorem Evaluate_allow_sound_witness:
  "dc_effect (Evaluate (Some demo_policy) demo_request) = Allow
   \<and> dc_rule_id (Evaluate (Some demo_policy) demo_request) = ''lab-reads''
   \<and> (\<exists>rl. selects rl demo_request \<and> rl_effect rl = Allow)"
proof -
  have h: "dc_effect (Evaluate (Some demo_policy) demo_request) = Allow"
      "dc_rule_id (Evaluate (Some demo_policy) demo_request) = ''lab-reads''" by code_simp+
  show ?thesis using h Evaluate_allow_sound [OF h(1)] by blast
qed

section \<open>The trace\<close>

definition explained :: "decision \<Rightarrow> bool" where
  "explained d \<longleftrightarrow> (\<exists>tr e. dc_trace d = tr @ [e] \<and> te_matched e \<and> te_rule_id e = dc_rule_id d
     \<and> length (filter te_matched tr) \<le> (if dc_rule_id d = RuleMaxPending then 1 else 0))"

lemma explained_deny: "\<forall>e \<in> set tr. \<not> te_matched e \<Longrightarrow> explained (deny_default i reason tr)"
  by (simp add: explained_def deny_default_def mk_trace_def filter_empty_conv [THEN iffD2])

lemma explained_rules:
  assumes "\<forall>e \<in> set tr. \<not> te_matched e" shows "explained (eval_rules p r tr rls)"
proof -
  have un: "\<forall>e \<in> set (tr @ skipped r rls). \<not> te_matched e" using assms skipped_unmatched by auto
  then have f: "filter te_matched tr = []" "filter te_matched (skipped r rls) = []"
    by (simp_all add: filter_empty_conv)
  show ?thesis
  proof (cases "find_first (\<lambda>rl. selects rl r) rls")
    case None
    then show ?thesis using explained_deny [OF un] by (simp add: eval_rules_spec del: find_first_None)
  next
    case (Some rl)
    then show ?thesis by (simp add: explained_def eval_rules_spec decide_rule_def Let_def mk_trace_def f)
  qed
qed

text \<open>Property C28 (functional). The trace explains the decision: its last entry is a matched entry for the rule id
  the decision carries, and no earlier entry is matched, except the rule that would have held when
  the pending cap denied instead.\<close>

theorem Evaluate_trace:
  "\<exists>tr e. dc_trace (Evaluate po r) = tr @ [e] \<and> te_matched e \<and> te_rule_id e = dc_rule_id (Evaluate po r)
     \<and> length (filter te_matched tr) \<le> (if dc_rule_id (Evaluate po r) = RuleMaxPending then 1 else 0)"
proof -
  have "explained (Evaluate po r)"
  proof (cases po)
    case None
    then show ?thesis by (simp add: Evaluate_def explained_deny)
  next
    case (Some p)
    show ?thesis unfolding Some Evaluate_Some
      by (auto intro!: explained_deny explained_rules simp: mk_trace_def)
  qed
  then show ?thesis by (simp only: explained_def)
qed

end
