(* ===== verification/Policy_Load.thy ===== *)
theory Policy_Load
  imports Policy_Evaluate
begin

text \<open>
  \<^verbatim>\<open>internal/policy/load.go\<close>: the checks a policy file must pass, what \<open>Parse\<close> fills in, and the
  lookup of a rule by id. Decoding the YAML is not modelled: \<open>policy_parse\<close> starts from the
  decoded record.
\<close>

datatype policy_error =
    UnsupportedVersion int
  | BadUnknownTarget effect
  | UnknownTargetHold
  | NegativeLimits
  | RulesEmpty
  | DuplicateRule string
  | RuleWithoutID
  | ReservedPrefix string
  | BadEffect string effect
  | BadClass string cls
  | BadGlob string string
  | UnknownObligation string string
  | ApprovalNotHold string
  | NegativeTTL string
  | NoBound string
  | NeverMatches string int int

definition default_prefix :: string where [rule_defs]: "default_prefix = ''default:''"

text \<open>\<open>Rule.validate\<close>.\<close>

definition validate_when :: "rule \<Rightarrow> policy_error option" where
  "validate_when r =
     (case rl_when r of
        None \<Rightarrow> None
      | Some w \<Rightarrow>
          (case wh_targets_count w of
             None \<Rightarrow> None
           | Some tc \<Rightarrow>
               if range_empty (Some tc) then Some (NoBound (rl_id r))
               else (case (rg_gt tc, rg_lt tc) of
                       (Some g, Some l) \<Rightarrow> if l \<le> g then Some (NeverMatches (rl_id r) g l) else None
                     | _ \<Rightarrow> None)))"

definition validate_approval :: "rule \<Rightarrow> policy_error option" where
  "validate_approval r =
     (case rl_approval r of
        None \<Rightarrow> None
      | Some a \<Rightarrow> if rl_effect r \<noteq> Hold then Some (ApprovalNotHold (rl_id r))
                  else if ap_ttl a < 0 then Some (NegativeTTL (rl_id r)) else None)"

definition rule_validate :: "rule \<Rightarrow> policy_error option" where
  "rule_validate r =
     (if trim_space (rl_id r) = [] then Some RuleWithoutID
      else if has_prefix (rl_id r) default_prefix then Some (ReservedPrefix (rl_id r))
      else if \<not> effect_valid (rl_effect r) then Some (BadEffect (rl_id r) (rl_effect r))
      else case find_first (\<lambda>c. \<not> class_valid c) (m_class (rl_match r)) of
        Some c \<Rightarrow> Some (BadClass (rl_id r) c)
      | None \<Rightarrow>
          (case find_first (\<lambda>g. path_match g [] = Inl ErrBadPattern)
                  (m_tools (rl_match r) @ m_servers (rl_match r)) of
             Some g \<Rightarrow> Some (BadGlob (rl_id r) g)
           | None \<Rightarrow>
               (case find_first (\<lambda>ob. ob \<notin> set KnownObligations) (rl_obligations r) of
                  Some ob \<Rightarrow> Some (UnknownObligation (rl_id r) ob)
                | None \<Rightarrow>
                    (case validate_approval r of
                       Some e \<Rightarrow> Some e
                     | None \<Rightarrow> validate_when r))))"

fun validate_rules :: "string set \<Rightarrow> rule list \<Rightarrow> policy_error option" where
  "validate_rules seen [] = None"
| "validate_rules seen (r # rs) =
     (case rule_validate r of
        Some e \<Rightarrow> Some e
      | None \<Rightarrow> if rl_id r \<in> seen then Some (DuplicateRule (rl_id r))
                else validate_rules (insert (rl_id r) seen) rs)"

definition policy_validate :: "policy \<Rightarrow> policy_error option" where
  "policy_validate p =
     (let u = df_unknown_target (po_defaults p); sl = df_session (po_defaults p) in
      if po_version p \<noteq> 1 then Some (UnsupportedVersion (po_version p))
      else if u \<noteq> [] \<and> \<not> effect_valid u then Some (BadUnknownTarget u)
      else if u = Hold then Some UnknownTargetHold
      else if sl_max_devices sl < 0 \<or> sl_max_pending sl < 0 then Some NegativeLimits
      else if po_rules p = [] then Some RulesEmpty
      else validate_rules {} (po_rules p))"

text \<open>\<open>Parse\<close> after decoding: validate, then spell out the default of \<open>unknown_target\<close>.\<close>

definition policy_parse :: "policy \<Rightarrow> policy_error + policy" where
  "policy_parse p =
     (case policy_validate p of
        Some e \<Rightarrow> Inl e
      | None \<Rightarrow>
          Inr (if df_unknown_target (po_defaults p) = []
               then p\<lparr>po_defaults := (po_defaults p)\<lparr>df_unknown_target := Deny\<rparr>\<rparr> else p))"

text \<open>\<open>Policy.Rule\<close>.\<close>

definition policy_rule :: "policy \<Rightarrow> string \<Rightarrow> rule option" where
  "policy_rule p i = find_first (\<lambda>r. rl_id r = i) (po_rules p)"

section \<open>What a loaded policy guarantees\<close>

definition rule_ok :: "rule \<Rightarrow> bool" where
  "rule_ok r \<longleftrightarrow> trim_space (rl_id r) \<noteq> [] \<and> \<not> prefix default_prefix (rl_id r)
     \<and> effect_valid (rl_effect r) \<and> (\<forall>c \<in> set (m_class (rl_match r)). class_valid c)
     \<and> (\<forall>g \<in> set (m_tools (rl_match r)) \<union> set (m_servers (rl_match r)). path_match g [] \<noteq> Inl ErrBadPattern)
     \<and> set (rl_obligations r) \<subseteq> set KnownObligations
     \<and> (rl_approval r \<noteq> None \<longrightarrow> rl_effect r = Hold)
     \<and> (\<forall>w tc. rl_when r = Some w \<and> wh_targets_count w = Some tc \<longrightarrow> \<not> range_empty (Some tc))"

lemma rule_validate_None:
  assumes "rule_validate r = None" shows "rule_ok r"
proof -
  have c: "find_first (\<lambda>c. \<not> class_valid c) (m_class (rl_match r)) = None"
      and g: "find_first (\<lambda>g. path_match g [] = Inl ErrBadPattern)
                (m_tools (rl_match r) @ m_servers (rl_match r)) = None"
      and ob: "find_first (\<lambda>ob. ob \<notin> set KnownObligations) (rl_obligations r) = None"
      and a: "validate_approval r = None" and w: "validate_when r = None"
    using assms by (simp_all add: rule_validate_def del: find_first_None split: if_splits option.splits)
  have "trim_space (rl_id r) \<noteq> []" "\<not> prefix default_prefix (rl_id r)" "effect_valid (rl_effect r)"
    using assms by (auto simp: rule_validate_def split: if_splits)
  moreover have "rl_approval r \<noteq> None \<longrightarrow> rl_effect r = Hold"
    using a by (auto simp: validate_approval_def split: option.splits if_splits)
  moreover have "\<forall>w tc. rl_when r = Some w \<and> wh_targets_count w = Some tc \<longrightarrow> \<not> range_empty (Some tc)"
    using w by (auto simp: validate_when_def split: if_splits)
  ultimately show ?thesis using c g ob by (auto simp: rule_ok_def)
qed

lemma validate_rules_None:
  "validate_rules seen rs = None \<Longrightarrow>
     (\<forall>r \<in> set rs. rule_ok r) \<and> distinct (map rl_id rs) \<and> rl_id ` set rs \<inter> seen = {}"
proof (induction rs arbitrary: seen)
  case (Cons r rs)
  then have "rule_validate r = None" "rl_id r \<notin> seen" "validate_rules (insert (rl_id r) seen) rs = None"
    by (auto split: option.splits if_splits)
  with Cons.IH [OF this(3)] rule_validate_None show ?case by auto
qed simp

lemma policy_parse_rules:
  assumes "policy_parse q = Inr p"
  shows "po_rules p = po_rules q \<and> (\<forall>r \<in> set (po_rules p). rule_ok r) \<and> distinct (map rl_id (po_rules p))"
proof -
  have v: "policy_validate q = None" and p: "po_rules p = po_rules q"
    using assms by (auto simp: policy_parse_def split: option.splits)
  have "validate_rules {} (po_rules q) = None"
    using v by (auto simp: policy_validate_def Let_def split: if_splits)
  then show ?thesis using validate_rules_None p by simp
qed

text \<open>Property C27 (invariant). A policy that \<open>Parse\<close> accepts has version 1, unknown targets set to allow or deny
  or a spelling that denies, caps that are not negative, and at least one rule; rule ids are
  distinct, not blank and outside the reserved \<open>default:\<close> prefix; effects, classes, globs and
  obligations are valid, an approval stands only on a hold, and no count range is empty.\<close>

theorem policy_parse_ok:
  assumes "policy_parse q = Inr p"
  shows "po_version p = 1 \<and> po_rules p \<noteq> [] \<and> distinct (map rl_id (po_rules p))
    \<and> (\<forall>r \<in> set (po_rules p). rule_ok r)
    \<and> df_unknown_target (po_defaults p) \<noteq> [] \<and> df_unknown_target (po_defaults p) \<noteq> Hold
    \<and> 0 \<le> sl_max_devices (df_session (po_defaults p)) \<and> 0 \<le> sl_max_pending (df_session (po_defaults p))
    \<and> po_rules p = po_rules q"
proof -
  have v: "policy_validate q = None"
      and p: "p = (if df_unknown_target (po_defaults q) = []
               then q\<lparr>po_defaults := (po_defaults q)\<lparr>df_unknown_target := Deny\<rparr>\<rparr> else q)"
    using assms by (auto simp: policy_parse_def split: option.splits)
  have ne: "po_rules q \<noteq> []" "po_version q = 1"
      and h: "df_unknown_target (po_defaults q) \<noteq> Hold"
      and l: "0 \<le> sl_max_devices (df_session (po_defaults q))" "0 \<le> sl_max_pending (df_session (po_defaults q))"
    using v by (auto simp: policy_validate_def Let_def split: if_splits)
  have "po_version p = 1" "df_unknown_target (po_defaults p) \<noteq> []" "df_unknown_target (po_defaults p) \<noteq> Hold"
      "df_session (po_defaults p) = df_session (po_defaults q)"
    using ne h p by (simp_all add: rule_defs)
  then show ?thesis using policy_parse_rules [OF assms] ne l by metis
qed

definition demo_hold_rule :: rule where
  "demo_hold_rule = \<lparr>rl_id = ''writes'', rl_match = \<lparr>m_class = [WriteConfig], m_device_roles = [],
     m_device_tags = [], m_tools = [], m_servers = []\<rparr>,
     rl_when = Some \<lparr>wh_targets_count = Some \<lparr>rg_gt = None, rg_gte = None, rg_lt = None, rg_lte = Some 2, rg_eq = None\<rparr>\<rparr>,
     rl_effect = Hold, rl_reason = [], rl_obligations = [''diff''],
     rl_approval = Some \<lparr>ap_ttl = 900, ap_approver_must_differ = True\<rparr>\<rparr>"

definition demo_file :: policy where
  "demo_file = \<lparr>po_version = 1,
     po_defaults = \<lparr>df_unknown_target = [], df_session = \<lparr>sl_max_devices = 3, sl_max_pending = 1\<rparr>\<rparr>,
     po_rules = [demo_rule, demo_hold_rule]\<rparr>"

definition demo_loaded :: policy where
  "demo_loaded = demo_file\<lparr>po_defaults := (po_defaults demo_file)\<lparr>df_unknown_target := Deny\<rparr>\<rparr>"

lemma demo_file_parses: "policy_parse demo_file = Inr demo_loaded"
proof -
  have "policy_validate demo_file = None" by code_simp
  then show ?thesis by (simp add: policy_parse_def demo_loaded_def demo_file_def)
qed

theorem policy_parse_ok_witness: "distinct (map rl_id (po_rules demo_loaded)) \<and> rule_ok demo_hold_rule"
  using policy_parse_ok [OF demo_file_parses] by (simp add: demo_loaded_def demo_file_def)

text \<open>With a loaded policy the rule id of a decision identifies what decided: it is one of
  the four default ids exactly when no rule of the file has that id, and otherwise \<open>Policy.Rule\<close>
  returns the rule that decided, whose effect the decision carries.\<close>

theorem decision_rule_lookup:
  fixes r :: request
  assumes "policy_parse q = Inr p"
  defines "d \<equiv> Evaluate (Some p) r"
  shows "(prefix default_prefix (dc_rule_id d) \<longrightarrow> policy_rule p (dc_rule_id d) = None \<and> dc_effect d = Deny)
    \<and> (\<not> prefix default_prefix (dc_rule_id d) \<longrightarrow>
        (\<exists>rl \<in> set (po_rules p). policy_rule p (dc_rule_id d) = Some rl \<and> selects rl r
           \<and> dc_effect d = rl_effect rl \<and> dc_reason d = rl_reason rl))"
proof -
  have ok: "\<And>rl. rl \<in> set (po_rules p) \<Longrightarrow> rule_ok rl" and dis: "distinct (map rl_id (po_rules p))"
    using policy_parse_rules [OF assms(1)] by auto
  have default: "policy_rule p i = None" if "prefix default_prefix i" for i
    using ok that by (auto simp: policy_rule_def rule_ok_def)
  have ids: "prefix default_prefix RuleUnknownTarget" "prefix default_prefix RuleMaxDevices"
      "prefix default_prefix RuleMaxPending" "prefix default_prefix RuleNoMatch"
    by (simp_all add: rule_defs)
  have look: "policy_rule p (rl_id rl) = Some rl" if "rl \<in> set (po_rules p)" for rl
  proof -
    have "\<exists>x. policy_rule p (rl_id rl) = Some x" using that
      by (metis (mono_tags) find_first_None policy_rule_def not_None_eq)
    then obtain x where x: "policy_rule p (rl_id rl) = Some x" by blast
    then have "x \<in> set (po_rules p)" "rl_id x = rl_id rl" using find_first_SomeD by (fastforce simp: policy_rule_def)+
    then show ?thesis using x that dis by (metis distinct_map inj_onD)
  qed
  have v: "(dc_effect d, dc_rule_id d, dc_reason d) =
      (let v = verdict_of d in (fst v, fst (snd v), fst (snd (snd v))))"
    by (simp add: verdict_of_def)
  consider "prefix default_prefix (dc_rule_id d)" "dc_effect d = Deny"
    | rl where "find_first (\<lambda>rl. selects rl r) (po_rules p) = Some rl" "dc_rule_id d = rl_id rl"
        "dc_effect d = rl_effect rl" "dc_reason d = rl_reason rl"
    using v ids unfolding d_def Evaluate_policy_spec policy_spec_def option.case
    by (cases "find_first (\<lambda>rl. selects rl r) (po_rules p)") (auto split: if_splits simp del: find_first_None)
  then show ?thesis
  proof cases
    case 1
    then show ?thesis using default by simp
  next
    case 2
    then have m: "rl \<in> set (po_rules p)" "selects rl r" using find_first_SomeD by fastforce+
    then show ?thesis using 2 ok look by (auto simp: rule_ok_def)
  qed
qed

theorem decision_rule_lookup_witness:
  "policy_rule demo_loaded (dc_rule_id (Evaluate (Some demo_loaded) demo_request)) = Some demo_rule
   \<and> policy_rule demo_loaded (dc_rule_id (Evaluate (Some demo_loaded) (demo_request\<lparr>rq_class := LocalAdmin\<rparr>))) = None"
proof -
  have 1: "dc_rule_id (Evaluate (Some demo_loaded) demo_request) = ''lab-reads''" by code_simp
  have 2: "dc_rule_id (Evaluate (Some demo_loaded) (demo_request\<lparr>rq_class := LocalAdmin\<rparr>)) = RuleNoMatch" by code_simp
  have "prefix default_prefix RuleNoMatch" by (simp add: rule_defs)
  then have "policy_rule demo_loaded RuleNoMatch = None"
    using decision_rule_lookup [OF demo_file_parses, of "demo_request\<lparr>rq_class := LocalAdmin\<rparr>"] 2 by simp
  moreover have "policy_rule demo_loaded ''lab-reads'' = Some demo_rule"
    by (simp add: policy_rule_def demo_loaded_def demo_file_def demo_rule_def)
  ultimately show ?thesis using 1 2 by simp
qed

end
