(* ===== verification/Proxy_Calls.thy ===== *)
theory Proxy_Calls
  imports Go_Strings "HOL-Library.AList" "HOL-Library.Multiset"
begin

text \<open>
  \<^verbatim>\<open>internal/proxy/calls.go\<close>: admission and cancellation of the tool calls in flight over the HTTP
  listener. Pointers are numbers: an agent session is a number or \<open>None\<close> (nil), a
  \<^verbatim>\<open>sessionCalls\<close> object and an admitted call have addresses handed out by a counter, and the map
  \<^verbatim>\<open>sessions\<close> holds addresses, so that the release function's test \<^verbatim>\<open>l.sessions[ss] == sc\<close> compares
  addresses as the code does. Every operation runs under the one lock \<^verbatim>\<open>mu\<close>, so each is one step. The
  session id of a session is go-sdk's, a parameter. The goroutines of \<^verbatim>\<open>track\<close> and \<^verbatim>\<open>wait\<close> are not
  modelled.
\<close>

section \<open>State\<close>

type_synonym session = "nat option"

record session_calls =
  sc_principal :: string
  sc_calls :: "nat list"

record call_limits =
  cl_per_session :: int
  cl_per_principal :: int
  cl_closed :: bool
  cl_sessions :: "(session, nat) gomap"
  cl_objects :: "nat \<Rightarrow> session_calls"
  cl_principals :: "(string, int) gomap"
  cl_retired :: "nat list"
  cl_cancelled :: "nat list"
  cl_released :: "nat list"
  cl_next :: nat

text \<open>What the release function of an admitted call closes over.\<close>

record handle =
  hd_call :: nat
  hd_object :: nat
  hd_session :: session
  hd_principal :: string

datatype refusal = ShuttingDown | SessionRetired | SessionFull nat int | PrincipalFull int string int

definition newCallLimits :: "int \<Rightarrow> int \<Rightarrow> call_limits" where
  "newCallLimits perSession perPrincipal =
     \<lparr>cl_per_session = perSession, cl_per_principal = perPrincipal, cl_closed = False, cl_sessions = [],
      cl_objects = (\<lambda>_. \<lparr>sc_principal = [], sc_calls = []\<rparr>), cl_principals = [], cl_retired = [],
      cl_cancelled = [], cl_released = [], cl_next = 0\<rparr>"

section \<open>Operations\<close>

fun isRetired :: "call_limits \<Rightarrow> session \<Rightarrow> bool" where
  "isRetired l None = False"
| "isRetired l (Some s) = (s \<in> set (cl_retired l))"

definition principal_count :: "call_limits \<Rightarrow> string \<Rightarrow> int" where
  "principal_count l p = (case map_of (cl_principals l) p of None \<Rightarrow> 0 | Some n \<Rightarrow> n)"

text \<open>The calls in flight on a session: none when it has no entry.\<close>

definition session_load :: "call_limits \<Rightarrow> session \<Rightarrow> nat list" where
  "session_load l ss = (case map_of (cl_sessions l) ss of None \<Rightarrow> [] | Some ob \<Rightarrow> sc_calls (cl_objects l ob))"

definition admit_refusal :: "call_limits \<Rightarrow> string \<Rightarrow> session \<Rightarrow> refusal option" where
  "admit_refusal l who ss =
     (if cl_closed l then Some ShuttingDown
      else if isRetired l ss then Some SessionRetired
      else if map_of (cl_sessions l) ss \<noteq> None \<and> cl_per_session l \<le> int (length (session_load l ss))
        then Some (SessionFull (length (session_load l ss)) (cl_per_session l))
      else if cl_per_principal l \<le> principal_count l who
        then Some (PrincipalFull (principal_count l who) who (cl_per_principal l))
      else None)"

text \<open>\<open>sc == nil\<close>: a new object for the session.\<close>

definition session_object :: "call_limits \<Rightarrow> string \<Rightarrow> session \<Rightarrow> nat \<times> call_limits" where
  "session_object l who ss =
     (case map_of (cl_sessions l) ss of
        Some ob \<Rightarrow> (ob, l)
      | None \<Rightarrow>
          (cl_next l,
           l\<lparr>cl_sessions := AList.update ss (cl_next l) (cl_sessions l),
             cl_objects := (cl_objects l)(cl_next l := \<lparr>sc_principal = who, sc_calls = []\<rparr>),
             cl_next := Suc (cl_next l)\<rparr>))"

definition admit :: "call_limits \<Rightarrow> string \<Rightarrow> session \<Rightarrow> refusal + handle \<times> call_limits" where
  "admit l who ss =
     (case admit_refusal l who ss of
        Some r \<Rightarrow> Inl r
      | None \<Rightarrow>
          (case session_object l who ss of (ob, l1) \<Rightarrow>
             (let a = cl_next l1; sc = cl_objects l1 ob in
              Inr (\<lparr>hd_call = a, hd_object = ob, hd_session = ss, hd_principal = who\<rparr>,
                   l1\<lparr>cl_objects := (cl_objects l1)(ob := sc\<lparr>sc_calls := a # sc_calls sc\<rparr>),
                      cl_principals := AList.update who (principal_count l1 who + 1) (cl_principals l1),
                      cl_next := Suc a\<rparr>))))"

text \<open>The release function; \<open>sync.Once\<close> makes a second run do nothing.\<close>

definition release :: "call_limits \<Rightarrow> handle \<Rightarrow> call_limits" where
  "release l h =
     (if hd_call h \<in> set (cl_released l) then l
      else
        (let ob = hd_object h; sc = cl_objects l ob; calls = remove1 (hd_call h) (sc_calls sc);
             n = principal_count l (hd_principal h) - 1
         in l\<lparr>cl_released := hd_call h # cl_released l,
              cl_cancelled := hd_call h # cl_cancelled l,
              cl_objects := (cl_objects l)(ob := sc\<lparr>sc_calls := calls\<rparr>),
              cl_sessions := (if calls = [] \<and> map_of (cl_sessions l) (hd_session h) = Some ob
                              then AList.delete (hd_session h) (cl_sessions l) else cl_sessions l),
              cl_principals := (if n \<le> 0 then AList.delete (hd_principal h) (cl_principals l)
                                else AList.update (hd_principal h) n (cl_principals l))\<rparr>))"

definition cancelSession :: "(nat \<Rightarrow> string) \<Rightarrow> call_limits \<Rightarrow> string \<Rightarrow> string \<Rightarrow> nat \<times> call_limits" where
  "cancelSession ID l sessionID who =
     (if sessionID = [] then (0, l)
      else
        (let hit = filter (\<lambda>(ss, ob). case ss of None \<Rightarrow> False
                     | Some s \<Rightarrow> ID s = sessionID \<and> sc_principal (cl_objects l ob) = who) (cl_sessions l);
             calls = concat (map (\<lambda>(ss, ob). sc_calls (cl_objects l ob)) hit)
         in (length calls, l\<lparr>cl_cancelled := calls @ cl_cancelled l\<rparr>)))"

definition busy :: "call_limits \<Rightarrow> session \<Rightarrow> bool" where
  "busy l ss \<longleftrightarrow> session_load l ss \<noteq> []"

fun retire_session :: "call_limits \<Rightarrow> session \<Rightarrow> call_limits" where
  "retire_session l None = l"
| "retire_session l (Some s) = l\<lparr>cl_retired := List.insert s (cl_retired l)\<rparr>"

definition claimIdle :: "call_limits \<Rightarrow> session \<Rightarrow> bool \<times> call_limits" where
  "claimIdle l ss = (if session_load l ss \<noteq> [] then (False, l) else (True, retire_session l ss))"

definition retire :: "call_limits \<Rightarrow> session \<Rightarrow> nat \<times> call_limits" where
  "retire l ss =
     (length (session_load l ss), (retire_session l ss)\<lparr>cl_cancelled := session_load l ss @ cl_cancelled l\<rparr>)"

fun forget :: "call_limits \<Rightarrow> session \<Rightarrow> call_limits" where
  "forget l None = l"
| "forget l (Some s) = l\<lparr>cl_retired := removeAll s (cl_retired l)\<rparr>"

definition close_limits :: "call_limits \<Rightarrow> call_limits" where
  "close_limits l =
     l\<lparr>cl_closed := True,
       cl_cancelled := concat (map (\<lambda>(ss, ob). sc_calls (cl_objects l ob)) (cl_sessions l)) @ cl_cancelled l\<rparr>"

definition inFlight :: "call_limits \<Rightarrow> int" where
  "inFlight l = sum_list (map snd (cl_principals l))"

text \<open>The text of a refusal, for the agent.\<close>

definition errSessionRetired :: string where
  "errSessionRetired = ''its agent session has been closed (evicted at the session cap or idle); start a new session and call again''"

fun refusal_reason :: "refusal \<Rightarrow> string" where
  "refusal_reason ShuttingDown = ''fathomgate is shutting down''"
| "refusal_reason SessionRetired = errSessionRetired"
| "refusal_reason (SessionFull n lim) = nat_text n @ '' calls are already in flight on this session (limit ''
     @ int_text lim @ ''); retry when one finishes''"
| "refusal_reason (PrincipalFull n p lim) = int_text n @ '' calls are already in flight for principal '' @ p
     @ '' (limit '' @ int_text lim @ ''); retry when one finishes''"

definition refusal_text :: "string \<Rightarrow> refusal \<Rightarrow> string" where
  "refusal_text tool r = ''fathomgate refused '' @ tool @ '': '' @ refusal_reason r"

section \<open>Runs\<close>

text \<open>A state of the listener: the limits, and the calls whose release function has not run, newest
  first. A step is one operation; a release function may run again after its call was released.\<close>

type_synonym calls_state = "call_limits \<times> handle list"

inductive calls_step :: "(nat \<Rightarrow> string) \<Rightarrow> calls_state \<Rightarrow> calls_state \<Rightarrow> bool" for ID :: "nat \<Rightarrow> string" where
  admitted: "admit l who ss = Inr (h, l') \<Longrightarrow> calls_step ID (l, hs) (l', h # hs)"
| released: "h \<in> set hs \<Longrightarrow> calls_step ID (l, hs) (release l h, remove1 h hs)"
| released_again: "hd_call h \<in> set (cl_released l) \<Longrightarrow> calls_step ID (l, hs) (release l h, hs)"
| cancelled: "calls_step ID (l, hs) (snd (cancelSession ID l sid who), hs)"
| claimed: "calls_step ID (l, hs) (snd (claimIdle l ss), hs)"
| retired: "calls_step ID (l, hs) (snd (retire l ss), hs)"
| forgotten: "calls_step ID (l, hs) (forget l ss, hs)"
| closing: "calls_step ID (l, hs) (close_limits l, hs)"

inductive_cases calls_stepE: "calls_step ID s t"

definition calls_on :: "handle list \<Rightarrow> session \<Rightarrow> handle list" where
  "calls_on hs ss = filter (\<lambda>h. hd_session h = ss) hs"

definition calls_of :: "handle list \<Rightarrow> string \<Rightarrow> handle list" where
  "calls_of hs p = filter (\<lambda>h. hd_principal h = p) hs"

definition wf_handles :: "calls_state \<Rightarrow> bool" where
  "wf_handles = (\<lambda>(l, hs). distinct (map hd_call hs)
     \<and> (\<forall>h \<in> set hs. hd_call h < cl_next l \<and> hd_call h \<notin> set (cl_released l))
     \<and> (\<forall>a \<in> set (cl_released l). a < cl_next l))"

definition entry_ok :: "call_limits \<Rightarrow> handle list \<Rightarrow> nat option \<Rightarrow> bool" where
  "entry_ok l hs e =
     (case e of
        None \<Rightarrow> hs = []
      | Some ob \<Rightarrow> hs \<noteq> [] \<and> ob < cl_next l \<and> (\<forall>h \<in> set hs. hd_object h = ob)
          \<and> sc_calls (cl_objects l ob) = map hd_call hs \<and> int (length hs) \<le> max 1 (cl_per_session l))"

definition wf_sessions :: "calls_state \<Rightarrow> bool" where
  "wf_sessions = (\<lambda>(l, hs). (\<forall>ss. entry_ok l (calls_on hs ss) (map_of (cl_sessions l) ss))
     \<and> (\<forall>ss ss' ob. map_of (cl_sessions l) ss = Some ob \<and> map_of (cl_sessions l) ss' = Some ob \<longrightarrow> ss = ss'))"

lemma wf_sessionsD:
  assumes "wf_sessions (l, hs)"
  shows "entry_ok l (calls_on hs ss) (map_of (cl_sessions l) ss)"
    "map_of (cl_sessions l) ss = Some ob \<Longrightarrow> map_of (cl_sessions l) ss' = Some ob \<Longrightarrow> ss = ss'"
  using assms unfolding wf_sessions_def prod.case by blast+

definition count_entry :: "handle list \<Rightarrow> int option" where
  "count_entry hs = (if hs = [] then None else Some (int (length hs)))"

definition wf_principals :: "calls_state \<Rightarrow> bool" where
  "wf_principals = (\<lambda>(l, hs). wf_map (cl_principals l)
     \<and> (\<forall>p. map_of (cl_principals l) p = count_entry (calls_of hs p)
          \<and> (calls_of hs p \<noteq> [] \<longrightarrow> int (length (calls_of hs p)) \<le> cl_per_principal l)))"

definition wf_cancelled :: "calls_state \<Rightarrow> bool" where
  "wf_cancelled = (\<lambda>(l, hs). \<forall>h \<in> set hs. cl_closed l \<or> isRetired l (hd_session h) \<longrightarrow> hd_call h \<in> set (cl_cancelled l))"

definition calls_inv :: "calls_state \<Rightarrow> bool" where
  "calls_inv s \<longleftrightarrow> wf_handles s \<and> wf_sessions s \<and> wf_principals s \<and> wf_cancelled s"

lemmas calls_wf_defs = wf_handles_def wf_sessions_def wf_principals_def wf_cancelled_def

lemma calls_on_Cons: "calls_on (h # hs) ss = (if hd_session h = ss then h # calls_on hs ss else calls_on hs ss)"
  by (simp add: calls_on_def)

lemma calls_of_Cons: "calls_of (h # hs) p = (if hd_principal h = p then h # calls_of hs p else calls_of hs p)"
  by (simp add: calls_of_def)

lemma calls_on_remove1: "calls_on (remove1 h hs) ss = (if hd_session h = ss then remove1 h (calls_on hs ss) else calls_on hs ss)"
  by (induction hs) (auto simp: calls_on_def)

lemma calls_of_remove1: "calls_of (remove1 h hs) p = (if hd_principal h = p then remove1 h (calls_of hs p) else calls_of hs p)"
  by (induction hs) (auto simp: calls_of_def)

lemma session_load_calls: "wf_sessions (l, hs) \<Longrightarrow> session_load l ss = map hd_call (calls_on hs ss)"
proof -
  assume "wf_sessions (l, hs)"
  then have "entry_ok l (calls_on hs ss) (map_of (cl_sessions l) ss)" by (simp add: wf_sessions_def)
  then show ?thesis by (auto simp: entry_ok_def session_load_def split: option.splits)
qed

lemma principal_count_calls: "wf_principals (l, hs) \<Longrightarrow> principal_count l p = int (length (calls_of hs p))"
  by (auto simp: wf_principals_def principal_count_def count_entry_def)

lemma map_remove1: "distinct (map f xs) \<Longrightarrow> x \<in> set xs \<Longrightarrow> remove1 (f x) (map f xs) = map f (remove1 x xs)"
proof (induction xs)
  case (Cons y ys)
  show ?case
  proof (cases "x = y")
    case False
    then have "f x \<in> f ` set ys" using Cons.prems by auto
    then have "f x \<noteq> f y" using Cons.prems by auto
    then show ?thesis using Cons False by simp
  qed simp
qed simp

section \<open>Preservation\<close>

lemma session_object_sel:
  "session_object l who ss = (ob, l1) \<Longrightarrow>
     cl_principals l1 = cl_principals l \<and> cl_retired l1 = cl_retired l \<and> cl_cancelled l1 = cl_cancelled l
     \<and> cl_released l1 = cl_released l \<and> cl_closed l1 = cl_closed l \<and> cl_per_session l1 = cl_per_session l
     \<and> cl_per_principal l1 = cl_per_principal l \<and> cl_next l \<le> cl_next l1"
  by (auto simp: session_object_def split: option.splits)

lemma isRetired_cong: "cl_retired l = cl_retired l' \<Longrightarrow> isRetired l ss = isRetired l' ss"
  by (cases ss) auto

lemma admit_InrE:
  assumes "admit l who ss = Inr (h, l')"
  obtains ob l1 where "admit_refusal l who ss = None" "session_object l who ss = (ob, l1)"
    "h = \<lparr>hd_call = cl_next l1, hd_object = ob, hd_session = ss, hd_principal = who\<rparr>"
    "l' = l1\<lparr>cl_objects := (cl_objects l1)(ob := (cl_objects l1 ob)\<lparr>sc_calls := cl_next l1 # sc_calls (cl_objects l1 ob)\<rparr>),
             cl_principals := AList.update who (principal_count l1 who + 1) (cl_principals l1), cl_next := Suc (cl_next l1)\<rparr>"
  using assms by (auto simp: admit_def Let_def split: option.splits prod.splits)

lemma admit_handles:
  assumes "wf_handles (l, hs)" "admit l who ss = Inr (h, l')"
  shows "wf_handles (l', h # hs)"
  using assms(2)
proof (rule admit_InrE)
  fix ob l1
  assume "session_object l who ss = (ob, l1)"
    and "h = \<lparr>hd_call = cl_next l1, hd_object = ob, hd_session = ss, hd_principal = who\<rparr>"
    and "l' = l1\<lparr>cl_objects := (cl_objects l1)(ob := (cl_objects l1 ob)\<lparr>sc_calls := cl_next l1 # sc_calls (cl_objects l1 ob)\<rparr>),
             cl_principals := AList.update who (principal_count l1 who + 1) (cl_principals l1), cl_next := Suc (cl_next l1)\<rparr>"
  then show ?thesis using assms(1) session_object_sel [of l who ss ob l1] by (force simp: wf_handles_def)
qed

lemma admit_principals:
  assumes "wf_principals (l, hs)" "admit l who ss = Inr (h, l')"
  shows "wf_principals (l', h # hs)"
  using assms(2)
proof (rule admit_InrE)
  fix ob l1
  assume r: "admit_refusal l who ss = None" and o: "session_object l who ss = (ob, l1)"
    and h: "h = \<lparr>hd_call = cl_next l1, hd_object = ob, hd_session = ss, hd_principal = who\<rparr>"
    and l': "l' = l1\<lparr>cl_objects := (cl_objects l1)(ob := (cl_objects l1 ob)\<lparr>sc_calls := cl_next l1 # sc_calls (cl_objects l1 ob)\<rparr>),
             cl_principals := AList.update who (principal_count l1 who + 1) (cl_principals l1), cl_next := Suc (cl_next l1)\<rparr>"
  have p: "cl_principals l1 = cl_principals l" "cl_per_principal l1 = cl_per_principal l" using session_object_sel [OF o] by auto
  then have "principal_count l1 who = int (length (calls_of hs who))"
    using principal_count_calls [OF assms(1)] by (simp add: principal_count_def)
  moreover have "int (length (calls_of hs who)) < cl_per_principal l"
    using r principal_count_calls [OF assms(1)] by (auto simp: admit_refusal_def split: if_splits)
  ultimately show ?thesis using assms(1) p h l'
    by (auto simp: wf_principals_def calls_of_Cons update_conv' wf_map_def distinct_update count_entry_def)
qed


lemma entry_ok_frame:
  assumes "entry_ok l hs e" "\<And>ob. e = Some ob \<Longrightarrow> cl_objects l' ob = cl_objects l ob" "cl_next l \<le> cl_next l'"
    "cl_per_session l' = cl_per_session l"
  shows "entry_ok l' hs e"
  using assms by (auto simp: entry_ok_def split: option.splits)

lemma admit_sessions:
  assumes "wf_sessions (l, hs)" "admit l who ss = Inr (h, l')"
  shows "wf_sessions (l', h # hs)"
  using assms(2)
proof (rule admit_InrE)
  fix ob l1
  assume r: "admit_refusal l who ss = None" and o: "session_object l who ss = (ob, l1)"
    and h: "h = \<lparr>hd_call = cl_next l1, hd_object = ob, hd_session = ss, hd_principal = who\<rparr>"
    and l': "l' = l1\<lparr>cl_objects := (cl_objects l1)(ob := (cl_objects l1 ob)\<lparr>sc_calls := cl_next l1 # sc_calls (cl_objects l1 ob)\<rparr>),
             cl_principals := AList.update who (principal_count l1 who + 1) (cl_principals l1), cl_next := Suc (cl_next l1)\<rparr>"
  note e = wf_sessionsD(1) [OF assms(1)] and inj = wf_sessionsD(2) [OF assms(1)]
  have load: "map_of (cl_sessions l) ss \<noteq> None \<longrightarrow> int (length (calls_on hs ss)) < cl_per_session l"
    using r session_load_calls [OF assms(1)] by (auto simp: admit_refusal_def split: if_splits)
  have fresh: "map_of (cl_sessions l) x \<noteq> Some (cl_next l)" for x
    using e [of x] by (auto simp: entry_ok_def)
  have new: "map_of (cl_sessions l') = (map_of (cl_sessions l))(ss \<mapsto> ob)" "cl_next l \<le> cl_next l'" "ob < cl_next l'"
      "cl_per_session l' = cl_per_session l" "\<And>x. x \<noteq> ob \<Longrightarrow> cl_objects l' x = cl_objects l x"
      "map_of (cl_sessions l) ss = None \<or> map_of (cl_sessions l) ss = Some ob"
      "map_of (cl_sessions l) ss = None \<Longrightarrow> ob = cl_next l"
    using o l' e [of ss] by (auto simp: session_object_def update_conv' fun_upd_idem entry_ok_def split: option.splits)
  have other: "map_of (cl_sessions l) x \<noteq> Some ob" if "x \<noteq> ss" for x
    using that new(6,7) inj [of x ob ss] fresh [of x] by auto
  have mine: "entry_ok l' (h # calls_on hs ss) (Some ob)"
    using o l' e [of ss] load h by (auto simp: session_object_def entry_ok_def split: option.splits)
  have "entry_ok l' (calls_on (h # hs) x) (map_of (cl_sessions l') x)" for x
  proof (cases "x = ss")
    case True
    then show ?thesis using mine new(1) h by (simp add: calls_on_Cons)
  next
    case False
    have "entry_ok l' (calls_on hs x) (map_of (cl_sessions l) x)"
      by (rule entry_ok_frame [OF e]) (use new other [OF False] in auto)
    then show ?thesis using False new(1) h by (simp add: calls_on_Cons)
  qed
  moreover have "x = y" if "map_of (cl_sessions l') x = Some ob'" "map_of (cl_sessions l') y = Some ob'" for x y ob'
    using that other inj [of x ob' y] by (auto simp: new(1) split: if_splits)
  ultimately show ?thesis unfolding wf_sessions_def prod.case by blast
qed

lemma admit_cancelled:
  assumes "wf_cancelled (l, hs)" "admit l who ss = Inr (h, l')"
  shows "wf_cancelled (l', h # hs)"
  using assms(2)
proof (rule admit_InrE)
  fix ob l1
  assume r: "admit_refusal l who ss = None" and o: "session_object l who ss = (ob, l1)"
    and h: "h = \<lparr>hd_call = cl_next l1, hd_object = ob, hd_session = ss, hd_principal = who\<rparr>"
    and l': "l' = l1\<lparr>cl_objects := (cl_objects l1)(ob := (cl_objects l1 ob)\<lparr>sc_calls := cl_next l1 # sc_calls (cl_objects l1 ob)\<rparr>),
             cl_principals := AList.update who (principal_count l1 who + 1) (cl_principals l1), cl_next := Suc (cl_next l1)\<rparr>"
  have "isRetired l' x = isRetired l x" "cl_closed l' = cl_closed l" "cl_cancelled l' = cl_cancelled l" for x
    using session_object_sel [OF o] l' isRetired_cong [of l' l x] by auto
  moreover have "\<not> cl_closed l" "\<not> isRetired l ss" using r by (auto simp: admit_refusal_def split: if_splits)
  ultimately show ?thesis using assms(1) h by (auto simp: wf_cancelled_def)
qed

lemma remove1_in_set: "distinct (map hd_call hs) \<Longrightarrow> h \<in> set hs \<Longrightarrow> x \<in> set (remove1 h hs) \<longleftrightarrow> x \<in> set hs \<and> hd_call x \<noteq> hd_call h"
  by (auto simp: distinct_map inj_on_def dest: notin_set_remove1)

lemma release_live:
  assumes "wf_handles (l, hs)" "h \<in> set hs"
  shows "release l h =
    (let ob = hd_object h; sc = cl_objects l ob; calls = remove1 (hd_call h) (sc_calls sc); n = principal_count l (hd_principal h) - 1
     in l\<lparr>cl_released := hd_call h # cl_released l, cl_cancelled := hd_call h # cl_cancelled l,
          cl_objects := (cl_objects l)(ob := sc\<lparr>sc_calls := calls\<rparr>),
          cl_sessions := (if calls = [] \<and> map_of (cl_sessions l) (hd_session h) = Some ob
                          then AList.delete (hd_session h) (cl_sessions l) else cl_sessions l),
          cl_principals := (if n \<le> 0 then AList.delete (hd_principal h) (cl_principals l)
                            else AList.update (hd_principal h) n (cl_principals l))\<rparr>)"
  using assms by (auto simp: release_def wf_handles_def)

lemma release_handles:
  assumes "wf_handles (l, hs)" "h \<in> set hs"
  shows "wf_handles (release l h, remove1 h hs)"
proof -
  have d: "distinct (map hd_call hs)" using assms(1) by (simp add: wf_handles_def)
  then have "distinct (map hd_call (remove1 h hs))" using map_remove1 [OF d assms(2)] distinct_remove1 [OF d] by metis
  then show ?thesis using assms remove1_in_set [OF d assms(2)]
    by (auto simp: release_live [OF assms] Let_def wf_handles_def)
qed

lemma release_principals:
  assumes "wf_handles (l, hs)" "wf_principals (l, hs)" "h \<in> set hs"
  shows "wf_principals (release l h, remove1 h hs)"
proof -
  let ?p = "hd_principal h"
  have m: "h \<in> set (calls_of hs ?p)" using assms(3) by (simp add: calls_of_def)
  then have len: "length (remove1 h (calls_of hs ?p)) = length (calls_of hs ?p) - 1" "0 < length (calls_of hs ?p)"
    by (auto simp: length_remove1 intro: length_pos_if_in_set)
  then have n: "principal_count l ?p - 1 = int (length (remove1 h (calls_of hs ?p)))"
    using principal_count_calls [OF assms(2), of ?p] by linarith
  have "map_of (cl_principals (release l h)) = (map_of (cl_principals l))(?p := count_entry (remove1 h (calls_of hs ?p)))"
    "wf_map (cl_principals (release l h))" "cl_per_principal (release l h) = cl_per_principal l"
    using assms(2) by (simp_all add: release_live [OF assms(1,3)] Let_def n delete_conv' update_conv' count_entry_def
        wf_principals_def wf_map_def distinct_update distinct_delete)
  moreover have "map_of (cl_principals l) p = count_entry (calls_of hs p)"
     "calls_of hs p \<noteq> [] \<longrightarrow> int (length (calls_of hs p)) \<le> cl_per_principal l" for p
    using assms(2) unfolding wf_principals_def prod.case by blast+
  moreover have "int (length (remove1 h (calls_of hs ?p))) \<le> cl_per_principal l"
    using calculation(5) [of ?p] len by auto
  ultimately show ?thesis by (auto simp: wf_principals_def calls_of_remove1)
qed

lemma release_sessions:
  assumes "wf_handles (l, hs)" "wf_sessions (l, hs)" "h \<in> set hs"
  shows "wf_sessions (release l h, remove1 h hs)"
proof -
  let ?ss = "hd_session h" and ?l = "release l h" and ?ob = "hd_object h"
  note e = wf_sessionsD(1) [OF assms(2)] and inj = wf_sessionsD(2) [OF assms(2)]
  have m: "h \<in> set (calls_on hs ?ss)" using assms(3) by (simp add: calls_on_def)
  have ob: "map_of (cl_sessions l) ?ss = Some ?ob" "sc_calls (cl_objects l ?ob) = map hd_call (calls_on hs ?ss)"
      "?ob < cl_next l" "\<forall>x \<in> set (calls_on hs ?ss). hd_object x = ?ob" "int (length (calls_on hs ?ss)) \<le> max 1 (cl_per_session l)"
    using e [of ?ss] m by (auto simp: entry_ok_def split: option.splits)
  have "distinct (map hd_call (calls_on hs ?ss))"
    using assms(1) by (auto simp: wf_handles_def calls_on_def distinct_map inj_on_def)
  from map_remove1 [OF this m] have calls: "remove1 (hd_call h) (sc_calls (cl_objects l ?ob)) = map hd_call (remove1 h (calls_on hs ?ss))"
    using ob(2) by simp
  have new: "map_of (cl_sessions ?l) = (if remove1 h (calls_on hs ?ss) = [] then (map_of (cl_sessions l))(?ss := None) else map_of (cl_sessions l))"
      "cl_next ?l = cl_next l" "cl_per_session ?l = cl_per_session l" "\<And>x. x \<noteq> ?ob \<Longrightarrow> cl_objects ?l x = cl_objects l x"
      "sc_calls (cl_objects ?l ?ob) = map hd_call (remove1 h (calls_on hs ?ss))"
    using ob(1) by (simp_all add: release_live [OF assms(1,3)] Let_def calls delete_conv')
  have "entry_ok ?l (calls_on (remove1 h hs) x) (map_of (cl_sessions ?l) x)" for x
  proof (cases "x = ?ss")
    case True
    have "set (remove1 h (calls_on hs ?ss)) \<subseteq> set (calls_on hs ?ss)" "length (remove1 h (calls_on hs ?ss)) \<le> length (calls_on hs ?ss)"
      by (auto simp: set_remove1_subset length_remove1)
    then show ?thesis using True new ob by (auto simp: entry_ok_def calls_on_remove1 split: option.splits)
  next
    case False
    then have "map_of (cl_sessions l) x \<noteq> Some ?ob" using inj [of x ?ob ?ss] ob(1) by auto
    then have "entry_ok ?l (calls_on hs x) (map_of (cl_sessions l) x)"
      by (intro entry_ok_frame [OF e]) (use new in auto)
    then show ?thesis using False new(1) by (simp add: calls_on_remove1)
  qed
  moreover have "x = y" if "map_of (cl_sessions ?l) x = Some ob'" "map_of (cl_sessions ?l) y = Some ob'" for x y ob'
    using that inj [of x ob' y] by (auto simp: new(1) split: if_splits)
  ultimately show ?thesis unfolding wf_sessions_def prod.case by blast
qed

lemma release_cancelled:
  assumes "wf_handles (l, hs)" "wf_cancelled (l, hs)" "h \<in> set hs"
  shows "wf_cancelled (release l h, remove1 h hs)"
proof -
  have "isRetired (release l h) x = isRetired l x" for x
    by (rule isRetired_cong) (simp add: release_live [OF assms(1,3)] Let_def)
  then show ?thesis using assms(2) set_remove1_subset [of h hs]
    by (auto simp: wf_cancelled_def release_live [OF assms(1,3)] Let_def)
qed


lemma set_session_load: "set (session_load l ss) = hd_call ` set (calls_on hs ss)" if "wf_sessions (l, hs)"
  using session_load_calls [OF that] by simp

lemma all_session_calls:
  assumes "wf_sessions (l, hs)" "h \<in> set hs"
  shows "hd_call h \<in> set (concat (map (\<lambda>(ss, ob). sc_calls (cl_objects l ob)) (cl_sessions l)))"
proof -
  have "h \<in> set (calls_on hs (hd_session h))" using assms(2) by (simp add: calls_on_def)
  with wf_sessionsD(1) [OF assms(1), of "hd_session h"] obtain ob
    where "map_of (cl_sessions l) (hd_session h) = Some ob" "sc_calls (cl_objects l ob) = map hd_call (calls_on hs (hd_session h))"
    by (auto simp: entry_ok_def split: option.splits)
  then have "(hd_session h, ob) \<in> set (cl_sessions l)" "hd_call h \<in> set (sc_calls (cl_objects l ob))"
    using \<open>h \<in> set (calls_on hs (hd_session h))\<close> by (auto dest: map_of_SomeD)
  then show ?thesis by force
qed

text \<open>The operations that only retire, cancel or close leave the counts as they are.\<close>

definition same_counts :: "call_limits \<Rightarrow> call_limits \<Rightarrow> bool" where
  "same_counts l l' \<longleftrightarrow> cl_sessions l' = cl_sessions l \<and> cl_objects l' = cl_objects l \<and> cl_principals l' = cl_principals l
     \<and> cl_released l' = cl_released l \<and> cl_next l' = cl_next l \<and> cl_per_session l' = cl_per_session l
     \<and> cl_per_principal l' = cl_per_principal l"

lemma same_counts_wf:
  "same_counts l l' \<Longrightarrow> wf_handles (l, hs) \<Longrightarrow> wf_handles (l', hs)"
  "same_counts l l' \<Longrightarrow> wf_sessions (l, hs) \<Longrightarrow> wf_sessions (l', hs)"
  "same_counts l l' \<Longrightarrow> wf_principals (l, hs) \<Longrightarrow> wf_principals (l', hs)"
proof -
  show "same_counts l l' \<Longrightarrow> wf_handles (l, hs) \<Longrightarrow> wf_handles (l', hs)"
    "same_counts l l' \<Longrightarrow> wf_principals (l, hs) \<Longrightarrow> wf_principals (l', hs)"
    by (simp_all add: same_counts_def wf_handles_def wf_principals_def)
  show "wf_sessions (l', hs)" if s: "same_counts l l'" and w: "wf_sessions (l, hs)"
  proof -
    have eq: "cl_sessions l' = cl_sessions l" using s by (simp add: same_counts_def)
    have "entry_ok l' xs e" if "entry_ok l xs e" for xs e
      using entry_ok_frame [OF that] s by (simp add: same_counts_def)
    then show ?thesis using w unfolding wf_sessions_def prod.case eq by blast
  qed
qed

lemma retire_session_sel [simp]:
  "same_counts l (retire_session l ss)" "cl_closed (retire_session l ss) = cl_closed l"
  "cl_cancelled (retire_session l ss) = cl_cancelled l"
  "isRetired (retire_session l ss) x \<longleftrightarrow> isRetired l x \<or> (x = ss \<and> x \<noteq> None)"
  by (cases ss; cases x; auto simp: same_counts_def)+

lemma calls_step_same:
  "same_counts l (snd (cancelSession ID l sid who))" "same_counts l (snd (claimIdle l ss))"
  "same_counts l (snd (retire l ss))" "same_counts l (forget l ss)" "same_counts l (close_limits l)"
  using retire_session_sel(1) [of l ss]
  by (cases ss; simp add: same_counts_def cancelSession_def claimIdle_def retire_def close_limits_def Let_def)+

lemma calls_step_cancelled:
  assumes "wf_sessions (l, hs)" "wf_cancelled (l, hs)"
  shows "wf_cancelled (snd (cancelSession ID l sid who), hs)" "wf_cancelled (snd (claimIdle l ss), hs)"
    "wf_cancelled (snd (retire l ss), hs)" "wf_cancelled (forget l ss, hs)" "wf_cancelled (close_limits l, hs)"
proof -
  have load: "h \<in> set hs \<Longrightarrow> hd_session h = ss \<Longrightarrow> hd_call h \<in> set (session_load l ss)" for h
    using set_session_load [OF assms(1), of ss] by (auto simp: calls_on_def)
  have "isRetired (snd (cancelSession ID l sid who)) x = isRetired l x" for x
    by (rule isRetired_cong) (simp add: cancelSession_def Let_def)
  then show "wf_cancelled (snd (cancelSession ID l sid who), hs)"
    using assms(2) by (auto simp: wf_cancelled_def cancelSession_def Let_def)
  show "wf_cancelled (snd (claimIdle l ss), hs)"
    using assms(2) load by (fastforce simp: wf_cancelled_def claimIdle_def)
  have "isRetired (snd (retire l ss)) x = isRetired (retire_session l ss) x" for x
    by (rule isRetired_cong) (simp add: retire_def)
  then show "wf_cancelled (snd (retire l ss), hs)"
    using assms(2) load by (auto simp: wf_cancelled_def retire_def)
  have "isRetired (forget l ss) x \<Longrightarrow> isRetired l x" for x by (cases ss; cases x) auto
  moreover have "cl_closed (forget l ss) = cl_closed l" "cl_cancelled (forget l ss) = cl_cancelled l" by (cases ss; simp)+
  ultimately show "wf_cancelled (forget l ss, hs)" using assms(2) by (auto simp: wf_cancelled_def)
  show "wf_cancelled (close_limits l, hs)"
    using all_session_calls [OF assms(1)] by (simp add: wf_cancelled_def close_limits_def)
qed

lemma calls_step_inv:
  assumes "calls_step ID s t" "calls_inv s"
  shows "calls_inv t"
  using assms
proof (induction rule: calls_step.induct)
  case (admitted l who ss h l' hs)
  then show ?case
    using admit_handles admit_sessions admit_principals admit_cancelled by (auto simp: calls_inv_def)
next
  case (released h hs l)
  then show ?case
    using release_handles release_sessions release_principals release_cancelled by (auto simp: calls_inv_def)
qed (auto simp: calls_inv_def release_def same_counts_wf [OF calls_step_same(1)] same_counts_wf [OF calls_step_same(2)]
      same_counts_wf [OF calls_step_same(3)] same_counts_wf [OF calls_step_same(4)] same_counts_wf [OF calls_step_same(5)]
      calls_step_cancelled)

lemma newCallLimits_inv: "calls_inv (newCallLimits a b, [])"
  by (simp add: calls_inv_def calls_wf_defs newCallLimits_def entry_ok_def calls_on_def calls_of_def count_entry_def wf_map_def)

lemma calls_reachable:
  "(calls_step ID)\<^sup>*\<^sup>* s t \<Longrightarrow> calls_inv s \<Longrightarrow> calls_inv t"
  by (induction rule: rtranclp_induct) (auto intro: calls_step_inv)

lemma sum_snd_keys: "wf_map m \<Longrightarrow> sum_list (map snd m) = (\<Sum>k \<in> set (go_keys m). the (map_of m k))"
proof (induction m)
  case (Cons x m)
  have "(\<Sum>k \<in> fst ` set m. the (map_of (x # m) k)) = (\<Sum>k \<in> fst ` set m. the (map_of m k))"
    using Cons.prems by (intro sum.cong) (auto simp: wf_map_def image_iff)
  then show ?case using Cons by (simp add: wf_map_def)
qed simp

lemma map_of_all_None: "(\<And>k. map_of m k = None) \<Longrightarrow> m = []"
  by (metis map_of_eq_None_iff image_is_empty set_empty equals0I)

lemma sum_calls_of: "finite A \<Longrightarrow> hd_principal ` set hs \<subseteq> A \<Longrightarrow> (\<Sum>p \<in> A. int (length (calls_of hs p))) = int (length hs)"
proof (induction hs)
  case (Cons h hs)
  have "(\<Sum>p \<in> A. int (length (calls_of (h # hs) p))) = (\<Sum>p \<in> A. (if hd_principal h = p then 1 else 0) + int (length (calls_of hs p)))"
    by (rule sum.cong) (auto simp: calls_of_Cons)
  also have "\<dots> = 1 + int (length hs)" using Cons by (simp add: sum.distrib)
  finally show ?case by simp
qed (simp add: calls_of_def)

lemma inFlight_calls:
  assumes "wf_principals (l, hs)"
  shows "inFlight l = int (length hs)"
proof -
  have m: "map_of (cl_principals l) p = count_entry (calls_of hs p)" for p
    using assms unfolding wf_principals_def prod.case by blast
  have w: "wf_map (cl_principals l)" using assms by (simp add: wf_principals_def)
  have k: "p \<in> set (go_keys (cl_principals l)) \<longleftrightarrow> calls_of hs p \<noteq> []" for p
    using m [of p] map_of_eq_None_iff [of "cl_principals l" p] by (auto simp: count_entry_def split: if_splits)
  have "hd_principal ` set hs \<subseteq> set (go_keys (cl_principals l))"
    using k by (auto simp: calls_of_def filter_empty_conv)
  from sum_calls_of [OF _ this] show ?thesis
    unfolding inFlight_def sum_snd_keys [OF w] using k m by (simp add: count_entry_def)
qed

lemma calls_step_limits:
  "calls_step ID s t \<Longrightarrow> cl_per_session (fst t) = cl_per_session (fst s) \<and> cl_per_principal (fst t) = cl_per_principal (fst s)"
proof (induction rule: calls_step.induct)
  case (admitted l who ss h l' hs)
  then show ?case by (auto elim!: admit_InrE dest!: session_object_sel)
qed (use calls_step_same in \<open>auto simp: release_def same_counts_def Let_def\<close>)

lemma calls_reachable_limits:
  "(calls_step ID)\<^sup>*\<^sup>* s t \<Longrightarrow> cl_per_session (fst t) = cl_per_session (fst s) \<and> cl_per_principal (fst t) = cl_per_principal (fst s)"
  by (induction rule: rtranclp_induct) (auto dest: calls_step_limits)

section \<open>Properties\<close>

lemma calls_reachable_new:
  assumes "(calls_step ID)\<^sup>*\<^sup>* (newCallLimits a b, []) (l, hs)"
  shows "calls_inv (l, hs)" "cl_per_session l = a" "cl_per_principal l = b"
  using calls_reachable [OF assms newCallLimits_inv] calls_reachable_limits [OF assms]
  by (simp_all add: newCallLimits_def)

definition demo_handle :: handle where
  "demo_handle = \<lparr>hd_call = 1, hd_object = 0, hd_session = Some 7, hd_principal = ''alice''\<rparr>"

definition demo_limits :: call_limits where
  "demo_limits = (newCallLimits 2 3)\<lparr>cl_sessions := [(Some 7, 0)],
     cl_objects := (\<lambda>_. \<lparr>sc_principal = [], sc_calls = []\<rparr>)(0 := \<lparr>sc_principal = ''alice'', sc_calls = [1]\<rparr>),
     cl_principals := [(''alice'', 1)], cl_next := 2\<rparr>"

lemma demo_admit: "admit (newCallLimits 2 3) ''alice'' (Some 7) = Inr (demo_handle, demo_limits)"
  by (simp add: admit_def admit_refusal_def newCallLimits_def demo_handle_def demo_limits_def session_object_def
      principal_count_def Let_def)

lemma demo_calls: "(calls_step (\<lambda>n. nat_text n))\<^sup>*\<^sup>* (newCallLimits 2 3, []) (demo_limits, [demo_handle])"
  using calls_step.admitted [OF demo_admit] by (rule r_into_rtranclp)

lemma demo_calls_retired:
  "(calls_step (\<lambda>n. nat_text n))\<^sup>*\<^sup>* (newCallLimits 2 3, []) (snd (retire demo_limits (Some 7)), [demo_handle])"
  using demo_calls calls_step.retired by (rule rtranclp.rtrancl_into_rtrancl)

text \<open>Property C13 (invariant). However admissions, releases, cancellations, retirements and the shutdown
  interleave, the counters are the truth: at no time are there more than \<open>perSession\<close> calls in
  flight on one agent session (one, when the cap is below one) or more than \<open>perPrincipal\<close> of one
  principal, \<open>inFlight\<close> is the number of admitted calls not yet released, and \<open>busy\<close> says exactly
  which sessions have one.\<close>

theorem call_caps_hold:
  assumes "(calls_step ID)\<^sup>*\<^sup>* (newCallLimits a b, []) (l, hs)"
  shows "int (length (calls_on hs ss)) \<le> max 1 a \<and> int (length (calls_of hs p)) \<le> max 0 b
    \<and> inFlight l = int (length hs) \<and> (busy l ss \<longleftrightarrow> calls_on hs ss \<noteq> [])"
proof -
  note r = calls_reachable_new [OF assms]
  then have w: "wf_sessions (l, hs)" "wf_principals (l, hs)" by (auto simp: calls_inv_def)
  have "int (length (calls_on hs ss)) \<le> max 1 a"
    using wf_sessionsD(1) [OF w(1), of ss] r(2) by (auto simp: entry_ok_def split: option.splits)
  moreover have "int (length (calls_of hs p)) \<le> max 0 b"
    using w(2) r(3) by (cases "calls_of hs p = []") (auto simp: wf_principals_def)
  moreover have "busy l ss \<longleftrightarrow> calls_on hs ss \<noteq> []" by (simp add: busy_def session_load_calls [OF w(1)])
  ultimately show ?thesis using inFlight_calls [OF w(2)] by simp
qed

theorem call_caps_hold_witness:
  "int (length (calls_on [demo_handle] (Some 7))) \<le> max 1 2 \<and> inFlight demo_limits = 1"
  using call_caps_hold [OF demo_calls, of "Some 7" "''alice''"] by simp

text \<open>Property C14 (safety). No call runs on a session that is being closed, or after the shutdown began: such a
  session has only calls whose context is cancelled, and \<open>admit\<close> refuses every new one. A
  session \<open>claimIdle\<close> claims has no call at all.\<close>

theorem retired_sessions_run_nothing:
  assumes "(calls_step ID)\<^sup>*\<^sup>* (newCallLimits a b, []) (l, hs)" "cl_closed l \<or> isRetired l ss"
  shows "(\<forall>h. h \<in> set (calls_on hs ss) \<longrightarrow> hd_call h \<in> set (cl_cancelled l)) \<and> (\<exists>r. admit l who ss = Inl r)
    \<and> (fst (claimIdle l ss) \<longrightarrow> calls_on hs ss = [])"
proof -
  have w: "wf_sessions (l, hs)" "wf_cancelled (l, hs)" using calls_reachable_new [OF assms(1)] by (auto simp: calls_inv_def)
  have "\<exists>r. admit l who ss = Inl r" using assms(2) by (auto simp: admit_def admit_refusal_def)
  moreover have "fst (claimIdle l ss) \<longrightarrow> calls_on hs ss = []"
    by (simp add: claimIdle_def session_load_calls [OF w(1)])
  ultimately show ?thesis using w(2) assms(2) by (auto simp: wf_cancelled_def calls_on_def)
qed

theorem retired_sessions_run_nothing_witness:
  "hd_call demo_handle \<in> set (cl_cancelled (snd (retire demo_limits (Some 7))))
   \<and> (\<exists>r. admit (snd (retire demo_limits (Some 7))) ''alice'' (Some 7) = Inl r)"
proof -
  have "isRetired (snd (retire demo_limits (Some 7))) (Some 7)" by (simp add: retire_def)
  then show ?thesis using retired_sessions_run_nothing [OF demo_calls_retired, of "Some 7" "''alice''"]
    by (simp add: calls_on_def demo_handle_def)
qed

lemma release_all:
  "calls_inv (l, hs) \<Longrightarrow> mset ks = mset hs \<Longrightarrow> calls_inv (fold (\<lambda>h l. release l h) ks l, [])
     \<and> cl_closed (fold (\<lambda>h l. release l h) ks l) = cl_closed l \<and> cl_retired (fold (\<lambda>h l. release l h) ks l) = cl_retired l
     \<and> cl_per_session (fold (\<lambda>h l. release l h) ks l) = cl_per_session l
     \<and> cl_per_principal (fold (\<lambda>h l. release l h) ks l) = cl_per_principal l"
proof (induction ks arbitrary: l hs)
  case (Cons k ks)
  have k: "k \<in> set hs" using Cons.prems(2) by (metis list.set_intros(1) mset_eq_setD)
  have "calls_inv (release l k, remove1 k hs)"
    using calls_step_inv [OF calls_step.released [OF k] Cons.prems(1)] .
  moreover have "mset ks = mset (remove1 k hs)" using Cons.prems(2) [symmetric] by simp
  ultimately show ?case using Cons.IH [of "release l k" "remove1 k hs"] by (simp add: release_def Let_def)
qed simp

text \<open>Property C15 (liveness). Nothing leaks: from every reachable state, once the calls in flight have run their
  release functions, in any order, no session and no principal has an entry left, and a call
  on any session that is not retired is admitted again (with caps of at least one, before the
  shutdown).\<close>

theorem released_calls_free_capacity:
  assumes "(calls_step ID)\<^sup>*\<^sup>* (newCallLimits a b, []) (l, hs)" "mset ks = mset hs"
  defines "l' \<equiv> fold (\<lambda>h l. release l h) ks l"
  shows "cl_sessions l' = [] \<and> cl_principals l' = [] \<and> inFlight l' = 0
    \<and> (0 < b \<and> \<not> cl_closed l \<and> \<not> isRetired l ss \<longrightarrow> (\<exists>h l''. admit l' who ss = Inr (h, l'')))"
proof -
  note r = calls_reachable_new [OF assms(1)]
  note f = release_all [OF r(1) assms(2), folded l'_def]
  then have w: "wf_sessions (l', [])" "wf_principals (l', [])" by (auto simp: calls_inv_def)
  have "map_of (cl_sessions l') x = None" for x
    using wf_sessionsD(1) [OF w(1), of x] by (auto simp: entry_ok_def calls_on_def split: option.splits)
  then have s: "cl_sessions l' = []" by (rule map_of_all_None)
  have "map_of (cl_principals l') x = None" for x
    using w(2) by (simp add: wf_principals_def count_entry_def calls_of_def)
  then have p: "cl_principals l' = []" by (rule map_of_all_None)
  have ret: "isRetired l' ss = isRetired l ss" using f by (intro isRetired_cong) simp
  have "\<exists>h l''. admit l' who ss = Inr (h, l'')" if "0 < b" "\<not> cl_closed l" "\<not> isRetired l ss"
    using that s p r f ret by (auto simp: admit_def admit_refusal_def principal_count_def session_object_def Let_def)
  then show ?thesis using s p by (auto simp: inFlight_def)
qed

theorem released_calls_free_capacity_witness:
  "cl_sessions (release demo_limits demo_handle) = []
   \<and> (\<exists>h l''. admit (release demo_limits demo_handle) ''bob'' (Some 8) = Inr (h, l''))"
  using released_calls_free_capacity [OF demo_calls refl, of "Some 8" "''bob''"]
  by (simp add: demo_limits_def newCallLimits_def)

end
