(* ===== verification/Json_Encode.thy ===== *)
theory Json_Encode
  imports Json
begin

text \<open>
  \<^verbatim>\<open>encoding/json\<close>'s encoder, as the proxy and the audit log use it (no HTML escapes, keys sorted), and
  the round trip: decoding what the encoder wrote gives the value back, with the keys of every
  object sorted.
\<close>

section \<open>The encoder\<close>

text \<open>A byte outside \<open>safeSet\<close> is escaped, a byte that is not UTF-8 is written as an escaped U+FFFD, and
  so are U+2028 and U+2029.\<close>

definition hex_digit :: "nat \<Rightarrow> char" where
  "hex_digit n = (if n < 10 then char_of (48 + n) else char_of (87 + n))"

definition escape_byte :: "nat \<Rightarrow> string" where
  "escape_byte b =
     (if b = 92 \<or> b = 34 then [CHR 0x5C, char_of b]
      else if b = 8 then [CHR 0x5C, CHR ''b'']
      else if b = 12 then [CHR 0x5C, CHR ''f'']
      else if b = 10 then [CHR 0x5C, CHR ''n'']
      else if b = 13 then [CHR 0x5C, CHR ''r'']
      else if b = 9 then [CHR 0x5C, CHR ''t'']
      else [CHR 0x5C, CHR ''u'', CHR ''0'', CHR ''0'', hex_digit (b div 16), hex_digit (b mod 16)])"

definition encode_string_rune :: "nat \<times> string \<Rightarrow> string" where
  "encode_string_rune = (\<lambda>(r, w).
     if r < 128 then (if 32 \<le> r \<and> r \<noteq> 34 \<and> r \<noteq> 92 then w else escape_byte r)
     else if r = rune_error \<and> length w = 1 then [CHR 0x5C] @ ''ufffd''
     else if r = 8232 then [CHR 0x5C] @ ''u2028''
     else if r = 8233 then [CHR 0x5C] @ ''u2029''
     else w)"

definition encode_string :: "string \<Rightarrow> string" where
  "encode_string s = [CHR 0x22] @ concat (map encode_string_rune (runes s)) @ [CHR 0x22]"

fun encode_json :: "json \<Rightarrow> string" where
  "encode_json JNull = ''null''"
| "encode_json (JBool b) = (if b then ''true'' else ''false'')"
| "encode_json (JNum t) = t"
| "encode_json (JStr s) = encode_string s"
| "encode_json (JStrs ss) = ''['' @ join '','' (map encode_string ss) @ '']''"
| "encode_json (JArr vs) = ''['' @ join '','' (map encode_json vs) @ '']''"
| "encode_json (JObj m) =
     ''{'' @ join '','' (map snd (sort_key fst (map (\<lambda>(k, v). (k, encode_string k @ '':'' @ encode_json v)) m))) @ ''}''"

section \<open>Runes\<close>

definition scalar :: "nat \<Rightarrow> bool" where
  "scalar r \<longleftrightarrow> r < 1114112 \<and> \<not> (55296 \<le> r \<and> r < 57344)"

lemma byte_char [simp]: "n < 256 \<Longrightarrow> byte (char_of n) = n"
  by simp

lemma base64_digits: "r = r div 4096 * 4096 + r div 64 mod 64 * 64 + r mod (64::nat)"
proof -
  have "r = r div 64 * 64 + r mod 64" by simp
  moreover have "r div 64 = r div 64 div 64 * 64 + r div 64 mod 64" by simp
  moreover have "r div 64 div 64 = r div 4096" by (simp flip: div_mult2_eq)
  ultimately show ?thesis by linarith
qed

lemma decode_encode_2:
  assumes "128 \<le> r" "r < 2048"
  shows "decode_rune (encode_rune r @ s) = (r, 2) \<and> length (encode_rune r) = 2"
proof -
  have q: "2 \<le> r div 64" "r div 64 < 32" "r mod 64 < 64" "r div 64 * 64 + r mod 64 = r"
    using assms by (auto simp: div_less_iff_less_mult less_eq_div_iff_mult_less_eq)
  then have "encode_rune r = [char_of (192 + r div 64), char_of (128 + r mod 64)]"
    using assms by (simp add: encode_rune_def Let_def)
  then show ?thesis using q by (simp add: decode_rune_def Let_def is_cont_def)
qed

lemma decode_encode_3:
  assumes "2048 \<le> r" "r < 65536" "scalar r"
  shows "decode_rune (encode_rune r @ s) = (r, 3) \<and> length (encode_rune r) = 3"
proof -
  define a b c where "a = r div 4096" and "b = r div 64 mod 64" and "c = r mod 64"
  have r: "r = a * 4096 + b * 64 + c"
    using base64_digits [of r] by (simp add: a_def b_def c_def)
  have bd: "a < 16" "b < 64" "c < 64" using assms by (auto simp: a_def b_def c_def div_less_iff_less_mult)
  have e: "encode_rune r = [char_of (224 + a), char_of (128 + b), char_of (128 + c)]"
    using assms by (auto simp: encode_rune_def Let_def scalar_def a_def b_def c_def)
  have "a = 0 \<Longrightarrow> 32 \<le> b" "a = 13 \<Longrightarrow> b < 32" using r bd assms by (auto simp: scalar_def)
  then have "decode_rune ([char_of (224 + a), char_of (128 + b), char_of (128 + c)] @ s) = (a * 4096 + b * 64 + c, 3)"
    using bd by (auto simp: decode_rune_def Let_def is_cont_def second_ok_def)
  then show ?thesis unfolding e by (simp flip: r)
qed

lemma decode_encode_4:
  assumes "65536 \<le> r" "scalar r"
  shows "decode_rune (encode_rune r @ s) = (r, 4) \<and> length (encode_rune r) = 4"
proof -
  define a b c d where "a = r div 262144" and "b = r div 4096 mod 64" and "c = r div 64 mod 64" and "d = r mod 64"
  have r: "r = a * 262144 + b * 4096 + c * 64 + d"
  proof -
    have "r div 64 = a * 4096 + b * 64 + c"
      using base64_digits [of "r div 64"] by (simp add: a_def b_def c_def flip: div_mult2_eq)
    moreover have "r = r div 64 * 64 + d" by (simp add: d_def)
    ultimately show ?thesis by linarith
  qed
  have bd: "a < 5" "b < 64" "c < 64" "d < 64" using assms by (auto simp: a_def b_def c_def d_def scalar_def div_less_iff_less_mult)
  have e: "encode_rune r = [char_of (240 + a), char_of (128 + b), char_of (128 + c), char_of (128 + d)]"
    using assms by (auto simp: encode_rune_def Let_def scalar_def a_def b_def c_def d_def)
  have "a = 0 \<Longrightarrow> 16 \<le> b" "a = 4 \<Longrightarrow> b < 16" using r bd assms by (auto simp: scalar_def)
  then have "decode_rune ([char_of (240 + a), char_of (128 + b), char_of (128 + c), char_of (128 + d)] @ s)
      = (a * 262144 + b * 4096 + c * 64 + d, 4)"
    using bd by (auto simp: decode_rune_def Let_def is_cont_def second_ok_def)
  then show ?thesis unfolding e by (simp flip: r)
qed

lemma decode_encode_rune:
  assumes "scalar r"
  shows "decode_rune (encode_rune r @ s) = (r, length (encode_rune r))"
proof -
  consider "r < 128" | "128 \<le> r \<and> r < 2048" | "2048 \<le> r \<and> r < 65536" | "65536 \<le> r" by linarith
  then show ?thesis
    using decode_encode_2 [of r s] decode_encode_3 [of r s] decode_encode_4 [of r s] assms by cases auto
qed

lemma encode_rune_nonempty [simp]: "encode_rune r \<noteq> []"
  by (simp add: encode_rune_def Let_def)

lemma runes_encode_rune: "scalar r \<Longrightarrow> runes (encode_rune r @ s) = (r, encode_rune r) # runes s"
proof -
  assume r: "scalar r"
  obtain c t where "encode_rune r = c # t" by (cases "encode_rune r") auto
  then show ?thesis using decode_encode_rune [OF r, of s] runes_Cons [of c "t @ s"] by simp
qed

lemma runes_encode: "list_all scalar rs \<Longrightarrow> runes (concat (map encode_rune rs)) = map (\<lambda>r. (r, encode_rune r)) rs"
  by (induction rs) (simp_all add: runes_encode_rune)

text \<open>A text is a sequence of encoded runes, none of them an invalid byte.\<close>

definition valid_text :: "string \<Rightarrow> bool" where
  "valid_text s \<longleftrightarrow> (\<exists>rs. list_all scalar rs \<and> s = concat (map encode_rune rs))"

lemma valid_text_Nil [simp]: "valid_text []"
  by (auto simp: valid_text_def intro: exI [of _ "[]"])

lemma valid_text_append: "valid_text s \<Longrightarrow> valid_text t \<Longrightarrow> valid_text (s @ t)"
  unfolding valid_text_def by (metis concat_append list_all_append map_append)

lemma encode_rune_valid: "valid_text (encode_rune r)"
proof -
  define q where "q = (if (55296 \<le> r \<and> r < 57344) \<or> 1114111 < r then rune_error else r)"
  have "scalar q" by (auto simp: q_def scalar_def rune_error_def)
  moreover have "encode_rune r = encode_rune q" by (auto simp: encode_rune_def q_def rune_error_def Let_def)
  ultimately show ?thesis by (auto simp: valid_text_def intro!: exI [of _ "[q]"])
qed

section \<open>Strings\<close>

lemma hex_value_digit: "n < 16 \<Longrightarrow> hex_value (hex_digit n) = Some n"
  by (auto simp: hex_value_def hex_digit_def is_decimal_def)

lemma escaped_chars:
  "char_of (92 :: nat) = CHR 0x5C" "char_of (34 :: nat) = CHR 0x22" "char_of (8 :: nat) = CHR 0x08"
  "char_of (12 :: nat) = CHR 0x0C" "char_of (10 :: nat) = CHR 0x0A" "char_of (13 :: nat) = CHR 0x0D"
  "char_of (9 :: nat) = CHR 0x09"
  by code_simp+

lemma parse_string_plain:
  "32 \<le> byte c \<Longrightarrow> byte c < 128 \<Longrightarrow> byte c \<noteq> 34 \<Longrightarrow> byte c \<noteq> 92 \<Longrightarrow>
     parse_string (c # t) = map_option (map_prod (append [c]) id) (parse_string t)"
  by (simp add: parse_string.simps [of "c # t"])

lemma parse_string_simple:
  "simple_escape e = Some x \<Longrightarrow> e \<noteq> CHR ''u'' \<Longrightarrow>
     parse_string (CHR 0x5C # e # t) = map_option (map_prod (append [x]) id) (parse_string t)"
  by (simp add: parse_string.simps [of "CHR 0x5C # e # t"])

lemma parse_string_unicode:
  "hex_value a = Some w \<Longrightarrow> hex_value b = Some x \<Longrightarrow> hex_value c = Some y \<Longrightarrow> hex_value d = Some z \<Longrightarrow>
     \<not> is_surrogate (((w * 16 + x) * 16 + y) * 16 + z) \<Longrightarrow>
     parse_string (CHR 0x5C # CHR ''u'' # a # b # c # d # t)
       = map_option (map_prod (append (encode_rune (((w * 16 + x) * 16 + y) * 16 + z))) id) (parse_string t)"
  by (simp add: parse_string.simps [of "CHR 0x5C # CHR ''u'' # a # b # c # d # t"] getu4_def)

lemma parse_string_high:
  assumes "scalar r" "128 \<le> r"
  shows "parse_string (encode_rune r @ t) = map_option (map_prod (append (encode_rune r)) id) (parse_string t)"
proof -
  obtain c w where e: "encode_rune r = c # w" by (cases "encode_rune r") auto
  then have "128 \<le> byte c" using encode_rune_bytes_high [OF assms(2), of c] by simp
  then show ?thesis using decode_encode_rune [OF assms(1), of t] e
    by (simp add: parse_string.simps [of "c # w @ t"])
qed

lemma parse_string_escape:
  assumes "r < 32 \<or> r = 34 \<or> r = 92"
  shows "parse_string (escape_byte r @ t) = map_option (map_prod (append (encode_rune r)) id) (parse_string t)"
proof (cases "r \<in> {92, 34, 8, 12, 10, 13, 9}")
  case True
  then show ?thesis by (auto simp: escape_byte_def simple_escape_def parse_string_simple escaped_chars)
next
  case False
  then have r: "r < 32" using assms by auto
  then have "r div 16 < 16" "r mod 16 < 16" "r div 16 * 16 + r mod 16 = r" by auto
  then have "parse_string (CHR 0x5C # CHR ''u'' # CHR ''0'' # CHR ''0'' # hex_digit (r div 16) # hex_digit (r mod 16) # t)
      = map_option (map_prod (append (encode_rune r)) id) (parse_string t)"
    using parse_string_unicode [of "CHR ''0''" 0 "CHR ''0''" 0 "hex_digit (r div 16)" "r div 16" "hex_digit (r mod 16)" "r mod 16" t] r
    by (simp add: hex_value_digit is_surrogate_def) (simp add: hex_value_def is_decimal_def)
  then show ?thesis using False by (simp add: escape_byte_def)
qed

lemma parse_string_rune:
  assumes "scalar r"
  shows "parse_string (encode_string_rune (r, encode_rune r) @ t)
    = map_option (map_prod (append (encode_rune r)) id) (parse_string t)"
proof -
  consider "r < 128" "32 \<le> r" "r \<noteq> 34" "r \<noteq> 92" | "r < 32 \<or> r = 34 \<or> r = 92" | "r = 8232" | "r = 8233"
    | "128 \<le> r" "r \<noteq> 8232" "r \<noteq> 8233" by linarith
  then show ?thesis
  proof cases
    case 1
    then show ?thesis using parse_string_plain [of "char_of r" t] by (simp add: encode_string_rune_def)
  next
    case 2
    then show ?thesis using parse_string_escape [OF 2, of t] by (auto simp: encode_string_rune_def)
  next
    case 3
    then show ?thesis using parse_string_unicode [of "CHR ''2''" 2 "CHR ''0''" 0 "CHR ''2''" 2 "CHR ''8''" 8 t]
      by (simp add: encode_string_rune_def rune_error_def hex_value_def is_decimal_def is_surrogate_def)
  next
    case 4
    then show ?thesis using parse_string_unicode [of "CHR ''2''" 2 "CHR ''0''" 0 "CHR ''2''" 2 "CHR ''9''" 9 t]
      by (simp add: encode_string_rune_def rune_error_def hex_value_def is_decimal_def is_surrogate_def)
  next
    case 5
    have "length (encode_rune rune_error) = 3" by (simp add: encode_rune_def rune_error_def)
    then show ?thesis using 5 parse_string_high [OF assms] by (auto simp: encode_string_rune_def)
  qed
qed

lemma parse_string_runes:
  "list_all scalar rs \<Longrightarrow> parse_string (concat (map (\<lambda>r. encode_string_rune (r, encode_rune r)) rs) @ CHR 0x22 # t)
     = Some (concat (map encode_rune rs), t)"
proof (induction rs)
  case Nil
  then show ?case by (simp add: parse_string.simps [of "CHR 0x22 # t"])
next
  case (Cons r rs)
  then show ?case by (simp add: parse_string_rune)
qed

lemma parse_encode_string: "valid_text s \<Longrightarrow> parse_string (tl (encode_string s) @ t) = Some (s, t)"
  by (auto simp: valid_text_def encode_string_def runes_encode parse_string_runes comp_def)

lemma encode_string_Cons: "encode_string s = CHR 0x22 # tl (encode_string s)"
  by (simp add: encode_string_def)

lemma valid_text_ascii: "byte c < 128 \<Longrightarrow> valid_text [c]"
  using encode_rune_valid [of "byte c"] by simp

lemma simple_escape_ascii: "simple_escape e = Some x \<Longrightarrow> valid_text [x]"
  by (rule valid_text_ascii) (auto simp: simple_escape_def split: if_splits)

lemma parse_string_valid: "parse_string s = Some (v, r) \<Longrightarrow> valid_text v"
proof (induction s arbitrary: v r rule: parse_string.induct)
  case (1 s)
  note va = valid_text_append [OF encode_rune_valid] valid_text_append [OF valid_text_ascii, of _ _, simplified]
    valid_text_append [OF simple_escape_ascii, simplified]
  show ?case
  proof (cases s)
    case Nil
    then show ?thesis using "1.prems" by (simp add: parse_string.simps)
  next
    case (Cons c t)
    note prems = "1.prems" [unfolded parse_string.simps [of s]]
    show ?thesis using prems Cons "1.IH" [OF Cons]
      by (auto split: if_splits option.splits prod.splits list.splits simp: Let_def intro: va)
  qed
qed

section \<open>Numbers\<close>

definition stops :: "string \<Rightarrow> bool" where
  "stops r \<longleftrightarrow> r = [] \<or> hd r \<in> {CHR '','', CHR '']'', CHR ''}''}"

definition no_digit :: "string \<Rightarrow> bool" where
  "no_digit x \<longleftrightarrow> x = [] \<or> \<not> is_decimal (hd x)"

lemma digits_append:
  assumes "list_all is_decimal ds" "no_digit x"
  shows "digits_of (ds @ x) = (ds, x)"
proof -
  have "takeWhile is_decimal x = []" "dropWhile is_decimal x = x" using assms(2) by (cases x; simp add: no_digit_def)+
  then show ?thesis using assms(1)
    by (simp add: digits_of_def list_all_iff takeWhile_append2 dropWhile_append2)
qed

lemma digits_all: "list_all is_decimal (takeWhile is_decimal s)"
  by (auto simp: list_all_iff dest: set_takeWhileD)

lemma parse_int_part_again:
  "parse_int_part s = Some (i, u) \<Longrightarrow> no_digit x \<Longrightarrow> parse_int_part (i @ x) = Some (i, x)"
  using digits_append [OF digits_all [of s], of x]
  by (auto simp: parse_int_part_def digits_of_def split: list.splits if_splits)

lemma parse_frac_again:
  "parse_frac s = Some (f, u) \<Longrightarrow> no_digit x \<Longrightarrow> x = [] \<or> hd x \<noteq> CHR ''.'' \<Longrightarrow> parse_frac (f @ x) = Some (f, x)"
  using digits_append [OF digits_all [of "tl s"], of x]
  by (auto simp: parse_frac_def digits_of_def Let_def split: list.splits if_splits)

definition sign_of :: "string \<Rightarrow> string \<times> string" where
  "sign_of t = (case t of [] \<Rightarrow> ([], []) | d # u \<Rightarrow> if d = CHR ''+'' \<or> d = CHR ''-'' then ([d], u) else ([], t))"

lemma parse_exp_shape:
  assumes "parse_exp s = Some (e, u)" "e \<noteq> []"
  shows "\<exists>c sg ds. e = c # sg @ ds \<and> c \<in> {CHR ''e'', CHR ''E''} \<and> list_all is_decimal ds \<and> ds \<noteq> [] \<and> sg \<in> {[], ''+'', ''-''}"
proof -
  obtain c t where s: "s = c # t" "c \<in> {CHR ''e'', CHR ''E''}"
    using assms by (auto simp: parse_exp_def split: list.splits if_splits)
  obtain sg v where sg: "sign_of t = (sg, v)" by fastforce
  have "e = c # sg @ takeWhile is_decimal v" "takeWhile is_decimal v \<noteq> []"
    using assms(1) s sg unfolding parse_exp_def s(1) by (auto simp: digits_of_def Let_def simp flip: sign_of_def split: if_splits)
  moreover have "sg \<in> {[], ''+'', ''-''}" using sg by (auto simp: sign_of_def split: list.splits if_splits)
  ultimately show ?thesis using s(2) digits_all [of v] by blast
qed

lemma parse_exp_again:
  "parse_exp s = Some (e, u) \<Longrightarrow> no_digit x \<Longrightarrow> x = [] \<or> hd x \<notin> {CHR ''e'', CHR ''E''} \<Longrightarrow> parse_exp (e @ x) = Some (e, x)"
proof -
  assume p: "parse_exp s = Some (e, u)" and x: "no_digit x" "x = [] \<or> hd x \<notin> {CHR ''e'', CHR ''E''}"
  show ?thesis
  proof (cases "e = []")
    case True
    then show ?thesis using x by (auto simp: parse_exp_def split: list.splits)
  next
    case False
    then obtain c sg ds where e: "e = c # sg @ ds" "c \<in> {CHR ''e'', CHR ''E''}" "list_all is_decimal ds" "ds \<noteq> []"
        "sg \<in> {[], ''+'', ''-''}"
      using parse_exp_shape [OF p] by blast
    note d = digits_append [OF e(3) x(1)]
    have "is_decimal (hd ds)" "hd ds \<in> set ds" using e(3,4) by (auto simp: list_all_iff)
    then have "hd ds \<noteq> CHR ''+''" "hd ds \<noteq> CHR ''-''" by (auto simp: is_decimal_def)
    then show ?thesis using e d by (cases ds) (auto simp: parse_exp_def Let_def)
  qed
qed

lemma parse_frac_head: "parse_frac s = Some (f, u) \<Longrightarrow> f = [] \<or> hd f = CHR ''.''"
  by (auto simp: parse_frac_def Let_def split: list.splits if_splits prod.splits)

lemma parse_exp_head: "parse_exp s = Some (e, u) \<Longrightarrow> e = [] \<or> hd e = CHR ''e'' \<or> hd e = CHR ''E''"
  by (auto simp: parse_exp_def Let_def split: list.splits if_splits prod.splits)

lemma parse_int_head: "parse_int_part s = Some (i, u) \<Longrightarrow> i \<noteq> [] \<and> is_decimal (hd i)"
  by (auto simp: parse_int_part_def digits_of_def is_decimal_def split: list.splits if_splits)

lemma parse_number_again:
  assumes "parse_number s = Some (l, r0)" "stops r"
  shows "parse_number (l @ r) = Some (l, r)"
proof -
  obtain sg t where m: "(case s of [] \<Rightarrow> ([], []) | c # t \<Rightarrow> if c = CHR ''-'' then ([c], t) else ([], s)) = (sg, t)"
    by fastforce
  then have sg: "sg = [] \<or> sg = ''-''" by (auto split: list.splits if_splits)
  obtain i u where i: "parse_int_part t = Some (i, u)" using assms(1) unfolding parse_number_def m by (auto split: option.splits)
  obtain f v where f: "parse_frac u = Some (f, v)" using assms(1) unfolding parse_number_def m by (auto simp: i split: option.splits)
  obtain e where e: "parse_exp v = Some (e, r0)" and l: "l = sg @ i @ f @ e"
    using assms(1) unfolding parse_number_def m by (auto simp: i f split: option.splits)
  note h = parse_int_head [OF i] parse_frac_head [OF f] parse_exp_head [OF e]
  have nd: "no_digit r" "r = [] \<or> hd r \<notin> {CHR ''e'', CHR ''E''}" "r = [] \<or> hd r \<noteq> CHR ''.''"
    using assms(2) by (auto simp: stops_def no_digit_def is_decimal_def)
  have er: "no_digit (e @ r)" "e @ r = [] \<or> hd (e @ r) \<noteq> CHR ''.''"
    using nd h by (cases e; auto simp: no_digit_def is_decimal_def)+
  have fr: "no_digit (f @ e @ r)" using er h by (cases f) (auto simp: no_digit_def is_decimal_def)
  have "parse_int_part (i @ f @ e @ r) = Some (i, f @ e @ r)" "parse_frac (f @ e @ r) = Some (f, e @ r)"
      "parse_exp (e @ r) = Some (e, r)"
    using parse_int_part_again [OF i fr] parse_frac_again [OF f er] parse_exp_again [OF e nd(1,2)] by simp_all
  moreover have "hd i \<noteq> CHR ''-''" using h by (auto simp: is_decimal_def)
  ultimately show ?thesis using sg h(1) by (cases i) (auto simp: parse_number_def l)
qed

lemma parse_number_head: "parse_number s = Some (l, r) \<Longrightarrow> l \<noteq> [] \<and> (hd l = CHR ''-'' \<or> is_decimal (hd l))"
  by (auto simp: parse_number_def Let_def split: list.splits if_splits option.splits prod.splits dest!: parse_int_head)

section \<open>Values\<close>

fun json_depth :: "json \<Rightarrow> nat" where
  "json_depth (JArr vs) = Suc (fold max (map json_depth vs) 0)"
| "json_depth (JObj m) = Suc (fold max (map (\<lambda>(k, v). json_depth v) m) 0)"
| "json_depth v = 0"

text \<open>What the decoder makes of an encoded value: keys sorted, and numbers as \<open>f\<close> reads them.\<close>

fun canon :: "(string \<Rightarrow> string) \<Rightarrow> json \<Rightarrow> json" where
  "canon f (JNum t) = JNum (f t)"
| "canon f (JArr vs) = JArr (map (canon f) vs)"
| "canon f (JObj m) = JObj (sort_key fst (map (\<lambda>(k, v). (k, canon f v)) m))"
| "canon f v = v"

definition num_text :: "(string \<Rightarrow> string option) \<Rightarrow> string \<Rightarrow> string" where
  "num_text num t = (case num t of None \<Rightarrow> t | Some x \<Rightarrow> x)"

text \<open>The values a decoder returns, with numbers still as text that \<open>num\<close> can read.\<close>

fun clean :: "(string \<Rightarrow> string option) \<Rightarrow> json \<Rightarrow> bool" where
  "clean num (JNum t) \<longleftrightarrow> parse_number t = Some (t, []) \<and> num t \<noteq> None"
| "clean num (JStr s) \<longleftrightarrow> valid_text s"
| "clean num (JStrs ss) \<longleftrightarrow> False"
| "clean num (JArr vs) \<longleftrightarrow> (\<forall>v \<in> set vs. clean num v)"
| "clean num (JObj m) \<longleftrightarrow> wf_map m \<and> (\<forall>(k, v) \<in> set m. valid_text k \<and> clean num v)"
| "clean num v \<longleftrightarrow> True"

lemma fold_max_le: "(x :: nat) \<in> set xs \<Longrightarrow> x \<le> fold max xs a"
  "a \<le> fold max xs (a :: nat)"
proof -
  show le: "a \<le> fold max xs (a :: nat)" for xs a
    by (induction xs arbitrary: a) (auto intro: order_trans [OF max.cobounded2])
  show "x \<in> set xs \<Longrightarrow> x \<le> fold max xs a"
    by (induction xs arbitrary: a) (auto intro: order_trans [OF _ le])
qed

lemma sort_key_map_fst:
  assumes "\<And>x. fst (g x) = fst x"
  shows "sort_key fst (map g xs) = map g (sort_key fst xs)"
proof -
  have "insort_key fst (g x) (map g ys) = map g (insort_key fst x ys)" for x ys
    by (induction ys) (auto simp: assms)
  then show ?thesis by (induction xs) simp_all
qed

lemma put_new: "k \<notin> set (go_keys m) \<Longrightarrow> put k v m = m @ [(k, v)]"
  by (induction m) auto

lemma skip_space_id: "s \<noteq> [] \<Longrightarrow> \<not> json_space (hd s) \<Longrightarrow> skip_space s = s"
  by (cases s) (auto simp: skip_space_def)

lemma skip_space_stop [simp]:
  "skip_space (CHR '','' # s) = CHR '','' # s" "skip_space (CHR '']'' # s) = CHR '']'' # s"
  "skip_space (CHR ''}'' # s) = CHR ''}'' # s" "skip_space (CHR '':'' # s) = CHR '':'' # s"
  "skip_space (CHR 0x22 # s) = CHR 0x22 # s" "skip_space (CHR ''['' # s) = CHR ''['' # s"
  "skip_space (CHR ''{'' # s) = CHR ''{'' # s" "skip_space [] = []"
  by (simp_all add: skip_space_def json_space_def)

text \<open>Reading back one value, whatever follows it.\<close>

definition reads_back :: "(string \<Rightarrow> string option) \<Rightarrow> json \<Rightarrow> bool" where
  "reads_back num v \<longleftrightarrow> (\<forall>n k r. k + json_depth v \<le> maxNestingDepth \<longrightarrow> stops r \<longrightarrow> 2 * length (encode_json v @ r) < n
     \<longrightarrow> parse_value num n k (encode_json v @ r) = Some (canon (num_text num) v, r))"

lemma reads_backD:
  "reads_back num v \<Longrightarrow> k + json_depth v \<le> maxNestingDepth \<Longrightarrow> stops r \<Longrightarrow> 2 * length (encode_json v @ r) < n \<Longrightarrow>
     parse_value num n k (encode_json v @ r) = Some (canon (num_text num) v, r)"
  by (simp add: reads_back_def)

lemma stops_sep [simp]: "stops (CHR '','' # s)" "stops (CHR '']'' # s)" "stops (CHR ''}'' # s)" "stops []"
  by (simp_all add: stops_def)

lemma parse_elems_encode:
  assumes "vs \<noteq> []" "\<forall>v \<in> set vs. reads_back num v \<and> k + json_depth v \<le> maxNestingDepth"
    "Suc (2 * length (join '','' (map encode_json vs) @ CHR '']'' # r)) < n"
  shows "parse_elems num n k (join '','' (map encode_json vs) @ CHR '']'' # r) = Some (map (canon (num_text num)) vs, r)"
  using assms
proof (induction vs arbitrary: n)
  case (Cons v vs)
  obtain p where p: "n = Suc p" using Cons.prems(3) by (cases n) auto
  show ?case
  proof (cases "vs = []")
    case True
    then have "parse_value num p k (encode_json v @ CHR '']'' # r) = Some (canon (num_text num) v, CHR '']'' # r)"
      using Cons.prems p by (intro reads_backD) auto
    then show ?thesis using True p by simp
  next
    case False
    let ?rest = "join '','' (map encode_json vs) @ CHR '']'' # r"
    have j: "join '','' (map encode_json (v # vs)) @ CHR '']'' # r = encode_json v @ CHR '','' # ?rest"
      using False by (simp add: join_Cons)
    have "parse_value num p k (encode_json v @ CHR '','' # ?rest) = Some (canon (num_text num) v, CHR '','' # ?rest)"
      using Cons.prems(2,3) p j by (intro reads_backD) auto
    moreover have "parse_elems num p k ?rest = Some (map (canon (num_text num)) vs, r)"
      using Cons.prems(2,3) p j False by (intro Cons.IH) auto
    ultimately show ?thesis using p unfolding j by simp
  qed
qed simp

definition encode_member :: "string \<times> json \<Rightarrow> string" where
  "encode_member = (\<lambda>(k, v). encode_string k @ '':'' @ encode_json v)"

lemma parse_members_one:
  assumes "valid_text key" "reads_back num v" "k + json_depth v \<le> maxNestingDepth" "stops r"
    "Suc (2 * length (encode_member (key, v) @ r)) < n" "n = Suc p"
  shows "parse_members num n k m (encode_member (key, v) @ r) =
    (case skip_space r of [] \<Rightarrow> None
     | d # x \<Rightarrow> if d = CHR ''}'' then Some (put key (canon (num_text num) v) m, x)
               else if d = CHR '','' then parse_members num p k (put key (canon (num_text num) v) m) x else None)"
proof -
  have e: "encode_member (key, v) @ r = CHR 0x22 # tl (encode_string key) @ CHR '':'' # encode_json v @ r"
    using encode_string_Cons [of key] by (simp add: encode_member_def)
  have s: "parse_string (tl (encode_string key) @ CHR '':'' # encode_json v @ r) = Some (key, CHR '':'' # encode_json v @ r)"
    using parse_encode_string [OF assms(1)] by simp
  have "2 * length (encode_json v @ r) < p" using assms(5,6) by (simp add: e)
  then have "parse_value num p k (encode_json v @ r) = Some (canon (num_text num) v, r)"
    using assms(2-4) by (intro reads_backD)
  then show ?thesis unfolding e assms(6) by (simp add: s)
qed

lemma parse_members_encode:
  assumes "kvs \<noteq> []" "\<forall>(key, v) \<in> set kvs. valid_text key \<and> reads_back num v \<and> k + json_depth v \<le> maxNestingDepth"
    "Suc (2 * length (join '','' (map encode_member kvs) @ CHR ''}'' # r)) < n"
    "distinct (go_keys kvs)" "set (go_keys m) \<inter> set (go_keys kvs) = {}"
  shows "parse_members num n k m (join '','' (map encode_member kvs) @ CHR ''}'' # r)
    = Some (m @ map (\<lambda>(key, v). (key, canon (num_text num) v)) kvs, r)"
  using assms
proof (induction kvs arbitrary: n m)
  case (Cons kv kvs)
  obtain p where p: "n = Suc p" using Cons.prems(3) by (cases n) auto
  obtain key v where kv: "kv = (key, v)" by (cases kv)
  have h: "valid_text key" "reads_back num v" "k + json_depth v \<le> maxNestingDepth" using Cons.prems(2) kv by auto
  have new: "put key (canon (num_text num) v) m = m @ [(key, canon (num_text num) v)]"
    using Cons.prems(5) kv by (intro put_new) auto
  show ?case
  proof (cases "kvs = []")
    case True
    then show ?thesis
      using parse_members_one [OF h, of "CHR ''}'' # r" n p m] Cons.prems(3) p kv new by simp
  next
    case False
    let ?rest = "join '','' (map encode_member kvs) @ CHR ''}'' # r"
    have j: "join '','' (map encode_member (kv # kvs)) @ CHR ''}'' # r = encode_member (key, v) @ CHR '','' # ?rest"
      using False kv by (simp add: join_Cons)
    have "parse_members num p k (m @ [(key, canon (num_text num) v)]) ?rest
        = Some ((m @ [(key, canon (num_text num) v)]) @ map (\<lambda>(key, v). (key, canon (num_text num) v)) kvs, r)"
      using Cons.prems p kv False j by (intro Cons.IH) auto
    then show ?thesis
      using parse_members_one [OF h, of "CHR '','' # ?rest" n p m] Cons.prems(3) p kv new unfolding j by simp
  qed
qed simp

lemma parse_scalar_number:
  assumes "parse_number t = Some (t, [])" "num t = Some x" "stops r"
  shows "parse_scalar num (t @ r) = Some (JNum x, r)"
proof -
  have n: "parse_number (t @ r) = Some (t, r)" using parse_number_again [OF assms(1,3)] .
  have h: "t \<noteq> []" "hd t = CHR ''-'' \<or> is_decimal (hd t)" using parse_number_head [OF assms(1)] by auto
  then have "\<not> prefix ''true'' (t @ r)" "\<not> prefix ''false'' (t @ r)" "\<not> prefix ''null'' (t @ r)"
    by (cases t; auto simp: is_decimal_def)+
  then show ?thesis using n assms(2) by (simp add: parse_scalar_def)
qed

lemma number_first:
  assumes "parse_number t = Some (t, [])"
  obtains c u where "t = c # u" "\<not> json_space c" "byte c \<noteq> 34" "c \<noteq> CHR ''[''" "c \<noteq> CHR ''{''"
proof -
  have "t \<noteq> []" "hd t = CHR ''-'' \<or> is_decimal (hd t)" using parse_number_head [OF assms] by auto
  then obtain c u where c: "t = c # u" "c = CHR ''-'' \<or> is_decimal c" by (cases t) auto
  show thesis by (rule that [OF c(1)]) (use c(2) in \<open>auto simp: json_space_def is_decimal_def\<close>)
qed

lemma parse_value_scalar:
  "skip_space s = c # t \<Longrightarrow> byte c \<noteq> 34 \<Longrightarrow> c \<noteq> CHR ''['' \<Longrightarrow> c \<noteq> CHR ''{'' \<Longrightarrow> 0 < n \<Longrightarrow>
     parse_value num n k s = parse_scalar num (c # t)"
  by (cases n) auto

lemma depth_members:
  "v \<in> set vs \<Longrightarrow> json_depth v < json_depth (JArr vs)"
  "(key, v) \<in> set m \<Longrightarrow> json_depth v < json_depth (JObj m)"
  using fold_max_le(1) [of "json_depth v" "map json_depth vs" 0]
    fold_max_le(1) [of "json_depth v" "map (\<lambda>(k, v). json_depth v) m" 0] by force+

lemma join_not_Nil: "ws \<noteq> [] \<Longrightarrow> (\<forall>w \<in> set ws. w \<noteq> []) \<Longrightarrow> \<exists>c u. join sep ws = c # u \<and> c = hd (hd ws)"
  by (cases ws; cases "hd ws"; cases "tl ws") (auto simp: join_Cons)

lemma encode_json_first:
  "clean num v \<Longrightarrow> \<exists>c u. encode_json v = c # u \<and> \<not> json_space c \<and> c \<noteq> CHR '']'' \<and> c \<noteq> CHR ''}''"
proof (cases v)
  case (JNum t)
  assume "clean num v"
  then have "parse_number t = Some (t, [])" using JNum by simp
  then have "t \<noteq> []" "hd t = CHR ''-'' \<or> is_decimal (hd t)" using parse_number_head by auto
  then show ?thesis using JNum by (cases t) (auto simp: json_space_def is_decimal_def)
qed (auto simp: encode_string_def json_space_def)

lemma encode_obj: "encode_json (JObj m) = ''{'' @ join '','' (map encode_member (sort_key fst m)) @ ''}''"
proof -
  have "map snd (sort_key fst (map (\<lambda>(k, v). (k, encode_string k @ '':'' @ encode_json v)) m)) = map encode_member (sort_key fst m)"
    using sort_key_map_fst [of "\<lambda>(k, v). (k, encode_string k @ '':'' @ encode_json v)" m]
    by (auto simp: encode_member_def split: prod.splits)
  then show ?thesis by simp
qed

lemma clean_reads_back: "clean num v \<Longrightarrow> reads_back num v"
proof (induction v rule: encode_json.induct)
  case 1
  then show ?case by (auto simp: reads_back_def parse_value_scalar [of _ "CHR ''n''"] skip_space_def json_space_def parse_scalar_def)
next
  case (2 b)
  then show ?case
    by (cases b) (auto simp: reads_back_def parse_value_scalar [of _ "CHR ''t''"] parse_value_scalar [of _ "CHR ''f''"]
        skip_space_def json_space_def parse_scalar_def)
next
  case (3 t)
  then obtain x where t: "parse_number t = Some (t, [])" "num t = Some x" by auto
  obtain c u where c: "t = c # u" "\<not> json_space c" "byte c \<noteq> 34" "c \<noteq> CHR ''[''" "c \<noteq> CHR ''{''"
    by (rule number_first [OF t(1)])
  then have "skip_space (t @ r) = c # u @ r" for r by (simp add: skip_space_def)
  then have "parse_value num n k (t @ r) = Some (JNum x, r)" if "0 < n" "stops r" for n k r
    using parse_value_scalar [OF _ c(3-5) that(1)] parse_scalar_number [of t num x r, OF t that(2)] c(1) by simp
  then show ?case by (auto simp: reads_back_def num_text_def t(2))
next
  case (4 s)
  then have v: "valid_text s" by simp
  show ?case unfolding reads_back_def
  proof (intro allI impI)
    fix n k r assume n: "2 * length (encode_json (JStr s) @ r) < n"
    then obtain p where "n = Suc p" by (cases n) auto
    moreover obtain q where q: "encode_string s = CHR 0x22 # q" using encode_string_Cons [of s] by blast
    ultimately show "parse_value num n k (encode_json (JStr s) @ r) = Some (canon (num_text num) (JStr s), r)"
      using parse_encode_string [OF v, of r] by (simp add: q)
  qed
next
  case (6 vs)
  show ?case unfolding reads_back_def
  proof (intro allI impI)
    fix n k r assume k: "k + json_depth (JArr vs) \<le> maxNestingDepth" and r: "stops r"
      and n: "2 * length (encode_json (JArr vs) @ r) < n"
    obtain p where p: "n = Suc p" using n by (cases n) auto
    show "parse_value num n k (encode_json (JArr vs) @ r) = Some (canon (num_text num) (JArr vs), r)"
    proof (cases "vs = []")
      case True
      then show ?thesis using p k by simp
    next
      case False
      let ?body = "join '','' (map encode_json vs) @ CHR '']'' # r"
      have d: "\<forall>v \<in> set vs. reads_back num v \<and> Suc k + json_depth v \<le> maxNestingDepth"
        using 6 k depth_members(1) by fastforce
      have "clean num (hd vs)" using 6(2) False by simp
      from encode_json_first [OF this] obtain c u where "encode_json (hd vs) = c # u" "\<not> json_space c" "c \<noteq> CHR '']''" by blast
      then obtain w where b: "?body = c # w" using False by (cases vs; cases "tl vs") (auto simp: join_Cons)
      have sk: "skip_space ?body = c # w" using b \<open>\<not> json_space c\<close> by (simp add: skip_space_def)
      have "parse_elems num p (Suc k) ?body = Some (map (canon (num_text num)) vs, r)"
        using parse_elems_encode [OF False d, of r p] n p by simp
      then show ?thesis using p k sk \<open>c \<noteq> CHR '']''\<close> by simp
    qed
  qed
next
  case (7 m)
  define sm where "sm = sort_key fst m"
  have set: "set sm = set m" by (simp add: sm_def)
  have enc: "encode_json (JObj m) = ''{'' @ join '','' (map encode_member sm) @ ''}''"
    unfolding sm_def by (rule encode_obj)
  have can: "canon (num_text num) (JObj m) = JObj (map (\<lambda>(key, v). (key, canon (num_text num) v)) sm)"
    using sort_key_map_fst [of "\<lambda>(k, v). (k, canon (num_text num) v)" m] by (auto simp: sm_def split: prod.splits)
  have dist: "distinct (go_keys sm)"
    using 7(2) distinct_map [of fst m] distinct_map [of fst sm] set by (simp add: wf_map_def sm_def)
  show ?case unfolding reads_back_def
  proof (intro allI impI)
    fix n k r assume k: "k + json_depth (JObj m) \<le> maxNestingDepth" and r: "stops r"
      and n: "2 * length (encode_json (JObj m) @ r) < n"
    obtain p where p: "n = Suc p" using n by (cases n) auto
    show "parse_value num n k (encode_json (JObj m) @ r) = Some (canon (num_text num) (JObj m), r)"
    proof (cases "sm = []")
      case True
      then show ?thesis using p k unfolding enc can by simp
    next
      case False
      let ?body = "join '','' (map encode_member sm) @ CHR ''}'' # r"
      have d: "\<forall>(key, v) \<in> set sm. valid_text key \<and> reads_back num v \<and> Suc k + json_depth v \<le> maxNestingDepth"
        using 7 k depth_members(2) by (fastforce simp: set)
      obtain w where b: "?body = CHR 0x22 # w"
        using False by (cases sm; cases "tl sm") (auto simp: join_Cons encode_member_def encode_string_def split: prod.splits)
      have "parse_members num p (Suc k) [] ?body = Some (map (\<lambda>(key, v). (key, canon (num_text num) v)) sm, r)"
        using parse_members_encode [OF False d, of r p "[]"] n [unfolded enc] p dist by simp
      then show ?thesis using p k b unfolding enc can by simp
    qed
  qed
qed (simp add: reads_back_def)

section \<open>What a decoder returns\<close>

fun renum :: "(string \<Rightarrow> string) \<Rightarrow> json \<Rightarrow> json" where
  "renum f (JNum t) = JNum (f t)"
| "renum f (JArr vs) = JArr (map (renum f) vs)"
| "renum f (JObj m) = JObj (map (\<lambda>(k, v). (k, renum f v)) m)"
| "renum f v = v"

definition renum_map :: "(string \<Rightarrow> string) \<Rightarrow> (string \<times> json) list \<Rightarrow> (string \<times> json) list" where
  "renum_map f m = map (\<lambda>(k, v). (k, renum f v)) m"

lemma canon_renum: "canon f v = canon id (renum f v)"
proof (induction f v rule: canon.induct)
  case (3 f m)
  have "map (\<lambda>(k, v). (k, canon f v)) m = map (\<lambda>(k, v). (k, canon id v)) (map (\<lambda>(k, v). (k, renum f v)) m)"
    unfolding map_map
  proof (rule map_cong [OF refl])
    fix x assume x: "x \<in> set m"
    obtain k v where kv: "x = (k, v)" by (cases x)
    have "canon f v = canon id (renum f v)" by (rule 3 [OF x kv [symmetric]])
    then show "(case x of (k, v) \<Rightarrow> (k, canon f v)) = ((\<lambda>(k, v). (k, canon id v)) \<circ> (\<lambda>(k, v). (k, renum f v))) x"
      using kv by simp
  qed
  then show ?case unfolding canon.simps renum.simps by (rule arg_cong)
qed auto

lemma put_renum: "put k (renum f v) (renum_map f m) = renum_map f (put k v m)"
  by (induction k v m rule: put.induct) (auto simp: renum_map_def)

definition clean_within :: "(string \<Rightarrow> string option) \<Rightarrow> nat \<Rightarrow> json \<Rightarrow> bool" where
  "clean_within num k v \<longleftrightarrow> clean num v \<and> k + json_depth v \<le> maxNestingDepth"

definition clean_map :: "(string \<Rightarrow> string option) \<Rightarrow> nat \<Rightarrow> (string \<times> json) list \<Rightarrow> bool" where
  "clean_map num k m \<longleftrightarrow> wf_map m \<and> (\<forall>(key, v) \<in> set m. valid_text key \<and> clean_within num k v)"

lemma put_clean:
  assumes "clean_map num k m" "valid_text key" "clean_within num k v"
  shows "clean_map num k (put key v m)"
proof -
  have "wf_map m \<Longrightarrow> wf_map (put key v m)" for m :: "(string \<times> json) list"
    by (induction key v m rule: put.induct) (simp_all add: wf_map_def)
  moreover have "set (put key v m) \<subseteq> insert (key, v) (set m)" by (induction key v m rule: put.induct) auto
  ultimately show ?thesis using assms by (auto simp: clean_map_def dest!: subsetD)
qed

lemma fold_max_bound: "\<forall>x \<in> set xs. x \<le> b \<Longrightarrow> a \<le> b \<Longrightarrow> fold max xs (a :: nat) \<le> b"
  by (induction xs arbitrary: a) auto

lemma clean_within_arr:
  "\<forall>v \<in> set vs. clean_within num (Suc k) v \<Longrightarrow> k < maxNestingDepth \<Longrightarrow> clean_within num k (JArr vs)"
  using fold_max_bound [of "map json_depth vs" "maxNestingDepth - Suc k" 0]
  by (fastforce simp: clean_within_def)

lemma clean_within_obj:
  "clean_map num (Suc k) m \<Longrightarrow> k < maxNestingDepth \<Longrightarrow> clean_within num k (JObj m)"
  using fold_max_bound [of "map (\<lambda>(k, v). json_depth v) m" "maxNestingDepth - Suc k" 0]
  by (fastforce simp: clean_within_def clean_map_def)

lemma parse_scalar_clean:
  assumes "parse_scalar num s = Some (v', r)" "k \<le> maxNestingDepth"
  shows "\<exists>v. parse_scalar Some s = Some (v, r) \<and> v' = renum (num_text num) v \<and> clean_within num k v"
proof (cases "prefix ''true'' s \<or> prefix ''false'' s \<or> prefix ''null'' s")
  case True
  then show ?thesis using assms by (auto simp: parse_scalar_def clean_within_def split: if_splits)
next
  case False
  then obtain lit x where l: "parse_number s = Some (lit, r)" "num lit = Some x" "v' = JNum x"
    using assms(1) by (auto simp: parse_scalar_def split: option.splits)
  have "parse_number lit = Some (lit, [])" using parse_number_again [OF l(1), of "[]"] by simp
  then show ?thesis using False l assms(2)
    by (auto simp: parse_scalar_def clean_within_def num_text_def intro!: exI [of _ "JNum lit"])
qed

lemma parse_clean:
  "parse_value num n k s = Some (v', r) \<Longrightarrow> k \<le> maxNestingDepth \<Longrightarrow>
     \<exists>v. parse_value Some n k s = Some (v, r) \<and> v' = renum (num_text num) v \<and> clean_within num k v"
  "parse_elems num n k s = Some (vs', r) \<Longrightarrow> k \<le> maxNestingDepth \<Longrightarrow>
     \<exists>vs. parse_elems Some n k s = Some (vs, r) \<and> vs' = map (renum (num_text num)) vs \<and> (\<forall>v \<in> set vs. clean_within num k v)"
  "parse_members num n k m0' s = Some (m', r) \<Longrightarrow> k \<le> maxNestingDepth \<Longrightarrow> m0' = renum_map (num_text num) m0 \<Longrightarrow>
     clean_map num k m0 \<Longrightarrow>
     \<exists>m. parse_members Some n k m0 s = Some (m, r) \<and> m' = renum_map (num_text num) m \<and> clean_map num k m"
proof (induction num n k s and num n k s and num n k m0' s arbitrary: v' r and vs' r and m' r m0
    rule: parse_value_parse_elems_parse_members.induct)
  case (2 num n k s)
  obtain c t where c: "skip_space s = c # t" using "2.prems" by (auto split: list.splits)
  consider (str) "byte c = 34" | (arr) "byte c \<noteq> 34" "c = CHR ''[''" | (obj) "byte c \<noteq> 34" "c \<noteq> CHR ''[''" "c = CHR ''{''"
    | (other) "byte c \<noteq> 34" "c \<noteq> CHR ''[''" "c \<noteq> CHR ''{''" by blast
  then show ?case
  proof cases
    case str
    then show ?thesis using "2.prems" c by (auto simp: clean_within_def dest: parse_string_valid)
  next
    case arr
    then have k: "k < maxNestingDepth" using "2.prems" c by (auto split: if_splits)
    obtain d u where d: "skip_space t = d # u" using "2.prems" c arr by (auto split: list.splits if_splits)
    show ?thesis
    proof (cases "d = CHR '']''")
      case True
      then show ?thesis using "2.prems" c arr d k by (auto simp: clean_within_def)
    next
      case False
      then obtain ws where w: "parse_elems num n (Suc k) t = Some (ws, r)" "v' = JArr ws"
        using "2.prems"(1) c arr d k by auto
      from "2.IH"(1) [OF c arr _ d False w(1)] k obtain vs where
        "parse_elems Some n (Suc k) t = Some (vs, r)" "ws = map (renum (num_text num)) vs" "\<forall>v \<in> set vs. clean_within num (Suc k) v"
        by auto
      then show ?thesis using c arr d k False w(2) clean_within_arr [of vs num k] by auto
    qed
  next
    case obj
    then have k: "k < maxNestingDepth" using "2.prems" c by (auto split: if_splits)
    obtain d u where d: "skip_space t = d # u" using "2.prems" c obj by (auto split: list.splits if_splits)
    show ?thesis
    proof (cases "d = CHR ''}''")
      case True
      then show ?thesis using "2.prems" c obj d k by (auto simp: clean_within_def wf_map_def)
    next
      case False
      then obtain w where w: "parse_members num n (Suc k) [] t = Some (w, r)" "v' = JObj w"
        using "2.prems"(1) c obj d k by auto
      have "clean_map num (Suc k) []" by (simp add: clean_map_def wf_map_def)
      with "2.IH"(2) [OF c obj _ d False w(1), of "[]"] k obtain m where
        "parse_members Some n (Suc k) [] t = Some (m, r)" "w = renum_map (num_text num) m" "clean_map num (Suc k) m"
        by (auto simp: renum_map_def)
      then show ?thesis using c obj d k False w(2) clean_within_obj [of num k m] by (auto simp: renum_map_def)
    qed
  next
    case other
    then have "parse_scalar num (c # t) = Some (v', r)" using "2.prems"(1) c by simp
    from parse_scalar_clean [OF this "2.prems"(2)] show ?thesis using other c by auto
  qed
next
  case (4 num n k s)
  obtain v' w where v: "parse_value num n k s = Some (v', w)" using "4.prems"(1) by (auto split: option.splits)
  from "4.IH"(1) [OF v "4.prems"(2)] obtain v where
    v1: "parse_value Some n k s = Some (v, w)" "v' = renum (num_text num) v" "clean_within num k v" by blast
  obtain c t where c: "skip_space w = c # t" using "4.prems"(1) v by (auto split: list.splits)
  show ?case
  proof (cases "c = CHR '']''")
    case True
    then show ?thesis using "4.prems"(1) v v1 c by auto
  next
    case False
    then have comma: "c = CHR '',''" using "4.prems"(1) v c by (auto split: if_splits)
    obtain ws where ws: "parse_elems num n k t = Some (ws, r)" "vs' = v' # ws" using "4.prems"(1) v c comma by auto
    from "4.IH"(2) [OF v refl c False comma ws(1) "4.prems"(2)] show ?thesis using v1 c comma ws(2) by auto
  qed
next
  case (6 num n k m0' s)
  obtain q t where q: "skip_space s = q # t" "byte q = 34" using "6.prems"(1) by (auto split: list.splits if_splits)
  obtain key w where st: "parse_string t = Some (key, w)" using "6.prems"(1) q by (auto split: option.splits)
  obtain u where u: "skip_space w = CHR '':'' # u" using "6.prems"(1) q st by (auto split: list.splits if_splits)
  obtain v' y where v: "parse_value num n k u = Some (v', y)" using "6.prems"(1) q st u by (auto split: option.splits)
  from "6.IH"(1) [OF q(1) _ st refl u _ v "6.prems"(2)] q(2) obtain v where
    v1: "parse_value Some n k u = Some (v, y)" "v' = renum (num_text num) v" "clean_within num k v" by auto
  obtain d x where d: "skip_space y = d # x" using "6.prems"(1) q st u v by (auto split: list.splits)
  have cl: "clean_map num k (put key v m0)" by (rule put_clean [OF "6.prems"(4) parse_string_valid [OF st] v1(3)])
  have pe: "put key v' m0' = renum_map (num_text num) (put key v m0)" using "6.prems"(3) v1(2) put_renum by simp
  show ?case
  proof (cases "d = CHR ''}''")
    case True
    then show ?thesis using "6.prems"(1) q st u v v1 d cl pe by auto
  next
    case False
    then have comma: "d = CHR '',''" using "6.prems"(1) q st u v d by (auto split: if_splits)
    have "parse_members num n k (put key v' m0') x = Some (m', r)" using "6.prems"(1) q st u v d comma by simp
    from "6.IH"(2) [OF q(1) _ st refl u _ v refl d False comma this "6.prems"(2) pe cl] q(2)
    show ?thesis using q st u v1 d comma by auto
  qed
qed auto

end
