(* ===== verification/Json_Marshal.thy ===== *)
theory Json_Marshal
  imports Json_Encode
begin

text \<open>
  \<^verbatim>\<open>encoding/json\<close> as the audit log uses it: \<open>json.Marshal\<close> (the fields of a struct in their order,
  HTML escapes), and the decoder's view of an object as the list of its members in the order of
  the text, repeated keys included, which is what decoding into a struct walks over. Decoding
  into an \<open>any\<close> (theory \<open>Json\<close>) is this followed by \<open>merge_keys\<close>; decoding what \<open>Marshal\<close> wrote
  gives the value back with every string as valid UTF-8 (\<open>sane\<close>).
\<close>

section \<open>Marshal\<close>

text \<open>\<open>appendString\<close> with \<open>escapeHTML\<close>: the bytes \<open><\<close>, \<open>>\<close> and \<open>&\<close> are escaped too.\<close>

definition marshal_rune :: "nat \<times> string \<Rightarrow> string" where
  "marshal_rune = (\<lambda>(r, w). if r \<in> {38, 60, 62} then escape_byte r else encode_string_rune (r, w))"

definition marshal_string :: "string \<Rightarrow> string" where
  "marshal_string s = [CHR 0x22] @ concat (map marshal_rune (runes s)) @ [CHR 0x22]"

fun marshal_json :: "json \<Rightarrow> string" where
  "marshal_json JNull = ''null''"
| "marshal_json (JBool b) = (if b then ''true'' else ''false'')"
| "marshal_json (JNum t) = t"
| "marshal_json (JStr s) = marshal_string s"
| "marshal_json (JStrs ss) = ''['' @ join '','' (map marshal_string ss) @ '']''"
| "marshal_json (JArr vs) = ''['' @ join '','' (map marshal_json vs) @ '']''"
| "marshal_json (JObj m) = ''{'' @ join '','' (map (\<lambda>(k, v). marshal_string k @ '':'' @ marshal_json v) m) @ ''}''"

definition marshal_member :: "string \<times> json \<Rightarrow> string" where
  "marshal_member = (\<lambda>(k, v). marshal_string k @ '':'' @ marshal_json v)"

section \<open>Members in order\<close>

fun raw_value :: "nat \<Rightarrow> nat \<Rightarrow> string \<Rightarrow> (json \<times> string) option"
and raw_elems :: "nat \<Rightarrow> nat \<Rightarrow> string \<Rightarrow> (json list \<times> string) option"
and raw_members :: "nat \<Rightarrow> nat \<Rightarrow> string \<Rightarrow> ((string \<times> json) list \<times> string) option"
where
  "raw_value 0 k s = None"
| "raw_value (Suc n) k s =
     (case skip_space s of
        [] \<Rightarrow> None
      | c # t \<Rightarrow>
          if byte c = 34 then map_option (map_prod JStr id) (parse_string t)
          else if c = CHR ''['' then
            (if maxNestingDepth \<le> k then None
             else (case skip_space t of
               [] \<Rightarrow> None
             | d # u \<Rightarrow> if d = CHR '']'' then Some (JArr [], u)
                       else map_option (map_prod JArr id) (raw_elems n (Suc k) t)))
          else if c = CHR ''{'' then
            (if maxNestingDepth \<le> k then None
             else (case skip_space t of
               [] \<Rightarrow> None
             | d # u \<Rightarrow> if d = CHR ''}'' then Some (JObj [], u)
                       else map_option (map_prod JObj id) (raw_members n (Suc k) t)))
          else parse_scalar Some (c # t))"
| "raw_elems 0 k s = None"
| "raw_elems (Suc n) k s =
     (case raw_value n k s of
        None \<Rightarrow> None
      | Some (v, r) \<Rightarrow>
          (case skip_space r of
             [] \<Rightarrow> None
           | c # t \<Rightarrow> if c = CHR '']'' then Some ([v], t)
                     else if c = CHR '','' then
                       map_option (map_prod (Cons v) id) (raw_elems n k t)
                     else None))"
| "raw_members 0 k s = None"
| "raw_members (Suc n) k s =
     (case skip_space s of
        [] \<Rightarrow> None
      | q # t \<Rightarrow>
          if byte q \<noteq> 34 then None
          else (case parse_string t of
            None \<Rightarrow> None
          | Some (key, r) \<Rightarrow>
              (case skip_space r of
                 [] \<Rightarrow> None
               | c # u \<Rightarrow>
                   if c \<noteq> CHR '':'' then None
                   else (case raw_value n k u of
                     None \<Rightarrow> None
                   | Some (v, w) \<Rightarrow>
                       (case skip_space w of
                          [] \<Rightarrow> None
                        | d # x \<Rightarrow>
                            if d = CHR ''}'' then Some ([(key, v)], x)
                            else if d = CHR '','' then
                              map_option (map_prod (Cons (key, v)) id) (raw_members n k x)
                            else None)))))"

definition decode_raw :: "string \<Rightarrow> (json \<times> string) option" where
  "decode_raw s = raw_value (value_fuel s) 0 s"

text \<open>\<open>json.Unmarshal\<close> reads the whole input, \<open>Decoder.Decode\<close> the first value of it.\<close>

definition unmarshal_raw :: "string \<Rightarrow> json option" where
  "unmarshal_raw s =
     (case decode_raw s of
        None \<Rightarrow> None
      | Some (v, r) \<Rightarrow> if skip_space r = [] then Some v else None)"

text \<open>Decoding into a map: the last of the members with one key stays.\<close>

fun merge_keys :: "json \<Rightarrow> json" where
  "merge_keys (JArr vs) = JArr (map merge_keys vs)"
| "merge_keys (JObj m) = JObj (foldl (\<lambda>acc (k, v). put k v acc) [] (map (\<lambda>(k, v). (k, merge_keys v)) m))"
| "merge_keys v = v"

text \<open>Strings as a decoder returns them: a byte that is not part of a UTF-8 sequence is U+FFFD.\<close>

definition to_valid :: "string \<Rightarrow> string" where
  "to_valid s = concat (map (\<lambda>(r, w). encode_rune r) (runes s))"

fun sane :: "json \<Rightarrow> json" where
  "sane (JStr s) = JStr (to_valid s)"
| "sane (JStrs ss) = JArr (map (\<lambda>s. JStr (to_valid s)) ss)"
| "sane (JArr vs) = JArr (map sane vs)"
| "sane (JObj m) = JObj (map (\<lambda>(k, v). (to_valid k, sane v)) m)"
| "sane v = v"

text \<open>Numbers are the literals of integers, the only numbers the log marshals.\<close>

fun sound_nums :: "json \<Rightarrow> bool" where
  "sound_nums (JNum t) \<longleftrightarrow> parse_number t = Some (t, []) \<and> (\<forall>c \<in> set t. c = CHR ''-'' \<or> is_decimal c)"
| "sound_nums (JArr vs) \<longleftrightarrow> (\<forall>v \<in> set vs. sound_nums v)"
| "sound_nums (JObj m) \<longleftrightarrow> (\<forall>(k, v) \<in> set m. sound_nums v)"
| "sound_nums v \<longleftrightarrow> True"

fun mdepth :: "json \<Rightarrow> nat" where
  "mdepth (JStrs ss) = 1"
| "mdepth (JArr vs) = Suc (fold max (map mdepth vs) 0)"
| "mdepth (JObj m) = Suc (fold max (map (\<lambda>(k, v). mdepth v) m) 0)"
| "mdepth v = 0"

section \<open>Strings\<close>

lemma decode_rune_take:
  assumes "decode_rune (c # s) = (r, n)" "\<not> (r = rune_error \<and> n = 1)"
  shows "decode_rune (take n (c # s) @ t) = (r, n)"
  using assms unfolding decode_rune_def
  by (auto simp: Let_def split: list.splits if_splits)

lemma parse_string_hex:
  assumes "r < 128" "r \<notin> {92, 34, 8, 12, 10, 13, 9}"
  shows "parse_string (escape_byte r @ t) = map_option (map_prod (append (encode_rune r)) id) (parse_string t)"
proof -
  have "r div 16 < 16" "r mod 16 < 16" "r div 16 * 16 + r mod 16 = r" using assms(1) by auto
  then have "parse_string (CHR 0x5C # CHR ''u'' # CHR ''0'' # CHR ''0'' # hex_digit (r div 16) # hex_digit (r mod 16) # t)
      = map_option (map_prod (append (encode_rune r)) id) (parse_string t)"
    using parse_string_unicode [of "CHR ''0''" 0 "CHR ''0''" 0 "hex_digit (r div 16)" "r div 16" "hex_digit (r mod 16)" "r mod 16" t] assms(1)
    by (simp add: hex_value_digit is_surrogate_def) (simp add: hex_value_def is_decimal_def)
  then show ?thesis using assms(2) by (simp add: escape_byte_def)
qed

lemma parse_escaped_units:
  "parse_string ([CHR 0x5C] @ ''u2028'' @ t) = map_option (map_prod (append (encode_rune 8232)) id) (parse_string t)"
  "parse_string ([CHR 0x5C] @ ''u2029'' @ t) = map_option (map_prod (append (encode_rune 8233)) id) (parse_string t)"
  "parse_string ([CHR 0x5C] @ ''ufffd'' @ t) = map_option (map_prod (append (encode_rune rune_error)) id) (parse_string t)"
  using parse_string_unicode [of "CHR ''2''" 2 "CHR ''0''" 0 "CHR ''2''" 2 "CHR ''8''" 8 t]
    parse_string_unicode [of "CHR ''2''" 2 "CHR ''0''" 0 "CHR ''2''" 2 "CHR ''9''" 9 t]
    parse_string_unicode [of "CHR ''f''" 15 "CHR ''f''" 15 "CHR ''f''" 15 "CHR ''d''" 13 t]
  by (simp_all add: hex_value_def is_decimal_def is_surrogate_def rune_error_def)

lemma parse_marshal_rune:
  assumes "decode_rune (c # s) = (r, n)"
  shows "parse_string (marshal_rune (r, take n (c # s)) @ t)
    = map_option (map_prod (append (encode_rune r)) id) (parse_string t)"
proof (cases "byte c < 128")
  case True
  then have r: "r = byte c" "n = 1" using assms by auto
  consider "r \<in> {38, 60, 62}" | "r < 32 \<or> r = 34 \<or> r = 92" | "32 \<le> r" "r \<notin> {34, 92, 38, 60, 62}" by (cases "r < 32") auto
  then show ?thesis
  proof cases
    case 1
    then show ?thesis using parse_string_hex [of r t] by (auto simp: marshal_rune_def)
  next
    case 2
    then show ?thesis using parse_string_escape [OF 2, of t] by (auto simp: marshal_rune_def encode_string_rune_def)
  next
    case 3
    then show ?thesis using parse_string_plain [of c t] r True by (auto simp: marshal_rune_def encode_string_rune_def)
  qed
next
  case False
  then have big: "128 \<le> r" using decode_rune_small assms by (metis fst_conv not_le)
  show ?thesis
  proof (cases "r = rune_error \<and> n = 1")
    case True
    then show ?thesis using parse_escaped_units(3) [of t] by (simp add: marshal_rune_def encode_string_rune_def rune_error_def)
  next
    case ok: False
    have w: "1 \<le> n" "n \<le> length (c # s)" using decode_rune_width [of "c # s"] assms by auto
    consider "r = 8232" | "r = 8233" | "r \<noteq> 8232" "r \<noteq> 8233" by blast
    then show ?thesis
    proof cases
      case 3
      obtain m where n: "n = Suc m" using w by (cases n) auto
      have "decode_rune (c # take m s @ t) = (r, Suc m)" using decode_rune_take [OF assms ok, of t] n by simp
      then have "parse_string (c # take m s @ t) = map_option (map_prod (append (encode_rune r)) id) (parse_string t)"
        using False w n by (simp add: parse_string.simps [of "c # take m s @ t"])
      then show ?thesis using 3 big ok n w by (auto simp: marshal_rune_def encode_string_rune_def min_def)
    qed (use parse_escaped_units [of t] in \<open>simp_all add: marshal_rune_def encode_string_rune_def rune_error_def\<close>)
  qed
qed

lemma parse_marshal_runes:
  "parse_string (concat (map marshal_rune (runes s)) @ CHR 0x22 # t) = Some (to_valid s, t)"
proof (induction s rule: runes_induct)
  case Nil
  then show ?case by (simp add: to_valid_def parse_string.simps [of "CHR 0x22 # t"])
next
  case (Cons c s)
  obtain r n where d: "decode_rune (c # s) = (r, n)" by (cases "decode_rune (c # s)")
  then show ?case using Cons parse_marshal_rune [OF d] by (simp add: runes_Cons to_valid_def)
qed

lemma parse_marshal_string: "parse_string (tl (marshal_string s) @ t) = Some (to_valid s, t)"
  using parse_marshal_runes [of s t] by (simp add: marshal_string_def)

lemma marshal_string_Cons: "marshal_string s = CHR 0x22 # tl (marshal_string s)"
  by (simp add: marshal_string_def)

lemma valid_to_valid: "valid_text (to_valid s)"
  by (rule parse_string_valid [OF parse_marshal_string])

lemma to_valid_id: "valid_text s \<Longrightarrow> to_valid s = s"
  by (auto simp: valid_text_def to_valid_def runes_encode comp_def)

lemma to_valid_idem [simp]: "to_valid (to_valid s) = to_valid s"
  by (rule to_valid_id [OF valid_to_valid])

section \<open>Values\<close>

lemma mdepth_members:
  "v \<in> set vs \<Longrightarrow> mdepth v < mdepth (JArr vs)"
  "(key, v) \<in> set m \<Longrightarrow> mdepth v < mdepth (JObj m)"
  using fold_max_le(1) [of "mdepth v" "map mdepth vs" 0]
    fold_max_le(1) [of "mdepth v" "map (\<lambda>(k, v). mdepth v) m" 0] by force+

text \<open>Reading back one value. After an object, an array or a string anything may follow.\<close>

fun self_ending :: "json \<Rightarrow> bool" where
  "self_ending (JStr s) \<longleftrightarrow> True"
| "self_ending (JStrs ss) \<longleftrightarrow> True"
| "self_ending (JArr vs) \<longleftrightarrow> True"
| "self_ending (JObj m) \<longleftrightarrow> True"
| "self_ending v \<longleftrightarrow> False"

definition raw_back :: "json \<Rightarrow> bool" where
  "raw_back v \<longleftrightarrow> (\<forall>n k r. k + mdepth v \<le> maxNestingDepth \<longrightarrow> (self_ending v \<or> stops r) \<longrightarrow> 2 * length (marshal_json v @ r) < n
     \<longrightarrow> raw_value n k (marshal_json v @ r) = Some (sane v, r))"

lemma raw_backD:
  "raw_back v \<Longrightarrow> k + mdepth v \<le> maxNestingDepth \<Longrightarrow> self_ending v \<or> stops r \<Longrightarrow> 2 * length (marshal_json v @ r) < n \<Longrightarrow>
     raw_value n k (marshal_json v @ r) = Some (sane v, r)"
  unfolding raw_back_def by blast

lemma raw_elems_marshal:
  assumes "vs \<noteq> []" "\<forall>v \<in> set vs. raw_back v \<and> k + mdepth v \<le> maxNestingDepth"
    "Suc (2 * length (join '','' (map marshal_json vs) @ CHR '']'' # r)) < n"
  shows "raw_elems n k (join '','' (map marshal_json vs) @ CHR '']'' # r) = Some (map sane vs, r)"
  using assms
proof (induction vs arbitrary: n)
  case (Cons v vs)
  obtain p where p: "n = Suc p" using Cons.prems(3) by (cases n) auto
  show ?case
  proof (cases "vs = []")
    case True
    then have "raw_value p k (marshal_json v @ CHR '']'' # r) = Some (sane v, CHR '']'' # r)"
      using Cons.prems p by (intro raw_backD) auto
    then show ?thesis using True p by simp
  next
    case False
    let ?rest = "join '','' (map marshal_json vs) @ CHR '']'' # r"
    have j: "join '','' (map marshal_json (v # vs)) @ CHR '']'' # r = marshal_json v @ CHR '','' # ?rest"
      using False by (simp add: join_Cons)
    have "raw_value p k (marshal_json v @ CHR '','' # ?rest) = Some (sane v, CHR '','' # ?rest)"
      using Cons.prems(2,3) p j by (intro raw_backD) auto
    moreover have "raw_elems p k ?rest = Some (map sane vs, r)"
      using Cons.prems(2,3) p j False by (intro Cons.IH) auto
    ultimately show ?thesis using p unfolding j by simp
  qed
qed simp

lemma raw_members_one:
  assumes "raw_back v" "k + mdepth v \<le> maxNestingDepth" "stops r"
    "Suc (2 * length (marshal_member (key, v) @ r)) < n" "n = Suc p"
  shows "raw_members n k (marshal_member (key, v) @ r) =
    (case skip_space r of [] \<Rightarrow> None
     | d # x \<Rightarrow> if d = CHR ''}'' then Some ([(to_valid key, sane v)], x)
               else if d = CHR '','' then map_option (map_prod (Cons (to_valid key, sane v)) id) (raw_members p k x)
               else None)"
proof -
  have e: "marshal_member (key, v) @ r = CHR 0x22 # tl (marshal_string key) @ CHR '':'' # marshal_json v @ r"
    using marshal_string_Cons [of key] by (simp add: marshal_member_def)
  have s: "parse_string (tl (marshal_string key) @ CHR '':'' # marshal_json v @ r)
      = Some (to_valid key, CHR '':'' # marshal_json v @ r)"
    by (rule parse_marshal_string)
  have "2 * length (marshal_json v @ r) < p" using assms(4,5) by (simp add: e)
  then have "raw_value p k (marshal_json v @ r) = Some (sane v, r)"
    using assms(1-3) by (intro raw_backD) auto
  then show ?thesis unfolding e assms(5) by (simp add: s)
qed

lemma raw_members_marshal:
  assumes "kvs \<noteq> []" "\<forall>(key, v) \<in> set kvs. raw_back v \<and> k + mdepth v \<le> maxNestingDepth"
    "Suc (2 * length (join '','' (map marshal_member kvs) @ CHR ''}'' # r)) < n"
  shows "raw_members n k (join '','' (map marshal_member kvs) @ CHR ''}'' # r)
    = Some (map (\<lambda>(key, v). (to_valid key, sane v)) kvs, r)"
  using assms
proof (induction kvs arbitrary: n)
  case (Cons kv kvs)
  obtain p where p: "n = Suc p" using Cons.prems(3) by (cases n) auto
  obtain key v where kv: "kv = (key, v)" by (cases kv)
  have h: "raw_back v" "k + mdepth v \<le> maxNestingDepth" using Cons.prems(2) kv by auto
  show ?case
  proof (cases "kvs = []")
    case True
    then show ?thesis
      using raw_members_one [OF h, of "CHR ''}'' # r" key n p] Cons.prems(3) p kv by simp
  next
    case False
    let ?rest = "join '','' (map marshal_member kvs) @ CHR ''}'' # r"
    have j: "join '','' (map marshal_member (kv # kvs)) @ CHR ''}'' # r = marshal_member (key, v) @ CHR '','' # ?rest"
      using False kv by (simp add: join_Cons)
    have "raw_members p k ?rest = Some (map (\<lambda>(key, v). (to_valid key, sane v)) kvs, r)"
      using Cons.prems p kv False j by (intro Cons.IH) auto
    then show ?thesis
      using raw_members_one [OF h, of "CHR '','' # ?rest" key n p] Cons.prems(3) p kv unfolding j by simp
  qed
qed simp

lemma raw_value_scalar:
  "skip_space s = c # t \<Longrightarrow> byte c \<noteq> 34 \<Longrightarrow> c \<noteq> CHR ''['' \<Longrightarrow> c \<noteq> CHR ''{'' \<Longrightarrow> 0 < n \<Longrightarrow>
     raw_value n k s = parse_scalar Some (c # t)"
  by (cases n) auto

lemma marshal_json_first:
  "sound_nums v \<Longrightarrow> \<exists>c u. marshal_json v = c # u \<and> \<not> json_space c \<and> c \<noteq> CHR '']'' \<and> c \<noteq> CHR ''}''"
proof (cases v)
  case (JNum t)
  assume "sound_nums v"
  then have "parse_number t = Some (t, [])" using JNum by simp
  then have "t \<noteq> []" "hd t = CHR ''-'' \<or> is_decimal (hd t)" using parse_number_head by auto
  then show ?thesis using JNum by (cases t) (auto simp: json_space_def is_decimal_def)
qed (auto simp: marshal_string_def json_space_def)

lemma raw_back_str: "raw_back (JStr s)"
  unfolding raw_back_def
proof (intro allI impI)
  fix n k r assume n: "2 * length (marshal_json (JStr s) @ r) < n"
  then obtain p where "n = Suc p" by (cases n) auto
  moreover obtain q where q: "marshal_string s = CHR 0x22 # q" using marshal_string_Cons [of s] by blast
  ultimately show "raw_value n k (marshal_json (JStr s) @ r) = Some (sane (JStr s), r)"
    using parse_marshal_string [of s r] by (simp add: q)
qed

lemma raw_back_arr:
  assumes "\<forall>v \<in> set vs. raw_back v \<and> sound_nums v"
  shows "raw_back (JArr vs)"
  unfolding raw_back_def
proof (intro allI impI)
  fix n k r assume k: "k + mdepth (JArr vs) \<le> maxNestingDepth" and n: "2 * length (marshal_json (JArr vs) @ r) < n"
  obtain p where p: "n = Suc p" using n by (cases n) auto
  show "raw_value n k (marshal_json (JArr vs) @ r) = Some (sane (JArr vs), r)"
  proof (cases "vs = []")
    case True
    then show ?thesis using p k by simp
  next
    case False
    let ?body = "join '','' (map marshal_json vs) @ CHR '']'' # r"
    have d: "\<forall>v \<in> set vs. raw_back v \<and> Suc k + mdepth v \<le> maxNestingDepth"
      using assms k mdepth_members(1) by fastforce
    have "sound_nums (hd vs)" using assms False by simp
    from marshal_json_first [OF this] obtain c u where c: "marshal_json (hd vs) = c # u" "\<not> json_space c" "c \<noteq> CHR '']''" by blast
    then obtain w where b: "?body = c # w" using False by (cases vs; cases "tl vs") (auto simp: join_Cons)
    have sk: "skip_space ?body = c # w" using b c(2) by (simp add: skip_space_def)
    have "raw_elems p (Suc k) ?body = Some (map sane vs, r)"
      using raw_elems_marshal [OF False d, of r p] n p by simp
    then show ?thesis using p k sk c(3) by simp
  qed
qed

lemma raw_back_obj:
  assumes "\<forall>(key, v) \<in> set m. raw_back v"
  shows "raw_back (JObj m)"
  unfolding raw_back_def
proof (intro allI impI)
  fix n k r assume k: "k + mdepth (JObj m) \<le> maxNestingDepth" and n: "2 * length (marshal_json (JObj m) @ r) < n"
  have enc: "marshal_json (JObj m) = ''{'' @ join '','' (map marshal_member m) @ ''}''" by (simp add: marshal_member_def)
  obtain p where p: "n = Suc p" using n by (cases n) auto
  show "raw_value n k (marshal_json (JObj m) @ r) = Some (sane (JObj m), r)"
  proof (cases "m = []")
    case True
    then show ?thesis using p k unfolding enc by simp
  next
    case False
    let ?body = "join '','' (map marshal_member m) @ CHR ''}'' # r"
    have d: "\<forall>(key, v) \<in> set m. raw_back v \<and> Suc k + mdepth v \<le> maxNestingDepth"
      using assms k mdepth_members(2) by fastforce
    obtain w where b: "?body = CHR 0x22 # w"
      using False by (cases m; cases "tl m") (auto simp: join_Cons marshal_member_def marshal_string_def split: prod.splits)
    have "raw_members p (Suc k) ?body = Some (map (\<lambda>(key, v). (to_valid key, sane v)) m, r)"
      using raw_members_marshal [OF False d, of r p] n [unfolded enc] p by simp
    then show ?thesis using p k b unfolding enc by simp
  qed
qed

lemma raw_back_strs: "raw_back (JStrs ss)"
proof -
  have "raw_back (JArr (map JStr ss))" by (rule raw_back_arr) (auto simp: raw_back_str)
  moreover have "marshal_json (JArr (map JStr ss)) = marshal_json (JStrs ss)" by (simp add: comp_def)
  moreover have "sane (JArr (map JStr ss)) = sane (JStrs ss)" by simp
  moreover have "mdepth (JArr (map JStr ss)) = mdepth (JStrs ss)"
    using fold_max_bound [of "map mdepth (map JStr ss)" 0 0] by auto
  ultimately show ?thesis unfolding raw_back_def by (simp del: marshal_json.simps sane.simps mdepth.simps)
qed

lemma marshal_raw_back: "sound_nums v \<Longrightarrow> raw_back v"
proof (induction v rule: marshal_json.induct)
  case 1
  then show ?case by (auto simp: raw_back_def raw_value_scalar [of _ "CHR ''n''"] skip_space_def json_space_def parse_scalar_def)
next
  case (2 b)
  then show ?case
    by (cases b) (auto simp: raw_back_def raw_value_scalar [of _ "CHR ''t''"] raw_value_scalar [of _ "CHR ''f''"]
        skip_space_def json_space_def parse_scalar_def)
next
  case (3 t)
  then have t: "parse_number t = Some (t, [])" by simp
  obtain c u where c: "t = c # u" "\<not> json_space c" "byte c \<noteq> 34" "c \<noteq> CHR ''[''" "c \<noteq> CHR ''{''"
    by (rule number_first [OF t])
  then have "skip_space (t @ r) = c # u @ r" for r by (simp add: skip_space_def)
  then have "raw_value n k (t @ r) = Some (JNum t, r)" if "0 < n" "stops r" for n k r
    using raw_value_scalar [OF _ c(3-5) that(1)] parse_scalar_number [of t Some t r, OF t _ that(2)] c(1) by simp
  then show ?case by (auto simp: raw_back_def)
next
  case (7 m)
  then show ?case by (intro raw_back_obj) auto
qed (auto intro: raw_back_str raw_back_strs raw_back_arr)

lemma decode_raw_marshal:
  assumes "sound_nums v" "mdepth v \<le> maxNestingDepth" "self_ending v \<or> stops r"
  shows "decode_raw (marshal_json v @ r) = Some (sane v, r)"
  unfolding decode_raw_def using assms by (intro raw_backD marshal_raw_back) (auto simp: value_fuel_def)

lemma unmarshal_marshal:
  "sound_nums v \<Longrightarrow> mdepth v \<le> maxNestingDepth \<Longrightarrow> unmarshal_raw (marshal_json v) = Some (sane v)"
  using decode_raw_marshal [of v "[]"] by (simp add: unmarshal_raw_def)

section \<open>Members and maps\<close>

abbreviation merge_from :: "(string \<times> json) list \<Rightarrow> (string \<times> json) list \<Rightarrow> (string \<times> json) list" where
  "merge_from acc m \<equiv> foldl (\<lambda>acc (k, v). put k v acc) acc (map (\<lambda>(k, v). (k, merge_keys v)) m)"

lemma merge_keys_scalar: "parse_scalar Some s = map_option (map_prod merge_keys id) (parse_scalar Some s)"
  by (auto simp: parse_scalar_def split: option.splits)

lemma map_fst_comp:
  "map_option (map_prod f id) (map_option (map_prod g id) x) = map_option (map_prod (f \<circ> g) id) x"
  by (cases x) auto

lemma merge_keys_comp:
  "merge_keys \<circ> JStr = JStr" "merge_keys \<circ> JArr = JArr \<circ> map merge_keys" "merge_keys \<circ> JObj = JObj \<circ> merge_from []"
  "map merge_keys \<circ> Cons v = Cons (merge_keys v) \<circ> map merge_keys"
  "merge_from acc \<circ> Cons (k, v) = merge_from (put k (merge_keys v) acc)"
  by (simp_all add: fun_eq_iff)

lemma parse_raw:
  "parse_value Some n k s = map_option (map_prod merge_keys id) (raw_value n k s)"
  "parse_elems Some n k s = map_option (map_prod (map merge_keys) id) (raw_elems n k s)"
  "parse_members Some n k m s = map_option (map_prod (merge_from m) id) (raw_members n k s)"
proof (induction n k s and n k s and n k s arbitrary: and and m rule: raw_value_raw_elems_raw_members.induct)
  case (2 n k s)
  show ?case
  proof (cases "skip_space s")
    case (Cons c t)
    show ?thesis using 2 [OF Cons] Cons
      by (simp add: id_def map_fst_comp [unfolded id_def] merge_keys_comp merge_keys_scalar [unfolded id_def, symmetric] split: list.split)
  qed simp
next
  case (4 n k s)
  then show ?case by (auto simp: id_def map_fst_comp [unfolded id_def] merge_keys_comp split: option.split list.split)
next
  case (6 n k s)
  show ?case
  proof (cases "skip_space s")
    case (Cons q t)
    show ?thesis
    proof (cases "parse_string t")
      case (Some kr)
      obtain key r where kr: "kr = (key, r)" by (cases kr)
      show ?thesis
      proof (cases "byte q = 34")
        case True
        then show ?thesis using 6 [OF Cons _ Some [unfolded kr]] Cons Some kr
          by (auto simp: id_def map_fst_comp [unfolded id_def] merge_keys_comp split: option.split list.split)
      qed (simp add: Cons)
    qed (simp add: Cons)
  qed simp
qed simp_all

lemma decode_value_raw: "decode_value Some s = map_option (map_prod merge_keys id) (decode_raw s)"
  by (simp add: decode_value_def decode_raw_def parse_raw)

text \<open>Objects without repeated keys, at every level.\<close>

fun distinct_keys :: "json \<Rightarrow> bool" where
  "distinct_keys (JArr vs) \<longleftrightarrow> (\<forall>v \<in> set vs. distinct_keys v)"
| "distinct_keys (JObj m) \<longleftrightarrow> distinct (go_keys m) \<and> (\<forall>(k, v) \<in> set m. distinct_keys v)"
| "distinct_keys v \<longleftrightarrow> True"

lemma foldl_put_new:
  "distinct (go_keys m) \<Longrightarrow> set (go_keys acc) \<inter> set (go_keys m) = {} \<Longrightarrow> foldl (\<lambda>acc (k, v). put k v acc) acc m = acc @ m"
proof (induction m arbitrary: acc)
  case (Cons kv m)
  obtain k v where kv: "kv = (k, v)" by (cases kv)
  have "put k v acc = acc @ [(k, v)]" using Cons.prems kv by (intro put_new) auto
  then show ?case using Cons.prems Cons.IH [of "acc @ [(k, v)]"] kv by auto
qed simp

lemma merge_keys_distinct: "distinct_keys v \<Longrightarrow> merge_keys v = v"
proof (induction v rule: merge_keys.induct)
  case (1 vs)
  then show ?case by (auto intro: map_idI)
next
  case (2 m)
  have "(case x of (k, v) \<Rightarrow> (k, merge_keys v)) = x" if "x \<in> set m" for x
    using 2(1) [OF that] 2(2) that by (cases x) auto
  then have "map (\<lambda>(k, v). (k, merge_keys v)) m = m" by (simp add: map_idI)
  then show ?case using foldl_put_new [of m "[]"] 2(2) by simp
qed simp_all

lemma decode_value_marshal:
  assumes "sound_nums v" "mdepth v \<le> maxNestingDepth" "distinct_keys (sane v)" "self_ending v \<or> stops r"
  shows "decode_value Some (marshal_json v @ r) = Some (sane v, r)"
  using decode_raw_marshal [OF assms(1,2,4)] merge_keys_distinct [OF assms(3)] by (simp add: decode_value_raw)

text \<open>A marshalled value decoded again is a value the encoder's round trip applies to.\<close>

lemma sane_clean: "sound_nums v \<Longrightarrow> distinct_keys (sane v) \<Longrightarrow> clean Some (sane v)"
proof (induction v rule: sane.induct)
  case (4 m)
  then show ?case by (fastforce simp: wf_map_def valid_to_valid comp_def split_beta)
qed (auto simp: valid_to_valid)

lemma sane_depth: "json_depth (sane v) = mdepth v"
proof (induction v rule: sane.induct)
  case (2 ss)
  then show ?case using fold_max_bound [of "map json_depth (map (\<lambda>s. JStr (to_valid s)) ss)" 0 0] by auto
next
  case (3 vs)
  then show ?case by (simp add: comp_def cong: map_cong)
next
  case (4 m)
  then have "map (\<lambda>(k, v). json_depth v) (map (\<lambda>(k, v). (to_valid k, sane v)) m) = map (\<lambda>(k, v). mdepth v) m" by auto
  then show ?case by (simp only: sane.simps json_depth.simps mdepth.simps)
qed simp_all

lemma canon_num_text: "num_text Some = id"
  by (simp add: num_text_def fun_eq_iff)

text \<open>The canonical text of a decoded value determines it up to the order of the keys.\<close>

lemma encode_json_inj:
  assumes "clean Some v" "clean Some w" "json_depth v \<le> maxNestingDepth" "json_depth w \<le> maxNestingDepth"
    "encode_json v = encode_json w"
  shows "canon id v = canon id w"
proof -
  have "parse_value Some (Suc (2 * length (encode_json v))) 0 (encode_json v @ []) = Some (canon (num_text Some) v, [])"
    using assms by (intro reads_backD clean_reads_back) auto
  moreover have "parse_value Some (Suc (2 * length (encode_json w))) 0 (encode_json w @ []) = Some (canon (num_text Some) w, [])"
    using assms by (intro reads_backD clean_reads_back) auto
  ultimately show ?thesis using assms(5) by (simp add: canon_num_text)
qed

lemma to_valid_ascii: "is_ascii s \<Longrightarrow> to_valid s = s"
  by (induction s) (auto simp: to_valid_def runes_ascii is_ascii_def comp_def)

section \<open>One line\<close>

text \<open>\<open>Marshal\<close> writes no control byte.\<close>

lemma escape_byte_bytes: "r < 128 \<Longrightarrow> x \<in> set (escape_byte r) \<Longrightarrow> 32 \<le> byte x"
  by (auto simp: escape_byte_def hex_digit_def div_less_iff_less_mult split: if_splits)

lemma marshal_rune_bytes:
  assumes "decode_rune (c # s) = (r, n)" "x \<in> set (marshal_rune (r, take n (c # s)))"
  shows "32 \<le> byte x"
proof (cases "n = 1")
  case True
  show ?thesis
  proof (cases "r < 128")
    case r: True
    then have "r = byte c" using decode_rune_small [OF assms(1)] by simp
    then show ?thesis using assms(2) True r escape_byte_bytes [OF r]
      by (auto simp: marshal_rune_def encode_string_rune_def split: if_splits)
  next
    case False
    then have "128 \<le> byte c" using assms(1) decode_rune_ascii [of c s] by fastforce
    then show ?thesis using assms(2) True False
      by (auto simp: marshal_rune_def encode_string_rune_def split: if_splits)
  qed
next
  case False
  then have "128 \<le> r" using decode_rune_small [OF assms(1)] by force
  moreover have "x \<in> set (take n (c # s)) \<Longrightarrow> 32 \<le> byte x" using decode_rune_multi [OF assms(1) False] by fastforce
  ultimately show ?thesis using assms(2)
    by (auto simp: marshal_rune_def encode_string_rune_def split: if_splits)
qed

lemma marshal_string_bytes: "x \<in> set (marshal_string s) \<Longrightarrow> 32 \<le> byte x"
proof -
  have "x \<in> set (concat (map marshal_rune (runes s))) \<Longrightarrow> 32 \<le> byte x"
  proof (induction s rule: runes_induct)
    case (Cons c s)
    then show ?case using marshal_rune_bytes [of c s "fst (decode_rune (c # s))" "snd (decode_rune (c # s))" x]
      by (auto simp: runes_Cons)
  qed simp
  then show "x \<in> set (marshal_string s) \<Longrightarrow> 32 \<le> byte x" by (auto simp: marshal_string_def)
qed

lemma join_bytes: "x \<in> set (join sep ws) \<Longrightarrow> x \<in> set sep \<or> (\<exists>w \<in> set ws. x \<in> set w)"
  by (induction sep ws rule: join.induct) auto

lemma marshal_json_bytes: "sound_nums v \<Longrightarrow> x \<in> set (marshal_json v) \<Longrightarrow> 32 \<le> byte x"
proof (induction v rule: marshal_json.induct)
  case (5 ss)
  then have "x \<in> set (join '','' (map marshal_string ss)) \<or> 32 \<le> byte x" by auto
  then show ?case using join_bytes marshal_string_bytes by fastforce
next
  case (6 vs)
  then have "x \<in> set (join '','' (map marshal_json vs)) \<or> 32 \<le> byte x" by auto
  then show ?case using join_bytes [of x "'',''"] 6 by fastforce
next
  case (7 m)
  then have "x \<in> set (join '','' (map marshal_member m)) \<or> 32 \<le> byte x" by (auto simp: marshal_member_def)
  then consider k v where "(k, v) \<in> set m" "x \<in> set (marshal_member (k, v))" | "32 \<le> byte x"
    using join_bytes [of x "'',''" "map marshal_member m"] by fastforce
  then show ?case
  proof cases
    case 1
    then have "x \<in> set (marshal_string k) \<or> x = CHR '':'' \<or> x \<in> set (marshal_json v)" by (auto simp: marshal_member_def)
    then show ?thesis using 7 1(1) marshal_string_bytes [of x k] by fastforce
  qed
next
  case (2 b)
  then show ?case by (cases b) auto
next
  case (3 t)
  then have "x = CHR ''-'' \<or> is_decimal x" unfolding sound_nums.simps marshal_json.simps by blast
  then show ?case by (auto simp: is_decimal_def)
next
  case (4 s)
  then show ?case using marshal_string_bytes by simp
qed auto

end
