(* ===== verification/Proxy_Sanitize.thy ===== *)
theory Proxy_Sanitize
  imports Json_Marshal
begin

text \<open>
  \<^verbatim>\<open>internal/proxy/sanitize.go\<close>, first part: the escaping of an upstream's text before it reaches a terminal,
  a log or the agent, and the error relayed to the agent. Package \<^verbatim>\<open>unicode\<close>'s tables Cf, Zl and Zp are
  written out (Unicode 15).
\<close>

section \<open>Control characters\<close>

definition format_ranges :: "(nat \<times> nat) list" where
  "format_ranges =
     [(173, 173), (1536, 1541), (1564, 1564), (1757, 1757), (1807, 1807), (2192, 2193), (2274, 2274), (6158, 6158),
      (8203, 8207), (8234, 8238), (8288, 8292), (8294, 8303), (65279, 65279), (65529, 65531), (69821, 69821),
      (69837, 69837), (78896, 78911), (113824, 113827), (119155, 119162), (917505, 917505), (917536, 917631)]"

definition is_format :: "nat \<Rightarrow> bool" where
  "is_format r \<longleftrightarrow> list_ex (\<lambda>(a, b). a \<le> r \<and> r \<le> b) format_ranges"

definition isControl :: "nat \<Rightarrow> bool" where
  "isControl r \<longleftrightarrow> r < 32 \<or> r = 127 \<or> (128 \<le> r \<and> r \<le> 159) \<or> is_format r \<or> r = 8232 \<or> r = 8233"

text \<open>\<^verbatim>\<open>%04x\<close>.\<close>

fun hex_text :: "nat \<Rightarrow> string" where
  "hex_text n = (if n < 16 then [hex_digit n] else hex_text (n div 16) @ [hex_digit (n mod 16)])"

declare hex_text.simps [simp del]

definition hex4 :: "nat \<Rightarrow> string" where
  "hex4 n = (let t = hex_text n in replicate (4 - length t) (CHR ''0'') @ t)"

definition escape_piece :: "nat \<times> string \<Rightarrow> string" where
  "escape_piece = (\<lambda>(r, w).
     if r = rune_error \<and> length w = 1 then [CHR 0x5C] @ ''ufffd''
     else if r = 92 then [CHR 0x5C, CHR 0x5C]
     else if isControl r then [CHR 0x5C, CHR ''u''] @ hex4 r
     else w)"

fun escape_pieces :: "nat \<Rightarrow> string \<Rightarrow> string list \<Rightarrow> string" where
  "escape_pieces limit acc [] = acc"
| "escape_pieces limit acc (p # ps) =
     (if 0 < limit \<and> limit < length acc + length p then acc @ ''...''
      else escape_pieces limit (acc @ p) ps)"

definition escapeControl :: "string \<Rightarrow> nat \<Rightarrow> string" where
  "escapeControl s limit = escape_pieces limit [] (map escape_piece (runes s))"

section \<open>Relayed errors\<close>

record rpc_error =
  re_code :: int
  re_message :: string

definition maxRelayedMessage :: nat where "maxRelayedMessage = 512"

definition relayed_codes :: "int list" where
  "relayed_codes = [-32700, -32600, -32601, -32603]"

text \<open>\<open>redact\<close> is the upstream's redactor.\<close>

definition relayUpstreamError :: "(string \<Rightarrow> string) \<Rightarrow> string \<Rightarrow> rpc_error \<Rightarrow> rpc_error" where
  "relayUpstreamError redact server e =
     \<lparr>re_code = (if re_code e \<in> set relayed_codes then re_code e else -32603),
      re_message = ''upstream '' @ server @ '': '' @ escapeControl (redact (re_message e)) maxRelayedMessage\<rparr>"

section \<open>Runes of escaped text\<close>

text \<open>Text in which every rune is valid and no rune is a control character.\<close>

definition safe_rune :: "nat \<times> string \<Rightarrow> bool" where
  "safe_rune = (\<lambda>(r, w). \<not> isControl r \<and> \<not> (r = rune_error \<and> length w = 1))"

definition safe_text :: "string \<Rightarrow> bool" where
  "safe_text s \<longleftrightarrow> list_all safe_rune (runes s)"

lemma runes_take:
  assumes "decode_rune (c # s) = (r, n)" "\<not> (r = rune_error \<and> n = 1)"
  shows "runes (take n (c # s) @ t) = (r, take n (c # s)) # runes t"
proof -
  have n: "1 \<le> n" "n \<le> length (c # s)" using decode_rune_width [of "c # s"] assms(1) by auto
  then obtain m where m: "n = Suc m" by (cases n) auto
  have "decode_rune (c # take m s @ t) = (r, Suc m)" using decode_rune_take [OF assms, of t] m by simp
  then show ?thesis using n m by (simp add: runes_Cons)
qed

lemma runes_ascii_append: "is_ascii s \<Longrightarrow> runes (s @ t) = map (\<lambda>c. (byte c, [c])) s @ runes t"
  by (induction s) (simp_all add: runes_Cons)

lemma ascii_safe: "32 \<le> byte c \<Longrightarrow> byte c < 127 \<Longrightarrow> safe_rune (byte c, [c])"
proof -
  assume b: "32 \<le> byte c" "byte c < 127"
  then have "\<not> is_format (byte c)" by (simp add: is_format_def format_ranges_def)
  then show ?thesis using b by (simp add: safe_rune_def isControl_def rune_error_def)
qed

definition printable :: "string \<Rightarrow> bool" where
  "printable s \<longleftrightarrow> list_all (\<lambda>c. 32 \<le> byte c \<and> byte c < 127) s"

lemma safe_printable_append: "printable p \<Longrightarrow> safe_text (p @ t) \<longleftrightarrow> safe_text t"
proof -
  assume p: "printable p"
  then have "is_ascii p" by (auto simp: printable_def is_ascii_def list_all_iff)
  moreover have "list_all safe_rune (map (\<lambda>c. (byte c, [c])) p)" using p ascii_safe by (auto simp: printable_def list_all_iff)
  ultimately show ?thesis by (simp add: safe_text_def runes_ascii_append)
qed

lemma hex_text_printable: "printable (hex_text n)"
  by (induction n rule: hex_text.induct, subst hex_text.simps) (auto simp: printable_def hex_digit_def)

lemma hex4_printable: "printable (hex4 n)"
  using hex_text_printable [of n] by (auto simp: hex4_def Let_def printable_def list_all_iff)

lemma escape_piece_append:
  assumes "decode_rune (c # s) = (r, n)"
  shows "safe_text (escape_piece (r, take n (c # s)) @ t) \<longleftrightarrow> safe_text t"
proof -
  let ?w = "take n (c # s)"
  have n: "1 \<le> n" "n \<le> length (c # s)" using decode_rune_width [of "c # s"] assms by auto
  then have len: "length ?w = n" by simp
  consider "r = rune_error \<and> length ?w = 1" | "\<not> (r = rune_error \<and> length ?w = 1)" "r = 92"
    | "\<not> (r = rune_error \<and> length ?w = 1)" "r \<noteq> 92" "isControl r"
    | "\<not> (r = rune_error \<and> length ?w = 1)" "r \<noteq> 92" "\<not> isControl r" by blast
  then show ?thesis
  proof cases
    case 1
    then have "escape_piece (r, ?w) = [CHR 0x5C] @ ''ufffd''" by (simp only: escape_piece_def prod.case if_True simp_thms)
    then show ?thesis using safe_printable_append [of "[CHR 0x5C] @ ''ufffd''" t] by (simp add: printable_def)
  next
    case 2
    then have "escape_piece (r, ?w) = [CHR 0x5C, CHR 0x5C]" by (simp only: escape_piece_def prod.case if_True if_False simp_thms)
    then show ?thesis using safe_printable_append [of "[CHR 0x5C, CHR 0x5C]" t] by (simp add: printable_def)
  next
    case 3
    then have "escape_piece (r, ?w) = [CHR 0x5C, CHR ''u''] @ hex4 r" by (simp only: escape_piece_def prod.case if_True if_False simp_thms)
    then show ?thesis using safe_printable_append [of "[CHR 0x5C, CHR ''u''] @ hex4 r" t] hex4_printable [of r] by (simp add: printable_def)
  next
    case 4
    then have "escape_piece (r, ?w) = ?w" by (simp only: escape_piece_def prod.case if_False)
    moreover have "runes (?w @ t) = (r, ?w) # runes t" using runes_take [OF assms] 4(1) len by simp
    ultimately show ?thesis using 4 by (simp add: safe_text_def safe_rune_def)
  qed
qed

text \<open>The pieces that fit, and the mark of a cut.\<close>

lemma escape_pieces_form:
  "\<exists>k. escape_pieces limit acc ps = acc @ concat (take k ps) @ (if k < length ps then ''...'' else [])"
proof (induction limit acc ps rule: escape_pieces.induct)
  case (2 limit acc p ps)
  show ?case
  proof (cases "0 < limit \<and> limit < length acc + length p")
    case True
    then show ?thesis by (intro exI [of _ 0]) simp
  next
    case False
    with 2 obtain k where "escape_pieces limit (acc @ p) ps = (acc @ p) @ concat (take k ps) @ (if k < length ps then ''...'' else [])" by blast
    then show ?thesis using False by (intro exI [of _ "Suc k"]) auto
  qed
qed simp

lemma escape_pieces_length:
  "0 < limit \<Longrightarrow> length acc \<le> limit \<Longrightarrow> length (escape_pieces limit acc ps) \<le> limit + 3"
  by (induction limit acc ps rule: escape_pieces.induct) auto

lemma escape_pieces_all: "escape_pieces 0 acc ps = acc @ concat ps"
  by (induction ps arbitrary: acc) simp_all

lemma safe_pieces: "safe_text t \<Longrightarrow> safe_text (concat (take k (map escape_piece (runes s))) @ t)"
proof (induction s arbitrary: k rule: runes_induct)
  case (Cons c s)
  obtain r n where d: "decode_rune (c # s) = (r, n)" by (cases "decode_rune (c # s)")
  show ?case using Cons escape_piece_append [OF d] d by (cases k) (simp_all add: runes_Cons)
qed simp

lemma escapeControl_safe: "safe_text (escapeControl s limit)"
proof -
  obtain k where "escapeControl s limit = concat (take k (map escape_piece (runes s))) @ (if k < length (map escape_piece (runes s)) then ''...'' else [])"
    using escape_pieces_form [of limit "[]" "map escape_piece (runes s)"] by (auto simp: escapeControl_def)
  moreover have "safe_text (if k < length (map escape_piece (runes s)) then ''...'' else [])"
    using safe_printable_append [of "''...''" "[]"] by (simp add: printable_def safe_text_def)
  ultimately show ?thesis using safe_pieces by simp
qed

lemma safe_text_escape_id:
  "list_all (\<lambda>(r, w). r \<noteq> 92 \<and> safe_rune (r, w)) (runes s) \<Longrightarrow> escapeControl s 0 = s"
proof -
  assume "list_all (\<lambda>(r, w). r \<noteq> 92 \<and> safe_rune (r, w)) (runes s)"
  then have "map escape_piece (runes s) = map snd (runes s)"
    by (auto simp: list_all_iff safe_rune_def escape_piece_def)
  then show ?thesis by (simp only: escapeControl_def escape_pieces_all concat_runes append.simps)
qed



end
