(* ===== verification/Proxy_Scrub.thy ===== *)
theory Proxy_Scrub
  imports Proxy_Sanitize
begin

text \<open>
  \<^verbatim>\<open>internal/proxy/scrub.go\<close>: the values an operator passes to an upstream, the forms they take in its output,
  and the scrubber that replaces them in a byte stream, however the stream is cut into writes.
  \<open>printable\<close> of package \<^verbatim>\<open>unicode\<close> (which runes \<open>strconv.Quote\<close> shows) is an argument of the forms.
  The scrubber's loop is given fuel, because with an empty value it would not end.
\<close>

section \<open>Secrets and markers\<close>

definition MinSecretLen :: nat where "MinSecretLen = 4"

record secret =
  se_name :: string
  se_value :: "string option"

definition NewSecret :: "string \<Rightarrow> string \<Rightarrow> secret" where
  "NewSecret name value = \<lparr>se_name = name, se_value = Some value\<rparr>"

definition secret_val :: "secret \<Rightarrow> string" where
  "secret_val s = (case se_value s of None \<Rightarrow> [] | Some v \<Rightarrow> v)"

definition secret_string :: "secret \<Rightarrow> string" where
  "secret_string s = ''[redacted:'' @ se_name s @ '']''"

section \<open>The scrubber\<close>

record scrub_value =
  sv_value :: string
  sv_marker :: string

text \<open>What the inner loop over the values decides at one position of the data.\<close>

datatype scan = Replace string nat | Wait | EndMarker string | Keep

fun scan_values :: "bool \<Rightarrow> scrub_value list \<Rightarrow> string \<Rightarrow> scan" where
  "scan_values final [] rest = Keep"
| "scan_values final (v # vs) rest =
     (if length (sv_value v) \<le> length rest then
        (if prefix (sv_value v) rest then Replace (sv_marker v) (length (sv_value v))
         else scan_values final vs rest)
      else if prefix rest (sv_value v) then
        (if final then
           (if MinSecretLen \<le> length rest then EndMarker (sv_marker v) else scan_values final vs rest)
         else Wait)
      else scan_values final vs rest)"

text \<open>The outer loop: what is released, and what is held back. \<open>None\<close> when the fuel runs out.\<close>

fun scrub_loop :: "nat \<Rightarrow> bool \<Rightarrow> scrub_value list \<Rightarrow> string \<Rightarrow> (string \<times> string) option" where
  "scrub_loop 0 final vs rest = None"
| "scrub_loop (Suc n) final vs rest =
     (case rest of
        [] \<Rightarrow> Some ([], [])
      | c # rest' \<Rightarrow>
          (case scan_values final vs rest of
             Replace m k \<Rightarrow> map_option (map_prod (append m) id) (scrub_loop n final vs (drop k rest))
           | Wait \<Rightarrow> Some ([], rest)
           | EndMarker m \<Rightarrow> Some (m, [])
           | Keep \<Rightarrow> map_option (map_prod (Cons c) id) (scrub_loop n final vs rest')))"

record scrubber =
  sc_secrets :: "scrub_value list"
  sc_pending :: string

definition scrub_write :: "scrubber \<Rightarrow> string \<Rightarrow> bool \<Rightarrow> (string \<times> scrubber) option" where
  "scrub_write s p final =
     (let data = sc_pending s @ p in
      map_option (\<lambda>(out, pending). (out, s\<lparr>sc_pending := pending\<rparr>))
        (scrub_loop (Suc (length data)) final (sc_secrets s) data))"

section \<open>Forms of a value\<close>

text \<open>\<open>strconv.Quote\<close> and \<open>QuoteToASCII\<close>, without their quotes. \<open>pr\<close> is \<open>strconv.IsPrint\<close>.\<close>

definition hex_byte :: "nat \<Rightarrow> string" where
  "hex_byte b = [hex_digit (b div 16), hex_digit (b mod 16)]"

definition hex_n :: "nat \<Rightarrow> nat \<Rightarrow> string" where
  "hex_n k n = (let t = hex_text n in replicate (k - length t) (CHR ''0'') @ t)"

definition quote_rune :: "(nat \<Rightarrow> bool) \<Rightarrow> bool \<Rightarrow> nat \<times> string \<Rightarrow> string" where
  "quote_rune pr ascii = (\<lambda>(r, w).
     if r = rune_error \<and> length w = 1 then [CHR 0x5C, CHR ''x''] @ concat (map (\<lambda>c. hex_byte (byte c)) w)
     else if r = 34 \<or> r = 92 then [CHR 0x5C, char_of r]
     else if (r < 128 \<or> \<not> ascii) \<and> pr r then encode_rune r
     else if r = 7 then [CHR 0x5C, CHR ''a'']
     else if r = 8 then [CHR 0x5C, CHR ''b'']
     else if r = 12 then [CHR 0x5C, CHR ''f'']
     else if r = 10 then [CHR 0x5C, CHR ''n'']
     else if r = 13 then [CHR 0x5C, CHR ''r'']
     else if r = 9 then [CHR 0x5C, CHR ''t'']
     else if r = 11 then [CHR 0x5C, CHR ''v'']
     else if r < 32 \<or> r = 127 then [CHR 0x5C, CHR ''x''] @ hex_byte r
     else if r < 65536 then [CHR 0x5C, CHR ''u''] @ hex_n 4 r
     else [CHR 0x5C, CHR ''U''] @ hex_n 8 r)"

definition quoted :: "(nat \<Rightarrow> bool) \<Rightarrow> bool \<Rightarrow> string \<Rightarrow> string" where
  "quoted pr ascii v = [CHR 0x22] @ concat (map (quote_rune pr ascii) (runes v)) @ [CHR 0x22]"

definition unquote :: "string \<Rightarrow> string" where
  "unquote q = (if 2 \<le> length q then butlast (tl q) else q)"

definition py_byte :: "bool \<Rightarrow> char \<Rightarrow> string" where
  "py_byte nonASCII c =
     (let b = byte c in
      if b = 92 then [CHR 0x5C, CHR 0x5C]
      else if b = 9 then [CHR 0x5C, CHR ''t'']
      else if b = 10 then [CHR 0x5C, CHR ''n'']
      else if b = 13 then [CHR 0x5C, CHR ''r'']
      else if b < 32 \<or> b = 127 \<or> (nonASCII \<and> 128 \<le> b) then [CHR 0x5C, CHR ''x''] @ hex_byte b
      else [c])"

definition pyByteEscape :: "string \<Rightarrow> bool \<Rightarrow> string" where
  "pyByteEscape v nonASCII = concat (map (py_byte nonASCII) v)"

definition json_ascii_rune :: "nat \<Rightarrow> string" where
  "json_ascii_rune r =
     (if r = 34 \<or> r = 92 then [CHR 0x5C] @ encode_rune r
      else if r = 10 then [CHR 0x5C, CHR ''n'']
      else if r = 13 then [CHR 0x5C, CHR ''r'']
      else if r = 9 then [CHR 0x5C, CHR ''t'']
      else if r < 32 \<or> r = 127 \<or> 128 \<le> r then
        (if 65535 < r then
           [CHR 0x5C, CHR ''u''] @ hex4 (55296 + (r - 65536) div 1024) @ [CHR 0x5C, CHR ''u''] @ hex4 (56320 + (r - 65536) mod 1024)
         else [CHR 0x5C, CHR ''u''] @ hex4 r)
      else encode_rune r)"

definition jsonASCII :: "string \<Rightarrow> string" where
  "jsonASCII v = concat (map (\<lambda>(r, w). json_ascii_rune r) (runes v))"

text \<open>\<open>url.QueryEscape\<close> and \<open>url.PathEscape\<close>.\<close>

definition upper_hex :: "nat \<Rightarrow> char" where
  "upper_hex n = (if n < 10 then char_of (48 + n) else char_of (55 + n))"

definition url_unreserved :: "char \<Rightarrow> bool" where
  "url_unreserved c \<longleftrightarrow> is_decimal c \<or> (65 \<le> byte c \<and> byte c \<le> 90) \<or> (97 \<le> byte c \<and> byte c \<le> 122) \<or> byte c \<in> {45, 46, 95, 126}"

definition path_char :: "char \<Rightarrow> bool" where
  "path_char c \<longleftrightarrow> byte c \<in> {36, 38, 43, 58, 61, 64}"

definition url_byte :: "bool \<Rightarrow> char \<Rightarrow> string" where
  "url_byte query c =
     (if url_unreserved c \<or> (\<not> query \<and> path_char c) then [c]
      else if query \<and> byte c = 32 then ''+''
      else [CHR ''%'', upper_hex (byte c div 16), upper_hex (byte c mod 16)])"

definition url_escape :: "bool \<Rightarrow> string \<Rightarrow> string" where
  "url_escape query v = concat (map (url_byte query) v)"

definition double_backslash :: "string \<Rightarrow> string" where
  "double_backslash v = concat (map (\<lambda>c. if byte c = 92 then [c, c] else [c]) v)"

definition add_form :: "string list \<Rightarrow> string \<Rightarrow> string list" where
  "add_form forms f = (if f \<in> set forms then forms else forms @ [f])"

definition encodedForms :: "(nat \<Rightarrow> bool) \<Rightarrow> string \<Rightarrow> string list" where
  "encodedForms pr v =
     foldl add_form [v]
       [unquote (quoted pr False v), unquote (quoted pr True v), unquote (marshal_string v), unquote (encode_string v),
        jsonASCII v, url_escape True v, url_escape False v, pyByteEscape v True, pyByteEscape v False, double_backslash v]"

section \<open>The redactor\<close>

record redactor =
  rd_stream :: "scrub_value list"
  rd_text :: "scrub_value list"

definition longestFirst :: "scrub_value list \<Rightarrow> scrub_value list" where
  "longestFirst vs = sort_key (\<lambda>v. - int (length (sv_value v))) vs"

text \<open>The text forms of one secret: each encoded form and its escaped rendering, without repeats.\<close>

definition text_forms :: "string list \<Rightarrow> string list" where
  "text_forms fs = foldl (\<lambda>seen f. add_form (add_form seen f) (escapeControl f 0)) [] fs"

definition secret_values :: "(string list \<Rightarrow> string list) \<Rightarrow> (nat \<Rightarrow> bool) \<Rightarrow> secret \<Rightarrow> scrub_value list" where
  "secret_values forms pr s =
     (if length (secret_val s) < MinSecretLen then []
      else map (\<lambda>f. \<lparr>sv_value = f, sv_marker = secret_string s\<rparr>) (forms (encodedForms pr (secret_val s))))"

definition NewRedactor :: "(nat \<Rightarrow> bool) \<Rightarrow> secret list \<Rightarrow> redactor option" where
  "NewRedactor pr secrets =
     (let stream = concat (map (secret_values id pr) secrets);
          text = concat (map (secret_values text_forms pr) secrets)
      in if stream = [] then None else Some \<lparr>rd_stream = longestFirst stream, rd_text = longestFirst text\<rparr>)"

definition Redact :: "redactor option \<Rightarrow> string \<Rightarrow> string option" where
  "Redact r s =
     (case r of
        None \<Rightarrow> Some s
      | Some r \<Rightarrow> map_option fst (scrub_write \<lparr>sc_secrets = rd_text r, sc_pending = []\<rparr> s True))"

definition newStream :: "redactor option \<Rightarrow> scrubber option" where
  "newStream r = map_option (\<lambda>r. \<lparr>sc_secrets = rd_stream r, sc_pending = []\<rparr>) r"


section \<open>The loop ends\<close>

definition nonempty_values :: "scrub_value list \<Rightarrow> bool" where
  "nonempty_values vs \<longleftrightarrow> (\<forall>v \<in> set vs. sv_value v \<noteq> [])"

lemma scan_Replace:
  "scan_values final vs rest = Replace m k \<Longrightarrow> \<exists>v \<in> set vs. prefix (sv_value v) rest \<and> m = sv_marker v \<and> k = length (sv_value v)"
  by (induction final vs rest rule: scan_values.induct) (auto split: if_splits)

lemma scan_Replace_shorter:
  assumes "nonempty_values vs" "scan_values final vs (c # t) = Replace m k"
  shows "length (drop k (c # t)) < length (c # t)"
  using scan_Replace [OF assms(2)] assms(1) by (cases k) (auto simp: nonempty_values_def)

lemma scrub_loop_total:
  assumes "nonempty_values vs"
  shows "\<exists>res. \<forall>n > length rest. scrub_loop n final vs rest = Some res"
proof (induction rest rule: length_induct)
  case (1 rest)
  have step: "\<exists>res. \<forall>n > length rest. scrub_loop n final vs rest = Some res"
    if a: "length rest' < length rest" and b: "\<And>n. scrub_loop (Suc n) final vs rest = map_option f (scrub_loop n final vs rest')" for rest' f
  proof -
    obtain res where res: "\<forall>n > length rest'. scrub_loop n final vs rest' = Some res" using 1 a by blast
    have "scrub_loop n final vs rest = Some (f res)" if "length rest < n" for n
      using that a b res by (cases n) auto
    then show ?thesis by blast
  qed
  have now: "\<exists>res. \<forall>n > length rest. scrub_loop n final vs rest = Some res"
    if a: "\<And>n. scrub_loop (Suc n) final vs rest = Some r" for r
  proof -
    have "scrub_loop n final vs rest = Some r" if "length rest < n" for n using that a by (cases n) auto
    then show ?thesis by blast
  qed
  show ?case
  proof (cases rest)
    case Nil
    then show ?thesis by (intro now) simp
  next
    case (Cons c t)
    show ?thesis
    proof (cases "scan_values final vs rest")
      case (Replace m k)
      then show ?thesis using scan_Replace_shorter [OF assms] Cons by (intro step [of "drop k rest" "map_prod (append m) id"]) auto
    next
      case Keep
      then show ?thesis using Cons by (intro step [of t "map_prod (Cons c) id"]) auto
    qed (use Cons in \<open>intro now; simp\<close>)+
  qed
qed

text \<open>The loop with enough fuel.\<close>

definition scrub_run :: "bool \<Rightarrow> scrub_value list \<Rightarrow> string \<Rightarrow> string \<times> string" where
  "scrub_run final vs rest = (case scrub_loop (Suc (length rest)) final vs rest of None \<Rightarrow> ([], []) | Some r \<Rightarrow> r)"

lemma scrub_loop_run:
  assumes "nonempty_values vs" "length rest < n"
  shows "scrub_loop n final vs rest = Some (scrub_run final vs rest)"
  using scrub_loop_total [OF assms(1), of rest final] assms(2) by (auto simp: scrub_run_def simp del: scrub_loop.simps)

lemma scrub_run_Nil [simp]: "scrub_run final vs [] = ([], [])"
  by (simp add: scrub_run_def)

lemma scrub_run_Cons:
  assumes "nonempty_values vs"
  shows "scrub_run final vs (c # t) =
    (case scan_values final vs (c # t) of
       Replace m k \<Rightarrow> map_prod (append m) id (scrub_run final vs (drop k (c # t)))
     | Wait \<Rightarrow> ([], c # t)
     | EndMarker m \<Rightarrow> (m, [])
     | Keep \<Rightarrow> map_prod (Cons c) id (scrub_run final vs t))"
proof (cases "scan_values final vs (c # t)")
  case (Replace m k)
  have "scrub_loop (length (c # t)) final vs (drop k (c # t)) = Some (scrub_run final vs (drop k (c # t)))"
    by (rule scrub_loop_run [OF assms scan_Replace_shorter [OF assms Replace]])
  then show ?thesis using Replace by (simp add: scrub_run_def [of final vs "c # t"])
next
  case Keep
  have "scrub_loop (length (c # t)) final vs t = Some (scrub_run final vs t)" by (rule scrub_loop_run [OF assms]) simp
  then show ?thesis using Keep by (simp add: scrub_run_def [of final vs "c # t"])
qed (simp_all add: scrub_run_def)

lemma scrub_induct [consumes 1, case_names Nil Cons]:
  assumes "nonempty_values vs" "P []"
    and "\<And>c t. (\<And>m k. scan_values final vs (c # t) = Replace m k \<Longrightarrow> P (drop k (c # t))) \<Longrightarrow> P t \<Longrightarrow> P (c # t)"
  shows "P rest"
proof (induction rest rule: length_induct)
  case (1 rest)
  show ?case
  proof (cases rest)
    case (Cons c t)
    show ?thesis unfolding Cons using 1 Cons scan_Replace_shorter [OF assms(1)] by (intro assms(3)) auto
  qed (use assms(2) in simp)
qed

section \<open>Streams\<close>

text \<open>What is decided at a position before the end of the stream stays decided.\<close>

lemma scan_stable:
  "scan_values False vs rest \<noteq> Wait \<Longrightarrow> scan_values final vs (rest @ t) = scan_values False vs rest"
proof (induction vs)
  case (Cons v vs)
  have p: "prefix (sv_value v) (rest @ t) \<longleftrightarrow> prefix (sv_value v) rest" if "length (sv_value v) \<le> length rest"
    using that by (auto simp: prefix_append dest: prefix_length_le)
  have q: "prefix rest (sv_value v)" if "prefix (sv_value v) (rest @ t)" "\<not> length (sv_value v) \<le> length rest"
    using that by (metis nle_le prefix_def prefix_length_prefix)
  have r: "prefix rest (sv_value v)" if "prefix (rest @ t) (sv_value v)" using that by (metis append_prefixD)
  show ?case using Cons p q r by (auto split: if_splits)
qed simp

lemma scan_not_End: "scan_values False vs rest \<noteq> EndMarker m"
  by (induction vs) auto

lemma run_append:
  assumes "nonempty_values vs"
  shows "scrub_run False vs data = (out, pending) \<Longrightarrow> scrub_run final vs (data @ t) = map_prod (append out) id (scrub_run final vs (pending @ t))"
  using assms
proof (induction data arbitrary: out pending rule: scrub_induct [of vs _ False])
  case Nil
  then show ?case by (cases "scrub_run final vs t") simp
next
  case (Cons c d)
  show ?case
  proof (cases "scan_values False vs (c # d)")
    case (Replace m k)
    obtain o' where o: "scrub_run False vs (drop k (c # d)) = (o', pending)" "out = m @ o'"
      using Cons.prems(1) Replace by (cases "scrub_run False vs (drop k (c # d))") (auto simp: scrub_run_Cons [OF assms])
    have k: "k \<le> length (c # d)" using scan_Replace [OF Replace] by (auto dest: prefix_length_le)
    have s: "scan_values final vs (c # d @ t) = Replace m k" using scan_stable [of vs "c # d" final t] Replace by simp
    have "scrub_run final vs (drop k (c # d) @ t) = map_prod (append o') id (scrub_run final vs (pending @ t))"
      by (rule Cons.IH(1) [OF Replace o(1)])
    moreover have "drop k (c # d) @ t = drop k (c # d @ t)" using k by (cases k) auto
    ultimately show ?thesis using s o(2) by (cases "scrub_run final vs (pending @ t)") (simp add: scrub_run_Cons [OF assms])
  next
    case Wait
    then show ?thesis using Cons.prems(1) by (auto simp: scrub_run_Cons [OF assms, of False])
  next
    case Keep
    obtain o' where o: "scrub_run False vs d = (o', pending)" "out = c # o'"
      using Cons.prems(1) Keep by (cases "scrub_run False vs d") (auto simp: scrub_run_Cons [OF assms])
    have s: "scan_values final vs (c # d @ t) = Keep" using scan_stable [of vs "c # d" final t] Keep by simp
    show ?thesis using Cons.IH(2) [OF o(1)] s o(2)
      by (cases "scrub_run final vs (pending @ t)") (simp add: scrub_run_Cons [OF assms])
  qed (use scan_not_End in blast)
qed


lemma scrub_write_run:
  assumes "nonempty_values (sc_secrets s)"
  shows "scrub_write s p final = (case scrub_run final (sc_secrets s) (sc_pending s @ p) of (out, pending) \<Rightarrow> Some (out, s\<lparr>sc_pending := pending\<rparr>))"
  unfolding scrub_write_def Let_def scrub_loop_run [OF assms lessI] by (simp add: split_beta)

text \<open>A stream of writes, without the end.\<close>

fun write_all :: "scrubber \<Rightarrow> string list \<Rightarrow> (string \<times> scrubber) option" where
  "write_all s [] = Some ([], s)"
| "write_all s (p # ps) =
     (case scrub_write s p False of
        None \<Rightarrow> None
      | Some (out, s') \<Rightarrow> map_option (map_prod (append out) id) (write_all s' ps))"

lemma write_all_run:
  assumes "nonempty_values (sc_secrets s)"
  shows "\<exists>out s'. write_all s ps = Some (out, s') \<and> sc_secrets s' = sc_secrets s
    \<and> scrub_run final (sc_secrets s) (sc_pending s @ concat ps @ t) = map_prod (append out) id (scrub_run final (sc_secrets s) (sc_pending s' @ t))"
  using assms
proof (induction ps arbitrary: s)
  case Nil
  then show ?case by (auto simp: prod.map_id0 intro!: prod_eqI)
next
  case (Cons p ps)
  obtain o1 pend where r: "scrub_run False (sc_secrets s) (sc_pending s @ p) = (o1, pend)" by fastforce
  let ?s = "s\<lparr>sc_pending := pend\<rparr>"
  have w: "scrub_write s p False = Some (o1, ?s)" using scrub_write_run [OF Cons.prems, of p False] r by simp
  have "nonempty_values (sc_secrets ?s)" using Cons.prems by simp
  from Cons.IH [OF this] obtain o2 s' where i: "write_all ?s ps = Some (o2, s')" "sc_secrets s' = sc_secrets ?s"
    "scrub_run final (sc_secrets ?s) (sc_pending ?s @ concat ps @ t) = map_prod (append o2) id (scrub_run final (sc_secrets ?s) (sc_pending s' @ t))"
    by blast
  have "scrub_run final (sc_secrets s) (sc_pending s @ concat (p # ps) @ t)
      = map_prod (append o1) id (scrub_run final (sc_secrets s) (pend @ concat ps @ t))"
    using run_append [OF Cons.prems r, of final "concat ps @ t"] by simp
  then show ?case using w i by (cases "scrub_run final (sc_secrets s) (sc_pending s' @ t)") auto
qed

section \<open>Redactors\<close>

lemma concat_nonempty: "xs \<noteq> [] \<Longrightarrow> (\<And>x. x \<in> set xs \<Longrightarrow> f x \<noteq> []) \<Longrightarrow> concat (map f xs) \<noteq> []"
  by (cases xs) auto

lemma runes_nonempty: "v \<noteq> [] \<Longrightarrow> runes v \<noteq> []"
  by (cases v) (simp_all add: runes_Cons)

lemma runes_width: "(r, w) \<in> set (runes v) \<Longrightarrow> w \<noteq> []"
proof (induction v rule: runes_induct)
  case (Cons c s)
  have "take (snd (decode_rune (c # s))) (c # s) \<noteq> []" using decode_rune_width [of "c # s"] by (cases "snd (decode_rune (c # s))") auto
  then show ?case using Cons by (auto simp: runes_Cons)
qed simp

lemma unquote_body: "unquote ([CHR 0x22] @ b @ [CHR 0x22]) = b"
  by (simp add: unquote_def butlast_append)

lemma quote_rune_nonempty: "quote_rune pr ascii rw \<noteq> []"
  by (cases rw) (simp add: quote_rune_def)

lemma encode_piece_nonempty: "w \<noteq> [] \<Longrightarrow> encode_string_rune (r, w) \<noteq> []"
  by (simp add: encode_string_rune_def escape_byte_def)

lemma json_ascii_nonempty: "json_ascii_rune r \<noteq> []"
  by (simp add: json_ascii_rune_def)

lemma byte_piece_nonempty: "py_byte b c \<noteq> []" "url_byte b c \<noteq> []"
  by (simp_all add: py_byte_def url_byte_def Let_def)

lemma string_pieces_nonempty:
  assumes "(r, w) \<in> set (runes v)"
  shows "encode_string_rune (r, w) \<noteq> []" "marshal_rune (r, w) \<noteq> []" "escape_piece (r, w) \<noteq> []"
  using encode_piece_nonempty [OF runes_width [OF assms], of r] runes_width [OF assms]
  by (auto simp: marshal_rune_def escape_byte_def escape_piece_def)

lemma set_add_forms: "set (foldl add_form acc fs) = set acc \<union> set fs"
  by (induction fs arbitrary: acc) (auto simp: add_form_def)

lemma encodedForms_nonempty:
  assumes "v \<noteq> []" "f \<in> set (encodedForms pr v)"
  shows "f \<noteq> []"
proof -
  note r = runes_nonempty [OF assms(1)]
  have "unquote (quoted pr a v) \<noteq> []" for a
    unfolding quoted_def unquote_body by (rule concat_nonempty [OF r quote_rune_nonempty])
  moreover have "unquote (marshal_string v) \<noteq> []" "unquote (encode_string v) \<noteq> []"
    unfolding marshal_string_def encode_string_def unquote_body
    by (rule concat_nonempty [OF r]; use string_pieces_nonempty in auto)+
  moreover have "jsonASCII v \<noteq> []"
    unfolding jsonASCII_def by (rule concat_nonempty [OF r]) (simp add: json_ascii_nonempty split: prod.split)
  moreover have "url_escape b v \<noteq> []" "pyByteEscape v b \<noteq> []" "double_backslash v \<noteq> []" for b
    unfolding url_escape_def pyByteEscape_def double_backslash_def
    by (rule concat_nonempty [OF assms(1)]; simp add: byte_piece_nonempty)+
  ultimately show ?thesis using assms unfolding encodedForms_def set_add_forms by (auto dest!: sym [of "[]"])
qed

lemma set_foldl_add: "set (foldl (\<lambda>seen f. add_form (add_form seen f) (g f)) acc fs) = set acc \<union> set fs \<union> g ` set fs"
  by (induction fs arbitrary: acc) (auto simp: add_form_def)

lemma escape_nonempty: "f \<noteq> [] \<Longrightarrow> escapeControl f 0 \<noteq> []"
  unfolding escapeControl_def escape_pieces_all append.simps
  by (rule concat_nonempty [OF runes_nonempty]) (use string_pieces_nonempty(3) in auto)

lemma NewRedactor_nonempty:
  assumes "NewRedactor pr secrets = Some r"
  shows "nonempty_values (rd_stream r)" "nonempty_values (rd_text r)"
proof -
  have v: "secret_val s \<noteq> []" if "\<not> length (secret_val s) < MinSecretLen" for s using that by (auto simp: MinSecretLen_def)
  have f: "f \<noteq> []" if "f \<in> set (encodedForms pr (secret_val s))" "\<not> length (secret_val s) < MinSecretLen" for f s
    using encodedForms_nonempty [OF v [OF that(2)] that(1)] .
  have "sv_value x \<noteq> []" if "x \<in> set (secret_values id pr s)" for x s
    using that f by (fastforce simp: secret_values_def split: if_splits)
  moreover have "sv_value x \<noteq> []" if "x \<in> set (secret_values text_forms pr s)" for x s
    using that f escape_nonempty unfolding secret_values_def text_forms_def by (fastforce simp: set_foldl_add split: if_splits)
  ultimately show "nonempty_values (rd_stream r)" "nonempty_values (rd_text r)"
    using assms by (auto simp: NewRedactor_def Let_def nonempty_values_def longestFirst_def split: if_splits)
qed

text \<open>Property C38 (termination). Redacting always ends: the forms a redactor looks for are never empty, so each round of the
  scrubber's loop consumes a byte, and every write to a stream scrubber, and every redaction of a text,
  returns.\<close>

theorem redaction_terminates:
  assumes "newStream (NewRedactor pr secrets) = Some s"
  shows "(\<exists>out s'. write_all s ps = Some (out, s') \<and> scrub_write s' p final \<noteq> None) \<and> (\<exists>t. Redact (NewRedactor pr secrets) msg = Some t)"
proof -
  obtain r where r: "NewRedactor pr secrets = Some r" and s: "sc_secrets s = rd_stream r" using assms by (auto simp: newStream_def)
  note n = NewRedactor_nonempty [OF r]
  obtain out s' where w: "write_all s ps = Some (out, s')" "sc_secrets s' = sc_secrets s"
    using write_all_run [of s ps True "[]"] n(1) s by auto
  have "scrub_write s' p final \<noteq> None" using scrub_write_run [of s' p final] w(2) n(1) s by (simp split: prod.split)
  moreover have "\<exists>t. Redact (NewRedactor pr secrets) msg = Some t"
    using scrub_write_run [of "\<lparr>sc_secrets = rd_text r, sc_pending = []\<rparr>" msg True] n(2) r by (simp add: Redact_def split: prod.split)
  ultimately show ?thesis using w(1) by blast
qed

text \<open>Property C37 (equivalence). How a stream is cut into writes does not matter: what a scrubber releases over any sequence
  of writes and the final flush is what it releases when the whole stream arrives in one piece, so a value split across
  writes is replaced as well.\<close>

theorem scrub_chunks_equivalent:
  assumes "newStream (NewRedactor pr secrets) = Some s"
  shows "\<exists>out s' rest s''. write_all s ps = Some (out, s') \<and> scrub_write s' [] True = Some (rest, s'')
    \<and> map_option fst (scrub_write s (concat ps) True) = Some (out @ rest)"
proof -
  obtain r where r: "NewRedactor pr secrets = Some r" and s: "sc_secrets s = rd_stream r" "sc_pending s = []"
    using assms by (auto simp: newStream_def)
  have n: "nonempty_values (sc_secrets s)" using NewRedactor_nonempty [OF r] s by simp
  obtain out s' where w: "write_all s ps = Some (out, s')" "sc_secrets s' = sc_secrets s"
    "scrub_run True (sc_secrets s) (concat ps) = map_prod (append out) id (scrub_run True (sc_secrets s) (sc_pending s'))"
    using write_all_run [OF n, of ps True "[]"] s(2) by auto
  show ?thesis using w scrub_write_run [of s' "[]" True] scrub_write_run [OF n, of "concat ps" True] n s(2)
    by (cases "scrub_run True (sc_secrets s) (sc_pending s')") auto
qed


section \<open>What is kept\<close>

text \<open>The reference: at every position the longest form that starts there is replaced; a form the text
  breaks off, at least four bytes into it, is replaced too; a byte is kept only where neither applies.\<close>

inductive scrubs :: "scrub_value list \<Rightarrow> string \<Rightarrow> string \<Rightarrow> bool" for vs where
  scrubs_end: "scrubs vs [] []"
| scrubs_replace: "v \<in> set vs \<Longrightarrow> prefix (sv_value v) rest \<Longrightarrow> \<forall>u \<in> set vs. prefix (sv_value u) rest \<longrightarrow> length (sv_value u) \<le> length (sv_value v)
    \<Longrightarrow> scrubs vs (drop (length (sv_value v)) rest) out \<Longrightarrow> scrubs vs rest (sv_marker v @ out)"
| scrubs_cut: "v \<in> set vs \<Longrightarrow> strict_prefix rest (sv_value v) \<Longrightarrow> MinSecretLen \<le> length rest \<Longrightarrow> scrubs vs rest (sv_marker v)"
| scrubs_keep: "\<forall>v \<in> set vs. \<not> prefix (sv_value v) (c # t) \<and> \<not> (strict_prefix (c # t) (sv_value v) \<and> MinSecretLen \<le> length (c # t))
    \<Longrightarrow> scrubs vs t out \<Longrightarrow> scrubs vs (c # t) (c # out)"

definition longest_first :: "scrub_value list \<Rightarrow> bool" where
  "longest_first vs \<longleftrightarrow> sorted_wrt (\<lambda>u v. length (sv_value v) \<le> length (sv_value u)) vs"

lemma longestFirst_sorted: "longest_first (longestFirst vs)"
proof -
  have "sorted (map (\<lambda>v. - int (length (sv_value v))) (longestFirst vs))" by (simp add: longestFirst_def)
  then show ?thesis by (auto simp: longest_first_def sorted_map)
qed

lemma scan_final:
  assumes "longest_first vs"
  shows "case scan_values True vs rest of
      Replace m k \<Rightarrow> \<exists>v \<in> set vs. prefix (sv_value v) rest \<and> m = sv_marker v \<and> k = length (sv_value v)
        \<and> (\<forall>u \<in> set vs. prefix (sv_value u) rest \<longrightarrow> length (sv_value u) \<le> k)
    | Wait \<Rightarrow> False
    | EndMarker m \<Rightarrow> \<exists>v \<in> set vs. strict_prefix rest (sv_value v) \<and> MinSecretLen \<le> length rest \<and> m = sv_marker v
    | Keep \<Rightarrow> \<forall>v \<in> set vs. \<not> prefix (sv_value v) rest \<and> \<not> (strict_prefix rest (sv_value v) \<and> MinSecretLen \<le> length rest)"
  using assms
proof (induction vs)
  case (Cons v vs)
  have IH: "longest_first vs" and le: "\<forall>u \<in> set vs. length (sv_value u) \<le> length (sv_value v)"
    using Cons.prems by (auto simp: longest_first_def)
  consider (hit) "length (sv_value v) \<le> length rest" "prefix (sv_value v) rest"
    | (miss) "length (sv_value v) \<le> length rest" "\<not> prefix (sv_value v) rest"
    | (cut) "\<not> length (sv_value v) \<le> length rest" "prefix rest (sv_value v)" "MinSecretLen \<le> length rest"
    | (other) "\<not> length (sv_value v) \<le> length rest" "\<not> (prefix rest (sv_value v) \<and> MinSecretLen \<le> length rest)" by blast
  then show ?case
  proof cases
    case hit
    then show ?thesis using le by auto
  next
    case miss
    then have "\<not> strict_prefix rest (sv_value v)" by (auto dest: prefix_length_less)
    then show ?thesis using miss Cons.IH [OF IH] by (auto split: scan.splits)
  next
    case cut
    then have "strict_prefix rest (sv_value v)" by (auto simp: strict_prefix_def)
    then show ?thesis using cut by auto
  next
    case other
    then have "\<not> prefix (sv_value v) rest" "\<not> (strict_prefix rest (sv_value v) \<and> MinSecretLen \<le> length rest)"
      by (auto simp: strict_prefix_def dest: prefix_length_le)
    then show ?thesis using other Cons.IH [OF IH] by (auto split: scan.splits)
  qed
qed simp

lemma scrub_run_scrubs:
  assumes "nonempty_values vs" "longest_first vs"
  shows "scrubs vs data (fst (scrub_run True vs data))"
  using assms(1)
proof (induction data rule: scrub_induct [of vs _ True])
  case Nil
  then show ?case by (simp add: scrubs_end)
next
  case (Cons c t)
  note s = scan_final [OF assms(2), of "c # t"]
  show ?case
  proof (cases "scan_values True vs (c # t)")
    case (Replace m k)
    then show ?thesis using s Cons.IH(1) [OF Replace] scrubs_replace [of _ vs "c # t"] by (auto simp: scrub_run_Cons [OF assms(1)])
  next
    case (EndMarker m)
    then show ?thesis using s by (auto simp: scrub_run_Cons [OF assms(1)] intro: scrubs_cut)
  next
    case Keep
    then show ?thesis using s Cons.IH(2) by (auto simp: scrub_run_Cons [OF assms(1)] intro!: scrubs_keep)
  qed (use s in simp)
qed

text \<open>Property C36 (refinement). Redaction implements its specification: in the redacted text every position where a form of a passed
  value starts is replaced by the marker of the longest such form, a value broken off at the end is
  replaced once four bytes of it are there, and every byte that is kept starts no form. The forms include
  the value itself, in its encodings, for every value of at least four bytes.\<close>

theorem Redact_scrubs:
  assumes "NewRedactor pr secrets = Some r" "Redact (Some r) msg = Some out"
  shows "scrubs (rd_text r) msg out
    \<and> (\<forall>s \<in> set secrets. MinSecretLen \<le> length (secret_val s)
        \<longrightarrow> (\<exists>v \<in> set (rd_text r). sv_value v = secret_val s \<and> sv_marker v = secret_string s))"
proof
  have n: "nonempty_values (rd_text r)" and l: "longest_first (rd_text r)"
    using NewRedactor_nonempty [OF assms(1)] assms(1) longestFirst_sorted by (auto simp: NewRedactor_def Let_def split: if_splits)
  have "fst (scrub_run True (rd_text r) msg) = out"
    using assms(2) scrub_write_run [of "\<lparr>sc_secrets = rd_text r, sc_pending = []\<rparr>" msg True] n by (simp add: Redact_def split: prod.splits)
  then show "scrubs (rd_text r) msg out" using scrub_run_scrubs [OF n l, of msg] by simp
  have "\<exists>v \<in> set (secret_values text_forms pr s). sv_value v = secret_val s \<and> sv_marker v = secret_string s"
    if "MinSecretLen \<le> length (secret_val s)" for s
  proof -
    have "secret_val s \<in> set (encodedForms pr (secret_val s))" unfolding encodedForms_def set_add_forms by simp
    then have "secret_val s \<in> set (text_forms (encodedForms pr (secret_val s)))" by (simp add: text_forms_def set_foldl_add)
    then show ?thesis using that by (auto simp: secret_values_def)
  qed
  then show "\<forall>s \<in> set secrets. MinSecretLen \<le> length (secret_val s)
        \<longrightarrow> (\<exists>v \<in> set (rd_text r). sv_value v = secret_val s \<and> sv_marker v = secret_string s)"
    using assms(1) by (fastforce simp: NewRedactor_def Let_def longestFirst_def split: if_splits)
qed

section \<open>A concrete redactor\<close>

definition demo_secrets :: "secret list" where
  "demo_secrets = [NewSecret ''TOKEN'' ''hunter2'']"

definition demo_pr :: "nat \<Rightarrow> bool" where
  "demo_pr r \<longleftrightarrow> 32 \<le> r \<and> r < 127"

text \<open>A value of lower-case letters and digits has one form.\<close>

definition alnum :: "char \<Rightarrow> bool" where
  "alnum c \<longleftrightarrow> (48 \<le> byte c \<and> byte c \<le> 57) \<or> (97 \<le> byte c \<and> byte c \<le> 122)"

lemma alnum_pieces:
  assumes "alnum c"
  shows "quote_rune demo_pr b (byte c, [c]) = [c]" "marshal_rune (byte c, [c]) = [c]" "encode_string_rune (byte c, [c]) = [c]"
    "json_ascii_rune (byte c) = [c]" "url_byte b c = [c]" "py_byte b c = [c]" "escape_piece (byte c, [c]) = [c]"
proof -
  have n: "\<not> is_format (byte c)" using assms by (auto simp: alnum_def is_format_def format_ranges_def)
  have b: "48 \<le> byte c" "byte c \<le> 122" "byte c \<noteq> 92" "byte c \<noteq> 60" "byte c \<noteq> 62" using assms by (auto simp: alnum_def)
  show "quote_rune demo_pr b (byte c, [c]) = [c]" using b by (simp add: quote_rune_def demo_pr_def rune_error_def)
  show "encode_string_rune (byte c, [c]) = [c]" using b by (simp add: encode_string_rune_def)
  then show "marshal_rune (byte c, [c]) = [c]" using b by (simp add: marshal_rune_def)
  show "json_ascii_rune (byte c) = [c]" using b by (simp add: json_ascii_rune_def)
  show "url_byte b c = [c]" using assms by (auto simp: url_byte_def url_unreserved_def is_decimal_def alnum_def)
  show "py_byte b c = [c]" using b by (simp add: py_byte_def Let_def)
  show "escape_piece (byte c, [c]) = [c]" using b n by (simp add: escape_piece_def isControl_def rune_error_def)
qed

lemma alnum_forms:
  assumes "list_all alnum v"
  shows "encodedForms demo_pr v = [v]" "escapeControl v 0 = v"
proof -
  have a: "is_ascii v" using assms by (auto simp: is_ascii_def alnum_def list_all_iff)
  have one: "concat (map f v) = v" if "\<And>c. alnum c \<Longrightarrow> f c = [c]" for f
    using assms that by (induction v) auto
  have r: "concat (map f (runes v)) = v" if "\<And>c. alnum c \<Longrightarrow> f (byte c, [c]) = [c]" for f
    using one [of "\<lambda>c. f (byte c, [c])"] that by (simp add: runes_ascii [OF a] comp_def)
  have "double_backslash v = v" unfolding double_backslash_def by (rule one) (auto simp: alnum_def)
  then show "encodedForms demo_pr v = [v]"
    unfolding encodedForms_def quoted_def marshal_string_def encode_string_def unquote_body jsonASCII_def url_escape_def pyByteEscape_def
    by (simp add: r one alnum_pieces add_form_def)
  show "escapeControl v 0 = v" unfolding escapeControl_def escape_pieces_all by (simp add: r alnum_pieces)
qed

definition demo_redactor :: redactor where
  "demo_redactor = (let v = [\<lparr>sv_value = ''hunter2'', sv_marker = ''[redacted:TOKEN]''\<rparr>] in \<lparr>rd_stream = v, rd_text = v\<rparr>)"

lemma demo_NewRedactor: "NewRedactor demo_pr demo_secrets = Some demo_redactor"
proof -
  have "list_all alnum ''hunter2''" by (simp add: alnum_def)
  from alnum_forms [OF this] show ?thesis
    by (simp add: NewRedactor_def demo_secrets_def NewSecret_def secret_values_def secret_val_def MinSecretLen_def text_forms_def add_form_def
        longestFirst_def secret_string_def demo_redactor_def Let_def)
qed

lemma demo_stream: "newStream (NewRedactor demo_pr demo_secrets) = Some \<lparr>sc_secrets = rd_stream demo_redactor, sc_pending = []\<rparr>"
  by (simp add: demo_NewRedactor newStream_def)

theorem redaction_terminates_witness:
  "\<exists>out s'. write_all \<lparr>sc_secrets = rd_stream demo_redactor, sc_pending = []\<rparr> [''pass hun'', ''ter2 ok''] = Some (out, s')
    \<and> scrub_write s' [] True \<noteq> None"
  using redaction_terminates [OF demo_stream, of "[''pass hun'', ''ter2 ok'']" "[]" True] by blast

theorem scrub_chunks_equivalent_witness:
  "\<exists>out s' rest s''. write_all \<lparr>sc_secrets = rd_stream demo_redactor, sc_pending = []\<rparr> [''pass hun'', ''ter2 ok''] = Some (out, s')
    \<and> scrub_write s' [] True = Some (rest, s'') \<and> out @ rest = ''pass [redacted:TOKEN] ok''"
proof -
  have "map_option fst (scrub_write \<lparr>sc_secrets = rd_stream demo_redactor, sc_pending = []\<rparr> ''pass hunter2 ok'' True) = Some ''pass [redacted:TOKEN] ok''"
    by (simp add: scrub_write_def demo_redactor_def Let_def)
  then show ?thesis using scrub_chunks_equivalent [OF demo_stream, of "[''pass hun'', ''ter2 ok'']"] by auto
qed

lemma demo_Redact: "Redact (Some demo_redactor) ''key hunter2'' = Some ''key [redacted:TOKEN]''"
  by (simp add: Redact_def scrub_write_def demo_redactor_def Let_def)

theorem Redact_scrubs_witness:
  "scrubs (rd_text demo_redactor) ''key hunter2'' ''key [redacted:TOKEN]''
    \<and> (\<exists>v \<in> set (rd_text demo_redactor). sv_value v = ''hunter2'' \<and> sv_marker v = ''[redacted:TOKEN]'')"
  using Redact_scrubs [OF demo_NewRedactor demo_Redact] by (simp add: demo_secrets_def NewSecret_def secret_val_def secret_string_def MinSecretLen_def)

end
