(* ===== verification/Proxy_Lines.thy ===== *)
theory Proxy_Lines
  imports Proxy_Scrub
begin

text \<open>
  \<^verbatim>\<open>internal/proxy/sanitize.go\<close>, second part: the writer an upstream's stderr goes through. It scrubs the bytes, splits
  them into lines, prefixes and escapes each. The sink is the text written so far; its errors are
  ignored, as in the code.
\<close>

section \<open>Cutting at a character\<close>

definition maxStderrLine :: nat where "maxStderrLine = 4096"

text \<open>\<open>utf8.FullRune\<close>: an invalid encoding is full, it decodes as an error of width one.\<close>

definition rune_size :: "nat \<Rightarrow> nat" where
  "rune_size b0 =
     (if 194 \<le> b0 \<and> b0 < 224 then 2 else if 224 \<le> b0 \<and> b0 < 240 then 3 else if 240 \<le> b0 \<and> b0 < 245 then 4 else 1)"

definition full_rune :: "string \<Rightarrow> bool" where
  "full_rune s =
     (case s of
        [] \<Rightarrow> False
      | c0 # s1 \<Rightarrow>
          rune_size (byte c0) \<le> length s
          \<or> (case s1 of
               [] \<Rightarrow> False
             | c1 # s2 \<Rightarrow>
                 \<not> (if byte c0 < 224 then is_cont c1 else second_ok (byte c0) c1)
                 \<or> (case s2 of [] \<Rightarrow> False | c2 # _ \<Rightarrow> \<not> is_cont c2)))"

text \<open>From the last byte back, at most four bytes.\<close>

fun cut_loop :: "string \<Rightarrow> nat \<Rightarrow> nat \<Rightarrow> nat" where
  "cut_loop b 0 i = length b"
| "cut_loop b (Suc k) i =
     (if rune_start (b ! i) then (if \<not> full_rune (drop i b) \<and> 0 < i then i else length b)
      else if i = 0 then length b
      else cut_loop b k (i - 1))"

definition runeCut :: "string \<Rightarrow> nat" where
  "runeCut b = (if b = [] then 0 else cut_loop b 4 (length b - 1))"

lemma cut_loop_bounds: "b \<noteq> [] \<Longrightarrow> i < length b \<Longrightarrow> 0 < cut_loop b k i \<and> cut_loop b k i \<le> length b"
  by (induction b k i rule: cut_loop.induct) auto

lemma runeCut_bounds: "b \<noteq> [] \<Longrightarrow> 0 < runeCut b \<and> runeCut b \<le> length b"
  using cut_loop_bounds [of b "length b - 1" 4] by (simp add: runeCut_def)

section \<open>The writer\<close>

record line_writer =
  lw_written :: string
  lw_prefix :: string
  lw_scrub :: "scrubber option"
  lw_buf :: string
  lw_split :: bool
  lw_closed :: bool

definition trim_cr :: "string \<Rightarrow> string" where
  "trim_cr l = (if l \<noteq> [] \<and> byte (last l) = 13 then butlast l else l)"

definition emitPrefix :: "nat \<Rightarrow> line_writer \<Rightarrow> line_writer" where
  "emitPrefix n l =
     l\<lparr>lw_written := lw_written l @ lw_prefix l @ escapeControl (trim_cr (take n (lw_buf l))) 0 @ [CHR 0x0A],
       lw_buf := drop n (lw_buf l)\<rparr>"

definition emit :: "line_writer \<Rightarrow> line_writer" where
  "emit l = emitPrefix (length (lw_buf l)) l"

function cut_lines :: "line_writer \<Rightarrow> line_writer" where
  "cut_lines l =
     (if maxStderrLine \<le> length (lw_buf l)
      then cut_lines ((emitPrefix (runeCut (take maxStderrLine (lw_buf l))) l)\<lparr>lw_split := True\<rparr>)
      else l)"
  by pat_completeness auto
termination
proof (relation "measure (\<lambda>l. length (lw_buf l))")
  fix l :: line_writer assume "maxStderrLine \<le> length (lw_buf l)"
  moreover from this have "0 < runeCut (take maxStderrLine (lw_buf l))"
    by (intro conjunct1 [OF runeCut_bounds]) (auto simp: maxStderrLine_def)
  ultimately show "((emitPrefix (runeCut (take maxStderrLine (lw_buf l))) l)\<lparr>lw_split := True\<rparr>, l) \<in> measure (\<lambda>l. length (lw_buf l))"
    by (auto simp: emitPrefix_def maxStderrLine_def)
qed simp

declare cut_lines.simps [simp del]

definition is_newline :: "char \<Rightarrow> bool" where
  "is_newline c \<longleftrightarrow> byte c = 10"

text \<open>At a newline: a line cut at the limit whose remainder is empty has already been written.\<close>

definition end_line :: "line_writer \<Rightarrow> line_writer" where
  "end_line l = (if lw_buf l \<noteq> [] \<or> \<not> lw_split l then emit l else l)\<lparr>lw_split := False\<rparr>"

function feed :: "string \<Rightarrow> line_writer \<Rightarrow> line_writer" where
  "feed p l =
     (if p = [] then l
      else
        let l1 = cut_lines (l\<lparr>lw_buf := lw_buf l @ takeWhile (\<lambda>c. \<not> is_newline c) p\<rparr>)
        in case dropWhile (\<lambda>c. \<not> is_newline c) p of
             [] \<Rightarrow> l1
           | _ # p' \<Rightarrow> feed p' (end_line l1))"
  by pat_completeness auto
termination
proof (relation "measure (\<lambda>(p, l). length p)")
  fix p :: string and l l1 :: line_writer and c p'
  assume "dropWhile (\<lambda>c. \<not> is_newline c) p = c # p'"
  then have "length p' < length p" using length_dropWhile_le [of "\<lambda>c. \<not> is_newline c" p] by simp
  then show "((p', end_line l1), p, l) \<in> measure (\<lambda>(p, l). length p)" by simp
qed simp

declare feed.simps [simp del]

lemma feed_Nil [simp]: "feed [] l = l"
  by (simp add: feed.simps)

definition lw_Write :: "string \<Rightarrow> line_writer \<Rightarrow> (nat \<times> line_writer) option" where
  "lw_Write p l =
     (if lw_closed l then Some (length p, l)
      else
        (case lw_scrub l of
           None \<Rightarrow> Some (length p, feed p l)
         | Some s \<Rightarrow>
             map_option (\<lambda>(out, s'). (length p, feed out (l\<lparr>lw_scrub := Some s'\<rparr>))) (scrub_write s p False)))"

definition flush_rest :: "line_writer \<Rightarrow> line_writer" where
  "flush_rest l = (if lw_buf l \<noteq> [] then emit l else l)\<lparr>lw_split := False\<rparr>"

definition lw_Flush :: "line_writer \<Rightarrow> line_writer option" where
  "lw_Flush l =
     (if lw_closed l then Some l
      else
        let l1 = l\<lparr>lw_closed := True\<rparr> in
        (case lw_scrub l of
           None \<Rightarrow> Some (flush_rest l1)
         | Some s \<Rightarrow>
             map_option (\<lambda>(out, s'). flush_rest (feed out (l1\<lparr>lw_scrub := Some s'\<rparr>))) (scrub_write s [] True)))"

definition new_line_writer :: "string \<Rightarrow> redactor option \<Rightarrow> line_writer" where
  "new_line_writer pre red =
     \<lparr>lw_written = [], lw_prefix = pre, lw_scrub = newStream red, lw_buf = [], lw_split = False, lw_closed = False\<rparr>"

section \<open>Lines\<close>

datatype lw_op = WriteOp string | FlushOp

fun lw_run :: "lw_op list \<Rightarrow> line_writer \<Rightarrow> line_writer option" where
  "lw_run [] l = Some l"
| "lw_run (WriteOp p # ops) l = (case lw_Write p l of None \<Rightarrow> None | Some (n, l') \<Rightarrow> lw_run ops l')"
| "lw_run (FlushOp # ops) l = (case lw_Flush l of None \<Rightarrow> None | Some l' \<Rightarrow> lw_run ops l')"

text \<open>What has been written is whole lines: the prefix, safe text and a newline.\<close>

definition safe_lines :: "string \<Rightarrow> string \<Rightarrow> bool" where
  "safe_lines pre out \<longleftrightarrow> (\<exists>ts. out = concat (map (\<lambda>t. pre @ t @ [CHR 0x0A]) ts) \<and> list_all safe_text ts)"

definition lines_inv :: "string \<Rightarrow> line_writer \<Rightarrow> bool" where
  "lines_inv pre l \<longleftrightarrow> lw_prefix l = pre \<and> safe_lines pre (lw_written l)"

lemma emitPrefix_inv: "lines_inv pre l \<Longrightarrow> lines_inv pre (emitPrefix n l)"
proof -
  assume "lines_inv pre l"
  then obtain ts where ts: "lw_prefix l = pre" "lw_written l = concat (map (\<lambda>t. pre @ t @ [CHR 0x0A]) ts)" "list_all safe_text ts"
    by (auto simp: lines_inv_def safe_lines_def)
  then show ?thesis using escapeControl_safe
    by (auto simp: lines_inv_def safe_lines_def emitPrefix_def intro!: exI [of _ "ts @ [escapeControl (trim_cr (take n (lw_buf l))) 0]"])
qed

lemma lines_inv_upd [simp]:
  "lines_inv pre (l\<lparr>lw_split := b\<rparr>) = lines_inv pre l" "lines_inv pre (l\<lparr>lw_buf := s\<rparr>) = lines_inv pre l"
  "lines_inv pre (l\<lparr>lw_scrub := x\<rparr>) = lines_inv pre l" "lines_inv pre (l\<lparr>lw_closed := b\<rparr>) = lines_inv pre l"
  by (simp_all add: lines_inv_def)

lemma emit_inv: "lines_inv pre l \<Longrightarrow> lines_inv pre (emit l)"
  by (simp add: emit_def emitPrefix_inv)

lemma cut_lines_inv: "lines_inv pre l \<Longrightarrow> lines_inv pre (cut_lines l) \<and> length (lw_buf (cut_lines l)) < maxStderrLine"
proof (induction l rule: cut_lines.induct)
  case (1 l)
  then show ?case by (cases "maxStderrLine \<le> length (lw_buf l)") (simp_all add: cut_lines.simps [of l] emitPrefix_inv)
qed

lemma emit_buf: "lw_buf (emit l) = []"
  by (simp add: emit_def emitPrefix_def)

lemma end_line_inv: "lines_inv pre l \<Longrightarrow> length (lw_buf l) < maxStderrLine \<Longrightarrow> lines_inv pre (end_line l) \<and> length (lw_buf (end_line l)) < maxStderrLine"
  by (simp add: end_line_def emit_inv emit_buf maxStderrLine_def)

lemma feed_inv:
  "lines_inv pre l \<Longrightarrow> length (lw_buf l) < maxStderrLine \<Longrightarrow> lines_inv pre (feed p l) \<and> length (lw_buf (feed p l)) < maxStderrLine"
proof (induction p l rule: feed.induct)
  case (1 p l)
  let ?l1 = "cut_lines (l\<lparr>lw_buf := lw_buf l @ takeWhile (\<lambda>c. \<not> is_newline c) p\<rparr>)"
  have c: "lines_inv pre ?l1" "length (lw_buf ?l1) < maxStderrLine" using cut_lines_inv [of pre] 1 by auto
  show ?case
  proof (cases "p = [] \<or> dropWhile (\<lambda>c. \<not> is_newline c) p = []")
    case True
    then show ?thesis using 1(2,3) c by (cases "p = []") (simp_all add: feed.simps [of p] Let_def del: dropWhile_eq_Nil_conv)
  next
    case False
    then obtain d p' where d: "dropWhile (\<lambda>c. \<not> is_newline c) p = d # p'" by (cases "dropWhile (\<lambda>c. \<not> is_newline c) p") auto
    have "feed p l = feed p' (end_line ?l1)" using False d by (simp add: feed.simps [of p] Let_def)
    then show ?thesis using 1(1) [OF _ refl d] False end_line_inv [OF c] by simp
  qed
qed

lemma feed_fields: "lw_scrub (feed p l) = lw_scrub l \<and> lw_closed (feed p l) = lw_closed l"
proof (induction p l rule: feed.induct)
  case (1 p l)
  have c: "lw_scrub (cut_lines m) = lw_scrub m \<and> lw_closed (cut_lines m) = lw_closed m" for m
  proof (induction m rule: cut_lines.induct)
    case (1 m)
    then show ?case by (cases "maxStderrLine \<le> length (lw_buf m)") (simp_all add: cut_lines.simps [of m] emitPrefix_def)
  qed
  have e: "lw_scrub (end_line m) = lw_scrub m \<and> lw_closed (end_line m) = lw_closed m" for m
    by (simp add: end_line_def emit_def emitPrefix_def)
  show ?case
  proof (cases "p = [] \<or> dropWhile (\<lambda>c. \<not> is_newline c) p = []")
    case True
    then show ?thesis using c by (cases "p = []") (simp_all add: feed.simps [of p] Let_def del: dropWhile_eq_Nil_conv)
  next
    case False
    then obtain d p' where d: "dropWhile (\<lambda>c. \<not> is_newline c) p = d # p'" by (cases "dropWhile (\<lambda>c. \<not> is_newline c) p") auto
    have "feed p l = feed p' (end_line (cut_lines (l\<lparr>lw_buf := lw_buf l @ takeWhile (\<lambda>c. \<not> is_newline c) p\<rparr>)))"
      using False d by (simp add: feed.simps [of p] Let_def)
    then show ?thesis using 1(1) [OF _ refl d] False c e by simp
  qed
qed

section \<open>Runs\<close>

text \<open>The invariant of a writer: its output, its buffer, and a scrubber that cannot loop.\<close>

definition writer_inv :: "string \<Rightarrow> line_writer \<Rightarrow> bool" where
  "writer_inv pre l \<longleftrightarrow> lines_inv pre l \<and> length (lw_buf l) < maxStderrLine
     \<and> (case lw_scrub l of None \<Rightarrow> True | Some s \<Rightarrow> nonempty_values (sc_secrets s))"

lemma new_line_writer_inv: "writer_inv pre (new_line_writer pre (NewRedactor pr secrets))"
proof -
  have "case newStream (NewRedactor pr secrets) of None \<Rightarrow> True | Some s \<Rightarrow> nonempty_values (sc_secrets s)"
    using NewRedactor_nonempty(1) by (cases "NewRedactor pr secrets") (auto simp: newStream_def)
  moreover have "safe_lines pre []" unfolding safe_lines_def by (rule exI [of _ "[]"]) simp
  ultimately show ?thesis by (simp add: writer_inv_def lines_inv_def new_line_writer_def maxStderrLine_def)
qed

lemma writer_inv_feed:
  assumes "writer_inv pre l" "lw_scrub l = Some s" "scrub_write s p final = Some (out, s')"
  shows "writer_inv pre (feed out (l\<lparr>lw_scrub := Some s'\<rparr>))"
proof -
  have n: "nonempty_values (sc_secrets s)" using assms by (simp add: writer_inv_def)
  then have "sc_secrets s' = sc_secrets s" using assms(3) scrub_write_run [OF n, of p final] by (auto split: prod.splits)
  then show ?thesis using feed_inv [of pre "l\<lparr>lw_scrub := Some s'\<rparr>" out] feed_fields [of out "l\<lparr>lw_scrub := Some s'\<rparr>"] assms(1) n
    by (simp add: writer_inv_def)
qed

lemma scrub_write_some: "nonempty_values (sc_secrets s) \<Longrightarrow> \<exists>out s'. scrub_write s p final = Some (out, s')"
  by (simp add: scrub_write_run split: prod.split)

lemma lw_Write_inv:
  assumes "writer_inv pre l"
  shows "\<exists>l'. lw_Write p l = Some (length p, l') \<and> writer_inv pre l'"
proof (cases "lw_closed l")
  case open_: False
  show ?thesis
  proof (cases "lw_scrub l")
    case None
    then show ?thesis using assms open_ feed_inv [of pre l p] feed_fields [of p l] by (simp add: lw_Write_def writer_inv_def)
  next
    case (Some s)
    then obtain out s' where w: "scrub_write s p False = Some (out, s')" using assms scrub_write_some by (fastforce simp: writer_inv_def)
    then show ?thesis using Some open_ writer_inv_feed [OF assms Some w] by (simp add: lw_Write_def)
  qed
qed (use assms in \<open>simp add: lw_Write_def\<close>)

lemma flush_rest_inv: "writer_inv pre l \<Longrightarrow> writer_inv pre (flush_rest l)"
  by (auto simp: flush_rest_def writer_inv_def emit_inv emit_buf maxStderrLine_def) (simp_all add: emit_def emitPrefix_def)

lemma lw_Flush_inv:
  assumes "writer_inv pre l"
  shows "\<exists>l'. lw_Flush l = Some l' \<and> writer_inv pre l'"
proof (cases "lw_closed l")
  case open_: False
  show ?thesis
  proof (cases "lw_scrub l")
    case None
    then show ?thesis using assms open_ flush_rest_inv [of pre "l\<lparr>lw_closed := True\<rparr>"] by (simp add: lw_Flush_def writer_inv_def)
  next
    case (Some s)
    then obtain out s' where w: "scrub_write s [] True = Some (out, s')" using assms scrub_write_some by (fastforce simp: writer_inv_def)
    have "writer_inv pre (l\<lparr>lw_closed := True\<rparr>)" "lw_scrub (l\<lparr>lw_closed := True\<rparr>) = Some s" using assms Some by (simp_all add: writer_inv_def)
    from flush_rest_inv [OF writer_inv_feed [OF this w]] show ?thesis using Some open_ w by (simp add: lw_Flush_def)
  qed
qed (use assms in \<open>simp add: lw_Flush_def\<close>)

lemma lw_run_inv:
  assumes "writer_inv pre l"
  shows "\<exists>l'. lw_run ops l = Some l' \<and> writer_inv pre l'"
  using assms
proof (induction ops arbitrary: l)
  case (Cons op ops)
  then show ?case
  proof (cases op)
    case (WriteOp p)
    obtain l' where "lw_Write p l = Some (length p, l')" "writer_inv pre l'" using lw_Write_inv [OF Cons.prems] by blast
    then show ?thesis using Cons.IH WriteOp by simp
  next
    case FlushOp
    obtain l' where "lw_Flush l = Some l'" "writer_inv pre l'" using lw_Flush_inv [OF Cons.prems] by blast
    then show ?thesis using Cons.IH FlushOp by simp
  qed
qed simp

lemma lw_run_append: "lw_run (a @ b) l = Option.bind (lw_run a l) (lw_run b)"
  by (induction a l rule: lw_run.induct) (auto split: option.split)

lemma lw_Flush_closed: "lw_Flush l = Some l' \<Longrightarrow> lw_closed l'"
  by (auto simp: lw_Flush_def Let_def flush_rest_def emit_def emitPrefix_def feed_fields split: if_splits option.splits)

lemma lw_run_closed: "lw_closed l \<Longrightarrow> lw_run ops l = Some l"
  by (induction ops l rule: lw_run.induct) (simp_all add: lw_Write_def lw_Flush_def)

text \<open>Property C40 (invariant). Whatever an upstream writes to its stderr, in whatever pieces, every write and flush returns, the
  operator's log gets whole lines only, each with the upstream's prefix in front of text that holds no
  control character, and less than one maximal line stays buffered; a flush ends the stream, and what
  is written after it changes nothing.\<close>

theorem stderr_lines_safe:
  "(\<exists>l. lw_run ops (new_line_writer pre (NewRedactor pr secrets)) = Some l
     \<and> safe_lines pre (lw_written l) \<and> length (lw_buf l) < maxStderrLine)
   \<and> lw_run (ops @ FlushOp # late) (new_line_writer pre (NewRedactor pr secrets))
       = lw_run (ops @ [FlushOp]) (new_line_writer pre (NewRedactor pr secrets))"
proof -
  obtain l where l: "lw_run ops (new_line_writer pre (NewRedactor pr secrets)) = Some l" "writer_inv pre l"
    using lw_run_inv [OF new_line_writer_inv] by blast
  obtain l' where f: "lw_Flush l = Some l'" using lw_Flush_inv [OF l(2)] by blast
  show ?thesis using l f lw_run_closed [OF lw_Flush_closed [OF f]] by (simp add: lw_run_append writer_inv_def lines_inv_def)
qed

end
