(* ===== verification/Proxy_Schema.thy ===== *)
theory Proxy_Schema
  imports Proxy_Label
begin

text \<open>
  \<^verbatim>\<open>internal/proxy/schema.go\<close>: the elicitation schema an upstream asks for, rebuilt from an allow-list. The
  schema comes in as \<open>json.Marshal\<close> writes it; \<open>num\<close> maps a number's literal to the text the rebuilt
  schema has for it (\<open>None\<close> when it is out of range). A Go map is a list of members with distinct
  keys, in the order they are set. \<open>label\<close> is \<open>hasOriginLabel\<close>.
\<close>

section \<open>Limits and errors\<close>

definition maxSchemaInput :: nat where "maxSchemaInput = 64 * 1024"
definition maxSchemaBytes :: nat where "maxSchemaBytes = 16 * 1024"
definition maxSchemaProperties :: nat where "maxSchemaProperties = 32"
definition maxSchemaEnum :: nat where "maxSchemaEnum = 64"
definition maxPropertyName :: nat where "maxPropertyName = 64"
definition maxPromptText :: nat where "maxPromptText = 2048"

datatype schema_error =
    SchemaEncode | SchemaNotObject | SchemaRootType | SchemaTooLarge | SchemaRebuiltSize | SchemaProperties | SchemaTooMany
  | SchemaName | SchemaPropObject | SchemaPropType | SchemaRequired | SchemaEnum | SchemaOneOf | SchemaItems | SchemaLabel

definition quoted_label :: string where "quoted_label = [CHR 0x22] @ ''[from'' @ [CHR 0x22]"

text \<open>The fixed texts. None quotes a value of the upstream.\<close>

fun schema_text :: "schema_error \<Rightarrow> string" where
  "schema_text SchemaEncode = ''encoding the schema''"
| "schema_text SchemaNotObject = ''the schema is not a JSON object''"
| "schema_text SchemaRootType = ''the root type is not '' @ [CHR 0x22] @ ''object'' @ [CHR 0x22]"
| "schema_text SchemaTooLarge = ''the schema is larger than '' @ nat_text maxSchemaInput @ '' bytes''"
| "schema_text SchemaRebuiltSize = ''the rebuilt schema is larger than '' @ nat_text maxSchemaBytes @ '' bytes''"
| "schema_text SchemaProperties = ''properties is not an object''"
| "schema_text SchemaTooMany = ''more than '' @ nat_text maxSchemaProperties @ '' properties''"
| "schema_text SchemaName = ''a property name is empty, longer than '' @ nat_text maxPropertyName @ '' bytes or has control characters''"
| "schema_text SchemaPropObject = ''a property is not an object''"
| "schema_text SchemaPropType = ''a property type is not '' @ [CHR 0x22] @ ''string'' @ [CHR 0x22] @ '', '' @ [CHR 0x22] @ ''number''
     @ [CHR 0x22] @ '', '' @ [CHR 0x22] @ ''integer'' @ [CHR 0x22] @ '', '' @ [CHR 0x22] @ ''boolean'' @ [CHR 0x22] @ '' or '' @ [CHR 0x22] @ ''array'' @ [CHR 0x22]"
| "schema_text SchemaRequired = ''required is not an array''"
| "schema_text SchemaEnum = ''an enum is not an array of 1 to '' @ nat_text maxSchemaEnum @ '' plain strings, numbers or booleans''"
| "schema_text SchemaOneOf = ''a oneOf is not an array of 1 to '' @ nat_text maxSchemaEnum @ '' options, each with a plain const''"
| "schema_text SchemaItems = ''an array property has no items with an enum''"
| "schema_text SchemaLabel = ''a string reads as an origin label ('' @ quoted_label @ ''); only fathomgate labels prompts''"

definition allowedFormats :: "string list" where
  "allowedFormats = [''email'', ''uri'', ''date'', ''date-time'']"

definition promptLabel :: "string \<Rightarrow> string" where
  "promptLabel server = ''[from '' @ server @ ''] ''"

section \<open>Values\<close>

definition has_control :: "string \<Rightarrow> bool" where
  "has_control s \<longleftrightarrow> list_ex (\<lambda>(r, w). isControl r) (runes s)"

definition has_backslash :: "string \<Rightarrow> bool" where
  "has_backslash s \<longleftrightarrow> list_ex (\<lambda>c. byte c = 92) s"

definition enumValue :: "(string \<Rightarrow> bool) \<Rightarrow> json \<Rightarrow> bool" where
  "enumValue label v =
     (case v of
        JStr x \<Rightarrow> length x \<le> maxPromptText \<and> \<not> has_control x \<and> \<not> has_backslash x \<and> \<not> label x
      | JNum _ \<Rightarrow> True
      | JBool _ \<Rightarrow> True
      | _ \<Rightarrow> False)"

fun enum_error :: "(string \<Rightarrow> bool) \<Rightarrow> json \<Rightarrow> schema_error option" where
  "enum_error label (JStr s) = (if label s then Some SchemaLabel else if \<not> enumValue label (JStr s) then Some SchemaEnum else None)"
| "enum_error label v = (if \<not> enumValue label v then Some SchemaEnum else None)"

fun check_all :: "('a \<Rightarrow> 'e option) \<Rightarrow> 'a list \<Rightarrow> 'e option" where
  "check_all f [] = None"
| "check_all f (v # vs) = (case f v of Some e \<Rightarrow> Some e | None \<Rightarrow> check_all f vs)"

definition enumValues :: "(string \<Rightarrow> bool) \<Rightarrow> json \<Rightarrow> schema_error + json list" where
  "enumValues label e =
     (case e of
        JArr vs \<Rightarrow>
          if vs = [] \<or> maxSchemaEnum < length vs then Inl SchemaEnum
          else (case check_all (enum_error label) vs of Some err \<Rightarrow> Inl err | None \<Rightarrow> Inr vs)
      | _ \<Rightarrow> Inl SchemaEnum)"

fun is_text :: "json option \<Rightarrow> string option" where
  "is_text (Some (JStr s)) = Some s"
| "is_text v = None"

text \<open>One option of a oneOf.\<close>

definition oneOf_option :: "(string \<Rightarrow> bool) \<Rightarrow> json \<Rightarrow> schema_error + json" where
  "oneOf_option label x =
     (case x of
        JObj opt \<Rightarrow>
          (case map_of opt ''const'' of
             None \<Rightarrow> Inl SchemaOneOf
           | Some c \<Rightarrow>
               if is_text (Some c) \<noteq> None \<and> label (the (is_text (Some c))) then Inl SchemaLabel
               else if \<not> enumValue label c then Inl SchemaOneOf
               else
                 (case is_text (map_of opt ''title'') of
                    None \<Rightarrow> Inr (JObj [(''const'', c)])
                  | Some t \<Rightarrow>
                      if label t then Inl SchemaLabel
                      else Inr (JObj [(''const'', c), (''title'', JStr (escapeControl t maxPromptText))])))
      | _ \<Rightarrow> Inl SchemaOneOf)"

fun map_results :: "('a \<Rightarrow> 'e + 'b) \<Rightarrow> 'a list \<Rightarrow> 'e + 'b list" where
  "map_results f [] = Inr []"
| "map_results f (x # xs) = (case f x of Inl e \<Rightarrow> Inl e | Inr y \<Rightarrow> (case map_results f xs of Inl e \<Rightarrow> Inl e | Inr ys \<Rightarrow> Inr (y # ys)))"

definition oneOfOptions :: "(string \<Rightarrow> bool) \<Rightarrow> json \<Rightarrow> schema_error + json list" where
  "oneOfOptions label v =
     (case v of
        JArr vs \<Rightarrow> if vs = [] \<or> maxSchemaEnum < length vs then Inl SchemaOneOf else map_results (oneOf_option label) vs
      | _ \<Rightarrow> Inl SchemaOneOf)"

text \<open>A default that is kept (\<open>Inr (Some v)\<close>), dropped (\<open>Inr None\<close>) or an error. The elements of an array are
  looked at in order; the first array, dropped element or error among them decides.\<close>

definition primitive_default :: "(string \<Rightarrow> bool) \<Rightarrow> json \<Rightarrow> schema_error + json option" where
  "primitive_default label d =
     (case d of
        JStr x \<Rightarrow>
          if label x then Inl SchemaLabel
          else if maxPromptText < length x \<or> escapeControl x 0 \<noteq> x then Inr None
          else Inr (Some (JStr x))
      | JNum n \<Rightarrow> Inr (Some (JNum n))
      | JBool b \<Rightarrow> Inr (Some (JBool b))
      | _ \<Rightarrow> Inr None)"

fun default_elems :: "(string \<Rightarrow> bool) \<Rightarrow> json list \<Rightarrow> schema_error + json list option" where
  "default_elems label [] = Inr (Some [])"
| "default_elems label (v # vs) =
     (case primitive_default label v of
        Inl e \<Rightarrow> Inl e
      | Inr None \<Rightarrow> Inr None
      | Inr (Some w) \<Rightarrow>
          (case default_elems label vs of Inl e \<Rightarrow> Inl e | Inr None \<Rightarrow> Inr None | Inr (Some ws) \<Rightarrow> Inr (Some (w # ws))))"

definition defaultValue :: "(string \<Rightarrow> bool) \<Rightarrow> json \<Rightarrow> schema_error + json option" where
  "defaultValue label d =
     (case d of
        JArr vs \<Rightarrow>
          if maxSchemaEnum < length vs then Inr None
          else (case default_elems label vs of Inl e \<Rightarrow> Inl e | Inr None \<Rightarrow> Inr None | Inr (Some ws) \<Rightarrow> Inr (Some (JArr ws)))
      | _ \<Rightarrow> primitive_default label d)"

section \<open>One property\<close>

definition property_types :: "string list" where
  "property_types = [''string'', ''number'', ''integer'', ''boolean'', ''array'']"

text \<open>A shown text: refused when it reads as a label, else escaped behind a prefix.\<close>

definition shown_text :: "(string \<Rightarrow> bool) \<Rightarrow> string \<Rightarrow> string \<Rightarrow> string \<Rightarrow> schema_error + (string \<times> json) list" where
  "shown_text label key pre t = (if label t then Inl SchemaLabel else Inr [(key, JStr (pre @ escapeControl t maxPromptText))])"

definition optional_text :: "(string \<Rightarrow> bool) \<Rightarrow> string \<Rightarrow> string \<Rightarrow> json option \<Rightarrow> schema_error + (string \<times> json) list" where
  "optional_text label key pre v = (case is_text v of None \<Rightarrow> Inr [] | Some t \<Rightarrow> shown_text label key pre t)"

definition number_fields :: "(string \<times> json) list \<Rightarrow> (string \<times> json) list" where
  "number_fields pm = concat (map (\<lambda>k. case map_of pm k of Some (JNum n) \<Rightarrow> [(k, JNum n)] | _ \<Rightarrow> []) [''minimum'', ''maximum'', ''minLength'', ''maxLength''])"

definition format_field :: "(string \<times> json) list \<Rightarrow> (string \<times> json) list" where
  "format_field pm =
     (case is_text (map_of pm ''format'') of Some f \<Rightarrow> if f \<in> set allowedFormats then [(''format'', JStr f)] else [] | None \<Rightarrow> [])"

definition enum_field :: "(string \<Rightarrow> bool) \<Rightarrow> (string \<times> json) list \<Rightarrow> schema_error + (string \<times> json) list" where
  "enum_field label pm =
     (case map_of pm ''enum'' of None \<Rightarrow> Inr [] | Some e \<Rightarrow> bind_result (enumValues label e) (\<lambda>vs. Inr [(''enum'', JArr vs)]))"

definition oneOf_field :: "(string \<Rightarrow> bool) \<Rightarrow> (string \<times> json) list \<Rightarrow> schema_error + (string \<times> json) list" where
  "oneOf_field label pm =
     (case map_of pm ''oneOf'' of None \<Rightarrow> Inr [] | Some v \<Rightarrow> bind_result (oneOfOptions label v) (\<lambda>vs. Inr [(''oneOf'', JArr vs)]))"

definition item_type :: "(string \<times> json) list \<Rightarrow> (string \<times> json) list" where
  "item_type items =
     (case is_text (map_of items ''type'') of
        Some ty \<Rightarrow> if ty \<in> {''string'', ''number'', ''integer''} then [(''type'', JStr ty)] else []
      | None \<Rightarrow> [])"

definition items_field :: "(string \<Rightarrow> bool) \<Rightarrow> string \<Rightarrow> (string \<times> json) list \<Rightarrow> schema_error + (string \<times> json) list" where
  "items_field label t pm =
     (if t \<noteq> ''array'' then Inr []
      else
        (case map_of pm ''items'' of
           Some (JObj items) \<Rightarrow>
             (case map_of items ''enum'' of
                None \<Rightarrow> Inl SchemaItems
              | Some e \<Rightarrow> bind_result (enumValues label e) (\<lambda>vs. Inr [(''items'', JObj ((''enum'', JArr vs) # item_type items))]))
         | _ \<Rightarrow> Inl SchemaItems))"

definition default_field :: "(string \<Rightarrow> bool) \<Rightarrow> (string \<times> json) list \<Rightarrow> schema_error + (string \<times> json) list" where
  "default_field label pm =
     (case map_of pm ''default'' of
        None \<Rightarrow> Inr []
      | Some d \<Rightarrow> bind_result (defaultValue label d) (\<lambda>dv. Inr (case dv of None \<Rightarrow> [] | Some v \<Rightarrow> [(''default'', v)])))"

definition relabelProperty :: "(string \<Rightarrow> bool) \<Rightarrow> string \<Rightarrow> string \<Rightarrow> json \<Rightarrow> schema_error + json" where
  "relabelProperty label server name v =
     (case v of
        JObj pm \<Rightarrow>
          (case is_text (map_of pm ''type'') of
             None \<Rightarrow> Inl SchemaPropType
           | Some t \<Rightarrow>
               if t \<notin> set property_types then Inl SchemaPropType
               else
                 (let title = (case is_text (map_of pm ''title'') of Some s \<Rightarrow> s | None \<Rightarrow> name) in
                  bind_result (shown_text label ''title'' (promptLabel server) title) (\<lambda>ti.
                  bind_result (optional_text label ''description'' [] (map_of pm ''description'')) (\<lambda>de.
                  bind_result (enum_field label pm) (\<lambda>en.
                  bind_result (oneOf_field label pm) (\<lambda>oo.
                  bind_result (items_field label t pm) (\<lambda>it.
                  bind_result (default_field label pm) (\<lambda>df.
                    Inr (JObj ([(''type'', JStr t)] @ ti @ de @ format_field pm @ number_fields pm @ en @ oo @ it @ df))))))))))
      | _ \<Rightarrow> Inl SchemaPropObject)"

section \<open>The schema\<close>

definition bad_name :: "string \<Rightarrow> bool" where
  "bad_name name \<longleftrightarrow> name = [] \<or> maxPropertyName < length name \<or> has_control name \<or> has_backslash name"

definition relabel_member :: "(string \<Rightarrow> bool) \<Rightarrow> string \<Rightarrow> (string \<times> json) list \<Rightarrow> string \<Rightarrow> schema_error + string \<times> json" where
  "relabel_member label server pm name =
     (if bad_name name then Inl SchemaName
      else if label name then Inl SchemaLabel
      else bind_result (relabelProperty label server name (the (map_of pm name))) (\<lambda>v. Inr (name, v)))"

definition properties_field :: "(string \<Rightarrow> bool) \<Rightarrow> string \<Rightarrow> (string \<times> json) list \<Rightarrow> schema_error + (string \<times> json) list option" where
  "properties_field label server m =
     (case map_of m ''properties'' of
        None \<Rightarrow> Inr None
      | Some (JObj pm) \<Rightarrow>
          if maxSchemaProperties < length pm then Inl SchemaTooMany
          else bind_result (map_results (relabel_member label server pm) (sort (go_keys pm))) (\<lambda>ps. Inr (Some ps))
      | Some _ \<Rightarrow> Inl SchemaProperties)"

fun kept_name :: "string list \<Rightarrow> json \<Rightarrow> json list" where
  "kept_name names (JStr n) = (if n \<in> set names then [JStr n] else [])"
| "kept_name names v = []"

definition required_field :: "string list \<Rightarrow> (string \<times> json) list \<Rightarrow> schema_error + (string \<times> json) list" where
  "required_field names m =
     (case map_of m ''required'' of
        None \<Rightarrow> Inr []
      | Some (JArr vs) \<Rightarrow> (let req = concat (map (kept_name names) vs) in Inr (if req = [] then [] else [(''required'', JArr req)]))
      | Some _ \<Rightarrow> Inl SchemaRequired)"

text \<open>\<open>json.Unmarshal\<close> into a map.\<close>

definition unmarshal_map :: "(string \<Rightarrow> string option) \<Rightarrow> string \<Rightarrow> (string \<times> json) list option" where
  "unmarshal_map num raw =
     (case decode_value num raw of Some (JObj m, r) \<Rightarrow> if skip_space r = [] then Some m else None | _ \<Rightarrow> None)"

definition rebuild :: "(string \<Rightarrow> bool) \<Rightarrow> string \<Rightarrow> (string \<times> json) list \<Rightarrow> schema_error + json" where
  "rebuild label server m =
     (if map_of m ''type'' \<noteq> None \<and> map_of m ''type'' \<noteq> Some (JStr ''object'') then Inl SchemaRootType
      else
        bind_result (optional_text label ''title'' (promptLabel server) (map_of m ''title'')) (\<lambda>ti.
        bind_result (optional_text label ''description'' [] (map_of m ''description'')) (\<lambda>de.
        bind_result (properties_field label server m) (\<lambda>ps.
        bind_result (required_field (case ps of None \<Rightarrow> [] | Some ps \<Rightarrow> go_keys ps) m) (\<lambda>req.
          (let out = JObj ([(''type'', JStr ''object'')] @ ti @ de @ (case ps of None \<Rightarrow> [] | Some ps \<Rightarrow> [(''properties'', JObj ps)]) @ req)
           in if maxSchemaBytes < length (marshal_json out) then Inl SchemaRebuiltSize else Inr out))))))"

text \<open>The schema is absent, cannot be encoded, or has a JSON text.\<close>

definition relabelSchema :: "(string \<Rightarrow> string option) \<Rightarrow> (string \<Rightarrow> bool) \<Rightarrow> string \<Rightarrow> string option option \<Rightarrow> schema_error + json option" where
  "relabelSchema num label server s =
     (case s of
        None \<Rightarrow> Inr None
      | Some None \<Rightarrow> Inl SchemaEncode
      | Some (Some raw) \<Rightarrow>
          if maxSchemaInput < length raw then Inl SchemaTooLarge
          else (case unmarshal_map num raw of None \<Rightarrow> Inl SchemaNotObject | Some m \<Rightarrow> bind_result (rebuild label server m) (\<lambda>v. Inr (Some v))))"


section \<open>What a rebuilt schema holds\<close>

text \<open>No string of a value, key or value, holds a control character.\<close>

fun clean_json :: "json \<Rightarrow> bool" where
  "clean_json (JStr s) = (\<not> has_control s)"
| "clean_json (JStrs ss) = list_all (\<lambda>s. \<not> has_control s) ss"
| "clean_json (JArr vs) = list_all clean_json vs"
| "clean_json (JObj m) = list_all (\<lambda>(k, v). \<not> has_control k \<and> clean_json v) m"
| "clean_json v = True"

abbreviation clean_fields :: "(string \<times> json) list \<Rightarrow> bool" where
  "clean_fields m \<equiv> list_all (\<lambda>(k, v). \<not> has_control k \<and> clean_json v) m"

lemma escape_no_control: "\<not> has_control (escapeControl s limit)"
  using escapeControl_safe [of s limit] by (auto simp: has_control_def safe_text_def safe_rune_def list_all_iff list_ex_iff)

lemma no_control_append: "printable p \<Longrightarrow> has_control (p @ s) = has_control s"
proof -
  assume p: "printable p"
  then have a: "is_ascii p" by (auto simp: printable_def is_ascii_def list_all_iff)
  have "\<not> isControl (byte c)" if "c \<in> set p" for c
    using ascii_safe [of c] p that by (auto simp: printable_def list_all_iff safe_rune_def)
  then show ?thesis by (auto simp: has_control_def runes_ascii_append [OF a] list_ex_iff)
qed

lemma no_control_printable: "printable p \<Longrightarrow> \<not> has_control p"
  using no_control_append [of p "[]"] by (simp add: has_control_def)

lemma check_all_None: "check_all f vs = None \<longleftrightarrow> (\<forall>v \<in> set vs. f v = None)"
  by (induction vs) (auto split: option.splits)

lemma map_results_Inr: "map_results f xs = Inr ys \<longleftrightarrow> list_all2 (\<lambda>x y. f x = Inr y) xs ys"
proof (induction xs arbitrary: ys)
  case (Cons x xs)
  then show ?case by (cases ys; cases "f x"; cases "map_results f xs") (auto simp: Cons.IH [symmetric])
qed auto

lemma enum_error_None: "enum_error label v = None \<longleftrightarrow> enumValue label v"
  by (cases v) (auto simp: enumValue_def)

lemma enumValue_clean: "enumValue label v \<Longrightarrow> clean_json v"
  by (cases v) (auto simp: enumValue_def)

lemma enumValues_Inr: "enumValues label e = Inr vs \<Longrightarrow> e = JArr vs \<and> vs \<noteq> [] \<and> length vs \<le> maxSchemaEnum \<and> (\<forall>v \<in> set vs. enumValue label v)"
  by (auto simp: enumValues_def check_all_None enum_error_None split: json.splits if_splits option.splits)

lemma enumValues_clean: "enumValues label e = Inr vs \<Longrightarrow> list_all clean_json vs"
  using enumValues_Inr [of label e vs] enumValue_clean by (auto simp: list_all_iff)

lemma key_printable: "printable ''const''" "printable ''title''" "printable ''type''" "printable ''description''" "printable ''enum''" "printable ''items''"
  "printable ''oneOf''" "printable ''default''" "printable ''format''" "printable ''minimum''" "printable ''maximum''" "printable ''minLength''"
  "printable ''maxLength''" "printable ''properties''" "printable ''required''" "printable ''object''" "printable ''string''" "printable ''number''" "printable ''integer''"
  by (simp_all add: printable_def)

lemmas keys_clean [simp] = key_printable [THEN no_control_printable]

lemma allowed_clean: "f \<in> set allowedFormats \<or> f \<in> set property_types \<Longrightarrow> \<not> has_control f"
  by (rule no_control_printable) (auto simp: allowedFormats_def property_types_def printable_def)

lemma oneOf_option_clean: "oneOf_option label x = Inr v \<Longrightarrow> clean_json v"
  using enumValue_clean escape_no_control by (auto simp: oneOf_option_def split: json.splits option.splits if_splits)

lemma oneOfOptions_clean: "oneOfOptions label v = Inr vs \<Longrightarrow> list_all clean_json vs"
proof -
  assume "oneOfOptions label v = Inr vs"
  then obtain xs where "list_all2 (\<lambda>x y. oneOf_option label x = Inr y) xs vs"
    by (auto simp: oneOfOptions_def map_results_Inr split: json.splits if_splits)
  then show ?thesis using oneOf_option_clean by (auto simp: list_all_iff list_all2_iff set_zip in_set_conv_nth) (metis)
qed

lemma primitive_default_clean: "primitive_default label d = Inr (Some v) \<Longrightarrow> clean_json v"
  using escape_no_control [of _ 0] by (auto simp: primitive_default_def split: json.splits if_splits) (metis)

lemma default_elems_clean: "default_elems label vs = Inr (Some ws) \<Longrightarrow> list_all clean_json ws"
  by (induction vs arbitrary: ws) (auto split: sum.splits option.splits dest: primitive_default_clean)

lemma defaultValue_clean: "defaultValue label d = Inr (Some v) \<Longrightarrow> clean_json v"
  using default_elems_clean primitive_default_clean unfolding defaultValue_def
  by (cases d) (auto split: sum.splits option.splits if_splits)

lemma shown_text_Inr: "shown_text label key pre t = Inr f \<longleftrightarrow> \<not> label t \<and> f = [(key, JStr (pre @ escapeControl t maxPromptText))]"
  by (auto simp: shown_text_def)

lemma optional_text_clean:
  "optional_text label key pre v = Inr f \<Longrightarrow> \<not> has_control key \<Longrightarrow> printable pre \<Longrightarrow> clean_fields f \<and> fst ` set f \<subseteq> {key}"
  by (auto simp: optional_text_def shown_text_Inr no_control_append escape_no_control split: option.splits)

lemma enum_field_clean:
  assumes "enum_field label pm = Inr f"
  shows "clean_fields f \<and> fst ` set f \<subseteq> {''enum''}"
proof (cases "map_of pm ''enum''")
  case (Some e)
  then obtain vs where "enumValues label e = Inr vs" "f = [(''enum'', JArr vs)]" using assms by (auto simp: enum_field_def)
  then show ?thesis using enumValues_clean [of label e vs] by simp
qed (use assms in \<open>simp add: enum_field_def\<close>)

lemma oneOf_field_clean:
  assumes "oneOf_field label pm = Inr f"
  shows "clean_fields f \<and> fst ` set f \<subseteq> {''oneOf''}"
proof (cases "map_of pm ''oneOf''")
  case (Some e)
  then obtain vs where "oneOfOptions label e = Inr vs" "f = [(''oneOf'', JArr vs)]" using assms by (auto simp: oneOf_field_def)
  then show ?thesis using oneOfOptions_clean [of label e vs] by simp
qed (use assms in \<open>simp add: oneOf_field_def\<close>)

lemma default_field_clean:
  assumes "default_field label pm = Inr f"
  shows "clean_fields f \<and> fst ` set f \<subseteq> {''default''}"
proof (cases "map_of pm ''default''")
  case (Some d)
  then obtain dv where "defaultValue label d = Inr dv" "f = (case dv of None \<Rightarrow> [] | Some v \<Rightarrow> [(''default'', v)])" using assms by (auto simp: default_field_def)
  then show ?thesis using defaultValue_clean [of label d] by (cases dv) simp_all
qed (use assms in \<open>simp add: default_field_def\<close>)

lemma item_type_clean: "clean_fields (item_type items)"
  using allowed_clean [of "the (is_text (map_of items ''type''))"] by (cases "is_text (map_of items ''type'')") (simp_all add: item_type_def property_types_def)

lemma items_field_clean:
  assumes "items_field label t pm = Inr f"
  shows "clean_fields f \<and> fst ` set f \<subseteq> {''items''}"
proof (cases "f = []")
  case False
  then obtain items e vs where "enumValues label e = Inr vs" "f = [(''items'', JObj ((''enum'', JArr vs) # item_type items))]"
    using assms by (auto simp: items_field_def split: if_splits option.splits json.splits)
  then show ?thesis using enumValues_clean [of label e vs] item_type_clean [of items] by simp
qed simp

lemma format_field_clean: "clean_fields (format_field pm) \<and> fst ` set (format_field pm) \<subseteq> {''format''}"
  using allowed_clean [of "the (is_text (map_of pm ''format''))"] by (cases "is_text (map_of pm ''format'')") (simp_all add: format_field_def)

lemma number_list_clean:
  "list_all (\<lambda>k. \<not> has_control k) ks \<Longrightarrow>
    clean_fields (concat (map (\<lambda>k. case map_of pm k of Some (JNum n) \<Rightarrow> [(k, JNum n)] | _ \<Rightarrow> []) ks))
    \<and> fst ` set (concat (map (\<lambda>k. case map_of pm k of Some (JNum n) \<Rightarrow> [(k, JNum n)] | _ \<Rightarrow> []) ks)) \<subseteq> set ks"
  by (induction ks) (auto split: option.splits json.splits)

lemma number_fields_clean: "clean_fields (number_fields pm) \<and> fst ` set (number_fields pm) \<subseteq> {''minimum'', ''maximum'', ''minLength'', ''maxLength''}"
proof -
  have "list_all (\<lambda>k. \<not> has_control k) [''minimum'', ''maximum'', ''minLength'', ''maxLength'']" by simp
  from number_list_clean [OF this, of pm] show ?thesis by (simp only: number_fields_def list.set)
qed

text \<open>The keywords of a property.\<close>

definition property_keys :: "string set" where
  "property_keys = {''type'', ''title'', ''description'', ''format'', ''minimum'', ''maximum'', ''minLength'', ''maxLength'', ''enum'', ''oneOf'', ''items'', ''default''}"

text \<open>A property of a rebuilt schema: an allowed type, a title behind the upstream's label, no other keyword, no control character.\<close>

definition property_ok :: "(string \<Rightarrow> bool) \<Rightarrow> string \<Rightarrow> json \<Rightarrow> bool" where
  "property_ok label server v \<longleftrightarrow>
     (\<exists>t title fs. v = JObj ((''type'', JStr t) # (''title'', JStr (promptLabel server @ escapeControl title maxPromptText)) # fs)
        \<and> t \<in> set property_types \<and> \<not> label title \<and> fst ` set fs \<subseteq> property_keys) \<and> clean_json v"

lemma server_label_printable: "printable server \<Longrightarrow> printable (promptLabel server)"
  by (simp add: promptLabel_def printable_def)

lemma relabelProperty_ok:
  assumes "relabelProperty label server name v = Inr w" "printable server"
  shows "property_ok label server w"
proof -
  obtain pm t title ti de en oo it df where v: "v = JObj pm" "t \<in> set property_types"
    and f: "shown_text label ''title'' (promptLabel server) title = Inr ti" "optional_text label ''description'' [] (map_of pm ''description'') = Inr de"
      "enum_field label pm = Inr en" "oneOf_field label pm = Inr oo" "items_field label t pm = Inr it" "default_field label pm = Inr df"
    and w: "w = JObj ([(''type'', JStr t)] @ ti @ de @ format_field pm @ number_fields pm @ en @ oo @ it @ df)"
    using assms(1) by (auto simp: relabelProperty_def Let_def split: json.splits option.splits if_splits)
  have ti: "\<not> label title" "ti = [(''title'', JStr (promptLabel server @ escapeControl title maxPromptText))]" using f(1) by (simp_all add: shown_text_Inr)
  have de: "clean_fields de \<and> fst ` set de \<subseteq> {''description''}" using optional_text_clean [OF f(2)] by (simp add: printable_def)
  have "clean_fields ti" using ti(2) no_control_append [OF server_label_printable [OF assms(2)]] by (simp add: escape_no_control)
  note parts = enum_field_clean [OF f(3)] oneOf_field_clean [OF f(4)] items_field_clean [OF f(5)] default_field_clean [OF f(6)]
    format_field_clean [of pm] number_fields_clean [of pm] de
  have "clean_json w" using \<open>clean_fields ti\<close> allowed_clean [of t] v(2) parts by (simp add: w)
  moreover have "{''description''} \<subseteq> property_keys" "{''format''} \<subseteq> property_keys" "{''minimum'', ''maximum'', ''minLength'', ''maxLength''} \<subseteq> property_keys"
    "{''enum''} \<subseteq> property_keys" "{''oneOf''} \<subseteq> property_keys" "{''items''} \<subseteq> property_keys" "{''default''} \<subseteq> property_keys"
    by (simp_all add: property_keys_def)
  then have "fst ` set (de @ format_field pm @ number_fields pm @ en @ oo @ it @ df) \<subseteq> property_keys"
    using parts unfolding set_append image_Un by (intro Un_least) (elim conjE, erule (1) subset_trans)+
  ultimately show ?thesis using v(2) ti unfolding property_ok_def w by (intro conjI exI [of _ t] exI [of _ title] exI [of _ "de @ format_field pm @ number_fields pm @ en @ oo @ it @ df"]) simp_all
qed

lemma properties_ok:
  assumes "properties_field label server m = Inr (Some ps)" "printable server"
  shows "length ps \<le> maxSchemaProperties \<and> (\<forall>(name, v) \<in> set ps. \<not> bad_name name \<and> \<not> label name \<and> property_ok label server v)"
proof -
  obtain pm where pm: "length pm \<le> maxSchemaProperties" "list_all2 (\<lambda>n p. relabel_member label server pm n = Inr p) (sort (go_keys pm)) ps"
    using assms(1) by (auto simp: properties_field_def map_results_Inr not_less split: option.splits json.splits if_splits)
  have "length ps = length pm" using list_all2_lengthD [OF pm(2)] by simp
  moreover have "\<not> bad_name name \<and> \<not> label name \<and> property_ok label server v" if nv: "(name, v) \<in> set ps" for name v
  proof -
    obtain n where "relabel_member label server pm n = Inr (name, v)" using pm(2) nv by (auto simp: list_all2_conv_all_nth in_set_conv_nth)
    then show ?thesis using relabelProperty_ok [OF _ assms(2)] by (auto simp: relabel_member_def split: if_splits)
  qed
  ultimately show ?thesis using pm(1) by auto
qed

lemma required_ok:
  "required_field names m = Inr f \<Longrightarrow> f = [] \<or> (\<exists>req. f = [(''required'', JArr req)] \<and> (\<forall>v \<in> set req. \<exists>n \<in> set names. v = JStr n))"
proof -
  have k: "\<exists>n \<in> set names. v = JStr n" if "v \<in> set (kept_name names w)" for v w using that by (cases w) (auto split: if_splits)
  then show "required_field names m = Inr f \<Longrightarrow> f = [] \<or> (\<exists>req. f = [(''required'', JArr req)] \<and> (\<forall>v \<in> set req. \<exists>n \<in> set names. v = JStr n))"
    by (auto simp: required_field_def Let_def split: option.splits json.splits if_splits)
qed

text \<open>What the agent is shown.\<close>

definition schema_ok :: "(string \<Rightarrow> bool) \<Rightarrow> string \<Rightarrow> json \<Rightarrow> bool" where
  "schema_ok label server v \<longleftrightarrow>
     (\<exists>ti de ps req. v = JObj ([(''type'', JStr ''object'')] @ ti @ de @ (case ps of None \<Rightarrow> [] | Some ps \<Rightarrow> [(''properties'', JObj ps)]) @ req)
        \<and> (ti = [] \<or> (\<exists>t. \<not> label t \<and> ti = [(''title'', JStr (promptLabel server @ escapeControl t maxPromptText))]))
        \<and> (de = [] \<or> (\<exists>t. \<not> label t \<and> de = [(''description'', JStr (escapeControl t maxPromptText))]))
        \<and> (\<forall>ps'. ps = Some ps' \<longrightarrow> length ps' \<le> 32 \<and> (\<forall>(name, p) \<in> set ps'. \<not> bad_name name \<and> \<not> label name \<and> property_ok label server p))
        \<and> (req = [] \<or> (\<exists>ns. req = [(''required'', JArr ns)] \<and> (\<forall>n \<in> set ns. \<exists>name \<in> fst ` set (case ps of None \<Rightarrow> [] | Some ps \<Rightarrow> ps). n = JStr name))))
     \<and> clean_json v \<and> length (marshal_json v) \<le> 16384"

lemma optional_text_Inr:
  "optional_text label key pre v = Inr f \<Longrightarrow> f = [] \<or> (\<exists>t. \<not> label t \<and> f = [(key, JStr (pre @ escapeControl t maxPromptText))])"
  by (auto simp: optional_text_def shown_text_Inr split: option.splits)

lemma bad_name_clean: "\<not> bad_name name \<Longrightarrow> \<not> has_control name"
  by (simp add: bad_name_def)

lemma rebuild_ok:
  assumes "rebuild label server m = Inr v" "printable server"
  shows "schema_ok label server v"
proof -
  obtain ti de ps req where f: "optional_text label ''title'' (promptLabel server) (map_of m ''title'') = Inr ti"
      "optional_text label ''description'' [] (map_of m ''description'') = Inr de" "properties_field label server m = Inr ps"
      "required_field (case ps of None \<Rightarrow> [] | Some ps \<Rightarrow> go_keys ps) m = Inr req"
    and v: "v = JObj ([(''type'', JStr ''object'')] @ ti @ de @ (case ps of None \<Rightarrow> [] | Some ps \<Rightarrow> [(''properties'', JObj ps)]) @ req)"
    and size: "length (marshal_json v) \<le> 16384"
    using assms(1) by (auto simp: rebuild_def Let_def maxSchemaBytes_def split: if_splits)
  have p: "length ps' \<le> maxSchemaProperties \<and> (\<forall>(name, p) \<in> set ps'. \<not> bad_name name \<and> \<not> label name \<and> property_ok label server p)" if "ps = Some ps'" for ps'
    using properties_ok [of label server m ps'] f(3) that assms(2) by simp
  have pc: "clean_fields ps'" if "ps = Some ps'" for ps' using p [OF that] bad_name_clean by (auto simp: list_all_iff property_ok_def)
  have r: "req = [] \<or> (\<exists>ns. req = [(''required'', JArr ns)] \<and> (\<forall>n \<in> set ns. \<exists>name \<in> fst ` set (case ps of None \<Rightarrow> [] | Some ps \<Rightarrow> ps). n = JStr name))"
  proof -
    have "set (case ps of None \<Rightarrow> [] | Some ps \<Rightarrow> go_keys ps) = fst ` set (case ps of None \<Rightarrow> [] | Some ps \<Rightarrow> ps)" by (cases ps) simp_all
    then show ?thesis using required_ok [OF f(4)] by simp
  qed
  then have "clean_fields req"
  proof
    assume "\<exists>ns. req = [(''required'', JArr ns)] \<and> (\<forall>n \<in> set ns. \<exists>name \<in> fst ` set (case ps of None \<Rightarrow> [] | Some ps \<Rightarrow> ps). n = JStr name)"
    then obtain ns where ns: "req = [(''required'', JArr ns)]" "\<forall>n \<in> set ns. \<exists>name \<in> fst ` set (case ps of None \<Rightarrow> [] | Some ps \<Rightarrow> ps). n = JStr name" by blast
    have "clean_json n" if "n \<in> set ns" for n using ns(2) that pc by (fastforce simp: list_all_iff split: option.splits)
    then show ?thesis by (simp add: ns(1) list_all_iff)
  qed simp
  moreover have "clean_fields ti" using optional_text_clean [OF f(1)] server_label_printable [OF assms(2)] by simp
  moreover have "clean_fields de" using optional_text_clean [OF f(2)] by (simp add: printable_def)
  ultimately have "clean_json v" using pc by (simp add: v split: option.split)
  then show ?thesis using size p r optional_text_Inr [OF f(1)] optional_text_Inr [OF f(2)] unfolding schema_ok_def
    by (intro conjI exI [of _ ti] exI [of _ de] exI [of _ ps] exI [of _ req]) (simp_all add: v maxSchemaProperties_def)
qed

lemma relabelSchema_ok:
  "relabelSchema num label server s = Inr (Some v) \<Longrightarrow> printable server \<Longrightarrow> schema_ok label server v"
  using rebuild_ok [of label server _ v] by (auto simp: relabelSchema_def split: option.splits if_splits)

text \<open>Property C0 (safety). The form an agent is shown is rebuilt, not copied: whatever schema an upstream sends, what comes out has only
  the allowed keywords, at most 32 properties and 16 KiB, required names that are its own properties; the form's title, when it has one, and every
  property's title stand behind the upstream's label; no string in it, key or value, holds a control
  character; and no text it was built from reads as an origin label.\<close>

theorem schema_rebuilt_safe:
  assumes "relabelSchema num (hasOriginLabel mark lower) server s = Inr (Some v)" "printable server"
  shows "schema_ok (hasOriginLabel mark lower) server v"
  using assms by (rule relabelSchema_ok)

section \<open>Witness\<close>

definition demo_schema :: json where
  "demo_schema = JObj [(''title'', JStr ''Hi''), (''x-other'', JBool True)]"

lemma unmarshal_obj: "decode_value num raw = Some (JObj m, []) \<Longrightarrow> unmarshal_map num raw = Some m"
  by (simp add: unmarshal_map_def skip_space_def)

lemma demo_unmarshal: "unmarshal_map Some (marshal_json demo_schema) = Some [(''title'', JStr ''Hi''), (''x-other'', JBool True)]"
proof -
  have a: "sane demo_schema = demo_schema" by (simp add: demo_schema_def to_valid_ascii is_ascii_def)
  have "decode_value Some (marshal_json demo_schema @ []) = Some (sane demo_schema, [])"
    by (rule decode_value_marshal, simp_all only: a) (simp_all add: demo_schema_def wf_map_def maxNestingDepth_def)
  then have d: "decode_value Some (marshal_json demo_schema) = Some (demo_schema, [])" by (simp add: a)
  show ?thesis by (rule unmarshal_obj) (simp only: d demo_schema_def [symmetric])
qed

lemma plain_not_label: "\<not> hasOriginLabel (\<lambda>_. False) ascii_lower ''Hi''"
  by (simp add: hasOriginLabel_def fold_label_plain unencoded_def untagged_def runes_Cons fold_ascii space_rune_def markup_def ascii_lower_def
      char_of_def bit_Suc_0_iff origin_label_def)

lemma demo_rebuilt:
  "relabelSchema Some (hasOriginLabel (\<lambda>_. False) ascii_lower) ''junos'' (Some (Some (marshal_json demo_schema)))
    = Inr (Some (JObj [(''type'', JStr ''object''), (''title'', JStr ''[from junos] Hi'')]))"
proof -
  have e: "escapeControl ''Hi'' maxPromptText = ''Hi''"
    by (simp add: escapeControl_def runes_Cons escape_piece_def isControl_def is_format_def format_ranges_def rune_error_def maxPromptText_def)
  have o: "relabelSchema Some label ''junos'' (Some (Some (marshal_json demo_schema))) =
      bind_result (rebuild label ''junos'' [(''title'', JStr ''Hi''), (''x-other'', JBool True)]) (\<lambda>v. Inr (Some v))" if "\<not> maxSchemaInput < length (marshal_json demo_schema)" for label
    using that by (simp add: relabelSchema_def demo_unmarshal)
  have s: "length (marshal_json demo_schema) \<le> 100"
    by (simp add: demo_schema_def marshal_member_def marshal_string_def runes_Cons marshal_rune_def escape_byte_def encode_string_rune_def)
  show ?thesis using s plain_not_label
    by (simp add: o maxSchemaInput_def rebuild_def optional_text_def shown_text_def properties_field_def required_field_def e promptLabel_def
        marshal_member_def marshal_string_def runes_Cons marshal_rune_def escape_byte_def encode_string_rune_def maxSchemaBytes_def)
qed

theorem schema_rebuilt_safe_witness:
  "schema_ok (hasOriginLabel (\<lambda>_. False) ascii_lower) ''junos'' (JObj [(''type'', JStr ''object''), (''title'', JStr ''[from junos] Hi'')])"
  by (rule schema_rebuilt_safe [OF demo_rebuilt]) (simp add: printable_def)

end
