(* ===== verification/Go_Netip.thy ===== *)
theory Go_Netip
  imports Go_Strings
begin

text \<open>
  Package \<^verbatim>\<open>net/netip\<close>: what \<open>ParseAddr\<close> accepts, and as what: an IPv4 address, or an IPv6
  address with its zone. The bits of the address are not kept, as no caller reads them.
\<close>

datatype addr = Addr4 | Addr6 (addr_zone: string)

text \<open>\<open>parseIPv4Fields\<close>: value, field position and digits of the current octet.\<close>

fun ipv4_fields :: "nat \<Rightarrow> nat \<Rightarrow> nat \<Rightarrow> string \<Rightarrow> bool" where
  "ipv4_fields val pos dig [] \<longleftrightarrow> 3 \<le> pos"
| "ipv4_fields val pos dig (c # s) \<longleftrightarrow>
     (if is_decimal c then
        \<not> (dig = 1 \<and> val = 0) \<and> val * 10 + (byte c - 48) \<le> 255
        \<and> ipv4_fields (val * 10 + (byte c - 48)) pos (Suc dig) s
      else if c = CHR ''.'' then dig \<noteq> 0 \<and> s \<noteq> [] \<and> pos \<noteq> 3 \<and> ipv4_fields 0 (Suc pos) 0 s
      else False)"

definition is_hex :: "char \<Rightarrow> bool" where
  [go_defs]: "is_hex c \<longleftrightarrow> is_decimal c \<or> (97 \<le> byte c \<and> byte c \<le> 102) \<or> (65 \<le> byte c \<and> byte c \<le> 70)"

text \<open>The loop of \<open>parseIPv6\<close> after a leading ellipsis, with \<open>i\<close> bytes of the address filled and
  whether an ellipsis was met: at the end the whole string must be used, and the ellipsis stands
  for at least one field.\<close>

definition ipv6_end :: "nat \<Rightarrow> bool \<Rightarrow> string \<Rightarrow> bool" where
  "ipv6_end i ell s \<longleftrightarrow> s = [] \<and> (if i < 16 then ell else \<not> ell)"

function ipv6_loop :: "nat \<Rightarrow> bool \<Rightarrow> string \<Rightarrow> bool" where
  "ipv6_loop i ell s \<longleftrightarrow>
     (if 16 \<le> i then ipv6_end i ell s
      else
        let grp = takeWhile is_hex s; rest = dropWhile is_hex s in
        if 4 < length grp \<or> grp = [] then False
        else case rest of
          [] \<Rightarrow> ipv6_end (i + 2) ell []
        | c # t \<Rightarrow>
            if c = CHR ''.'' then
              (ell \<or> i = 12) \<and> i + 4 \<le> 16 \<and> ipv4_fields 0 0 0 s \<and> ipv6_end (i + 4) ell []
            else if c \<noteq> CHR '':'' \<or> t = [] then False
            else if hd t = CHR '':'' then
              \<not> ell \<and> (if tl t = [] then ipv6_end (i + 2) True [] else ipv6_loop (i + 2) True (tl t))
            else ipv6_loop (i + 2) ell t)"
  by pat_completeness auto
termination
  by (relation "measure (\<lambda>(i, ell, s). 16 - i)") auto

declare ipv6_loop.simps [simp del]

definition parse_ipv6 :: "string \<Rightarrow> addr option" where
  "parse_ipv6 s0 =
     (case cut_byte (CHR ''%'') s0 of (s, zone, has_zone) \<Rightarrow>
        if has_zone \<and> zone = [] then None
        else if prefix ''::'' s then
          (if drop 2 s = [] \<or> ipv6_loop 0 True (drop 2 s) then Some (Addr6 zone) else None)
        else if ipv6_loop 0 False s then Some (Addr6 zone) else None)"

text \<open>\<open>netip.ParseAddr\<close>: the first dot, colon or percent sign decides the kind.\<close>

definition ParseAddr :: "string \<Rightarrow> addr option" where
  "ParseAddr s =
     (case find_first (\<lambda>c. c = CHR ''.'' \<or> c = CHR '':'' \<or> c = CHR ''%'') s of
        None \<Rightarrow> None
      | Some c \<Rightarrow> if c = CHR ''.'' then (if ipv4_fields 0 0 0 s then Some Addr4 else None)
                  else if c = CHR '':'' then parse_ipv6 s
                  else None)"

section \<open>Lemmas\<close>

lemma ipv4_fields_bytes: "ipv4_fields v p d s \<Longrightarrow> c \<in> set s \<Longrightarrow> is_decimal c \<or> c = CHR ''.''"
  by (induction v p d s rule: ipv4_fields.induct) (auto split: if_splits)

lemma ipv6_loop_bytes:
  "ipv6_loop i ell s \<Longrightarrow> c \<in> set s \<Longrightarrow> is_hex c \<or> c = CHR '':'' \<or> c = CHR ''.''"
proof (induction i ell s rule: ipv6_loop.induct)
  case (1 i ell s)
  have split: "s = takeWhile is_hex s @ dropWhile is_hex s" by simp
  have hexes: "c \<in> set (takeWhile is_hex s) \<Longrightarrow> is_hex c" using set_takeWhileD by metis
  show ?case
  proof (cases "c \<in> set (takeWhile is_hex s)")
    case False
    then have c: "c \<in> set (dropWhile is_hex s)" using "1.prems"(2) split by (metis Un_iff set_append)
    then have i: "\<not> 16 \<le> i" using "1.prems" by (auto simp: ipv6_loop.simps [of i ell s] ipv6_end_def)
    obtain b t where bt: "dropWhile is_hex s = b # t" using c by (cases "dropWhile is_hex s") auto
    note unf = "1.prems"(1) [unfolded ipv6_loop.simps [of i ell s] if_not_P [OF i] Let_def bt, simplified]
    show ?thesis
    proof (cases "b = CHR ''.''")
      case True
      then have "ipv4_fields 0 0 0 s" using unf by (auto split: if_splits)
      then show ?thesis using ipv4_fields_bytes "1.prems"(2) by (fastforce simp: is_hex_def)
    next
      case b: False
      then have colon: "b = CHR '':''" "t \<noteq> []" using unf by (auto split: if_splits)
      show ?thesis
      proof (cases "hd t = CHR '':''")
        case True
        have t: "t = CHR '':'' # tl t" using True colon by (cases t) auto
        show ?thesis
        proof (cases "tl t = []")
          case True
          then show ?thesis using c bt colon t by (metis empty_iff empty_set set_ConsD)
        next
          case ne: False
          then have "ipv6_loop (i + 2) True (tl t)" using unf b colon True by (auto split: if_splits)
          then show ?thesis using "1.IH"(1) c bt colon t b True ne i unf by (metis set_ConsD)
        qed
      next
        case nh: False
        then have "ipv6_loop (i + 2) ell t" using unf b colon by (auto split: if_splits)
        then show ?thesis using "1.IH"(2) c bt colon b nh i unf by (metis set_ConsD)
      qed
    qed
  qed (use hexes in blast)
qed

end
