(* ===== verification/Gate_Args.thy ===== *)
theory Gate_Args
  imports Classify_Normalize Go_Netip
begin

text \<open>
  \<^verbatim>\<open>internal/gate/args.go\<close>: decoding the arguments of a call, its target names, what counts as a
  target name, and the caps per call. The decoder works on the tokens of \<^verbatim>\<open>encoding/json\<close>, one
  top-level key at a time, so that a key given twice is seen.
\<close>

section \<open>Parsing the arguments\<close>

definition parseNotObject :: string where "parseNotObject = ''not_object''"
definition parseInvalidJSON :: string where "parseInvalidJSON = ''invalid_json''"
definition parseInvalidUTF8 :: string where "parseInvalidUTF8 = ''invalid_utf8''"
definition parseDuplicateKey :: string where "parseDuplicateKey = ''duplicate_key''"
definition parseTrailingData :: string where "parseTrailingData = ''trailing_data''"

lemmas parse_codes = parseNotObject_def parseInvalidJSON_def parseInvalidUTF8_def parseDuplicateKey_def
  parseTrailingData_def

text \<open>The text where the next key must start: at once for the first key, after a comma later.\<close>

definition key_start :: "bool \<Rightarrow> string \<Rightarrow> string option" where
  "key_start start s =
     (if start then Some s
      else case s of [] \<Rightarrow> None | c # t \<Rightarrow> if c = CHR '','' then Some (skip_space t) else None)"

text \<open>One key and its value: the key must be new before its value is decoded.\<close>

definition parse_field :: "(string \<Rightarrow> string option) \<Rightarrow> args \<Rightarrow> string \<Rightarrow> string + (string \<times> json \<times> string)" where
  "parse_field num out s =
     (case s of
        [] \<Rightarrow> Inl parseInvalidJSON
      | q # u \<Rightarrow>
          if byte q \<noteq> 34 then Inl parseInvalidJSON
          else (case parse_string u of
            None \<Rightarrow> Inl parseInvalidJSON
          | Some (key, r) \<Rightarrow>
              if key \<in> set (go_keys out) then Inl parseDuplicateKey
              else (case skip_space r of
                [] \<Rightarrow> Inl parseInvalidJSON
              | c # w \<Rightarrow>
                  if c \<noteq> CHR '':'' then Inl parseInvalidJSON
                  else (case decode_value num w of
                    None \<Rightarrow> Inl parseInvalidJSON
                  | Some (v, rest) \<Rightarrow> Inr (key, v, rest)))))"

lemma parse_field_shorter:
  "parse_field num out s = Inr (key, v, rest) \<Longrightarrow> length rest < length s"
  by (auto simp: parse_field_def split: list.splits if_splits option.splits
      dest!: parse_string_shorter decode_value_shorter skip_space_Cons)

lemma key_start_shorter: "key_start start s = Some t \<Longrightarrow> length t \<le> length s"
  by (auto simp: key_start_def le_SucI split: if_splits list.splits)

function parse_fields :: "(string \<Rightarrow> string option) \<Rightarrow> bool \<Rightarrow> args \<Rightarrow> string \<Rightarrow> string + args" where
  "parse_fields num start out s =
     (case skip_space s of
        [] \<Rightarrow> Inl parseInvalidJSON
      | c # t \<Rightarrow>
          if c = CHR '']'' then Inl parseInvalidJSON
          else if c = CHR ''}'' then (if skip_space t = [] then Inr out else Inl parseTrailingData)
          else (case key_start start (c # t) of
            None \<Rightarrow> Inl parseInvalidJSON
          | Some k \<Rightarrow>
              (case parse_field num out k of
                 Inl e \<Rightarrow> Inl e
               | Inr (key, v, rest) \<Rightarrow> parse_fields num False (out @ [(key, v)]) rest)))"
  by pat_completeness auto
termination
proof (relation "measure (\<lambda>(num, start, out, s). length s)", goal_cases)
  case (2 num start out s c t k x y z)
  have "length (c # t) \<le> length s" using 2(1) length_skip_space [of s] by simp
  then show ?case using key_start_shorter [OF 2(4)] parse_field_shorter [of num out k] 2 by auto
qed simp

declare parse_fields.simps [simp del]

definition parseArguments :: "(string \<Rightarrow> string option) \<Rightarrow> string \<Rightarrow> string + args" where
  "parseArguments num raw =
     (let s = trim_space raw in
      if s = [] \<or> s = ''null'' then Inr []
      else if \<not> utf8_valid s then Inl parseInvalidUTF8
      else case skip_space s of
        [] \<Rightarrow> Inl parseInvalidJSON
      | c # t \<Rightarrow>
          if c = CHR ''{'' then parse_fields num True [] t
          else if c = CHR ''['' then Inl parseNotObject
          else (case decode_value num (c # t) of
                  None \<Rightarrow> Inl parseInvalidJSON
                | Some _ \<Rightarrow> Inl parseNotObject))"

section \<open>Target names\<close>

definition maxNameLen :: nat where "maxNameLen = 253"

definition hostByte :: "char \<Rightarrow> bool" where
  [go_defs]: "hostByte c \<longleftrightarrow> is_lower c \<or> is_upper c \<or> is_decimal c \<or> c = CHR ''-'' \<or> c = CHR ''_'' \<or> c = CHR ''.''"

definition hexByte :: "char \<Rightarrow> bool" where
  [go_defs]: "hexByte c \<longleftrightarrow> is_decimal c \<or> (97 \<le> byte c \<and> byte c \<le> 102) \<or> (65 \<le> byte c \<and> byte c \<le> 70)"

text \<open>\<open>jsonScalar\<close>: after the literal names, the closure \<open>digits\<close> eats a run of digits.\<close>

definition scalar_exp :: "string \<Rightarrow> bool" where
  "scalar_exp s =
     (case s of
        [] \<Rightarrow> True
      | c # t \<Rightarrow>
          if c = CHR ''e'' \<or> c = CHR ''E'' then
            (let u = (case t of [] \<Rightarrow> [] | d # u \<Rightarrow> if d = CHR ''+'' \<or> d = CHR ''-'' then u else t)
             in takeWhile is_decimal u \<noteq> [] \<and> dropWhile is_decimal u = [])
          else False)"

definition scalar_frac :: "string \<Rightarrow> bool" where
  "scalar_frac s =
     (case s of
        [] \<Rightarrow> True
      | c # t \<Rightarrow>
          if c = CHR ''.'' then takeWhile is_decimal t \<noteq> [] \<and> scalar_exp (dropWhile is_decimal t)
          else scalar_exp s)"

definition jsonScalar :: "string \<Rightarrow> bool" where
  "jsonScalar s \<longleftrightarrow>
     (if s \<in> {''null'', ''true'', ''false'', ''NaN'', ''Infinity''} then True
      else takeWhile is_decimal s \<noteq> [] \<and> scalar_frac (dropWhile is_decimal s))"

definition numericLabel :: "string \<Rightarrow> bool" where
  "numericLabel l \<longleftrightarrow>
     (if 2 \<le> length l \<and> l ! 0 = CHR ''0'' \<and> (l ! 1 = CHR ''x'' \<or> l ! 1 = CHR ''X'')
      then list_all hexByte (drop 2 l)
      else list_all is_decimal l)"

definition bad_label :: "string \<Rightarrow> bool" where
  "bad_label l \<longleftrightarrow> l = [] \<or> 63 < length l \<or> hd l = CHR ''-''"

definition validTargetName :: "string \<Rightarrow> bool" where
  "validTargetName s \<longleftrightarrow>
     (if s = [] \<or> maxNameLen < length s then False
      else if CHR '':'' \<in> set s then ParseAddr s = Some (Addr6 [])
      else if \<not> list_all hostByte s then False
      else if jsonScalar s then False
      else
        let labels = split_on (CHR ''.'') s in
        if list_ex bad_label labels then False
        else if numericLabel (last labels) then ParseAddr s = Some Addr4
        else True)"

section \<open>The targets of a call\<close>

text \<open>The names one argument carries, \<open>None\<close> for a value of the wrong type.\<close>

fun target_value :: "json \<Rightarrow> string list option" where
  "target_value JNull = Some []"
| "target_value (JStr s) = Some [s]"
| "target_value v = None"

fun json_strings :: "json list \<Rightarrow> string list option" where
  "json_strings [] = Some []"
| "json_strings (JStr s # vs) = map_option (Cons s) (json_strings vs)"
| "json_strings (v # vs) = None"

fun targets_value :: "json \<Rightarrow> string list option" where
  "targets_value JNull = Some []"
| "targets_value (JStr s) = Some (if s = [] then [] else split_on (CHR '','') s)"
| "targets_value (JArr vs) = json_strings vs"
| "targets_value v = None"

fun group_value :: "json \<Rightarrow> bool" where
  "group_value JNull = False"
| "group_value (JStr s) = (s \<noteq> [])"
| "group_value (JArr vs) = (vs \<noteq> [])"
| "group_value v = True"

fun param_names :: "(json \<Rightarrow> string list option) \<Rightarrow> args \<Rightarrow> string list \<Rightarrow> string list option" where
  "param_names f a [] = Some []"
| "param_names f a (p # ps) =
     (case (case map_of a p of None \<Rightarrow> Some [] | Some v \<Rightarrow> f v) of
        None \<Rightarrow> None
      | Some ns \<Rightarrow> if list_all validTargetName ns then map_option (append ns) (param_names f a ps) else None)"

text \<open>\<open>targets\<close>: \<open>None\<close> is \<open>targetBadName\<close>; otherwise the names and whether a group is selected.\<close>

definition targets :: "toolspec \<Rightarrow> args \<Rightarrow> (string list \<times> bool) option" where
  "targets spec a =
     (case (param_names target_value a (ts_target_params spec),
            param_names targets_value a (ts_targets_params spec)) of
        (Some ns, Some ms) \<Rightarrow>
          Some (dedup_from {} (ns @ ms),
                list_ex (\<lambda>p. case map_of a p of None \<Rightarrow> False | Some v \<Rightarrow> group_value v) (ts_group_params spec))
      | _ \<Rightarrow> None)"

definition declaresTargets :: "toolspec \<Rightarrow> bool" where
  "declaresTargets spec \<longleftrightarrow> ts_target_params spec \<noteq> [] \<or> ts_targets_params spec \<noteq> [] \<or> ts_group_params spec \<noteq> []"

definition argumentFindings :: "result \<Rightarrow> string list \<times> string list" where
  "argumentFindings res = (r_unnamed res, r_malformed res)"

section \<open>The caps per call\<close>

definition maxCommandsPerCall :: nat where "maxCommandsPerCall = 64"
definition maxTargetsPerCall :: nat where "maxTargetsPerCall = 256"
definition parseTooManyCommands :: string where "parseTooManyCommands = ''too_many_commands''"
definition parseTooManyTargets :: string where "parseTooManyTargets = ''too_many_targets''"

definition reasonTooManyCommands :: string where
  [text_defs]: "reasonTooManyCommands = ''a call may carry at most 64 commands; split it into smaller calls''"
definition reasonTooManyTargets :: string where
  [text_defs]: "reasonTooManyTargets = ''a call may name at most 256 targets; split it into smaller calls''"

definition countString :: "bool \<Rightarrow> string \<Rightarrow> nat" where
  "countString commas s =
     (if \<not> commas then 1 else if s = [] then 0 else Suc (length (filter (\<lambda>c. c = CHR '','') s)))"

fun count_values :: "bool \<Rightarrow> json \<Rightarrow> nat" where
  "count_values commas JNull = 0"
| "count_values commas (JStr s) = countString commas s"
| "count_values commas (JStrs ss) = sum_list (map (countString commas) ss)"
| "count_values commas (JArr vs) = sum_list (map (count_values commas) vs)"
| "count_values commas v = 1"

definition countValues :: "bool \<Rightarrow> json option \<Rightarrow> nat" where
  "countValues commas v = (case v of None \<Rightarrow> 0 | Some j \<Rightarrow> count_values commas j)"

definition command_count :: "toolspec \<Rightarrow> args \<Rightarrow> nat" where
  "command_count spec a = sum_list (map (\<lambda>p. countValues False (map_of a p)) (ts_command_params spec))"

definition target_count :: "toolspec \<Rightarrow> args \<Rightarrow> nat" where
  "target_count spec a =
     sum_list (map (\<lambda>p. countValues True (map_of a p))
       (ts_target_params spec @ ts_targets_params spec @ ts_group_params spec))"

definition overCaps :: "toolspec \<Rightarrow> args \<Rightarrow> (string \<times> string) option" where
  "overCaps spec a =
     (if maxCommandsPerCall < command_count spec a then Some (parseTooManyCommands, reasonTooManyCommands)
      else if maxTargetsPerCall < target_count spec a then Some (parseTooManyTargets, reasonTooManyTargets)
      else None)"

section \<open>Arguments: no key twice\<close>

lemma parse_field_new_key: "parse_field num out s = Inr (key, v, rest) \<Longrightarrow> key \<notin> set (go_keys out)"
  by (simp add: parse_field_def split: list.splits if_splits option.splits prod.splits)

lemma parse_fields_wf: "parse_fields num start out s = Inr a \<Longrightarrow> wf_map out \<Longrightarrow> wf_map a"
proof (induction num start out s rule: parse_fields.induct)
  case (1 num start out s)
  obtain c t where ct: "skip_space s = c # t"
    using "1.prems"(1) by (auto simp: parse_fields.simps [of num start out s] split: list.splits)
  have c1: "c \<noteq> CHR '']''" using "1.prems"(1) ct by (auto simp: parse_fields.simps [of num start out s])
  show ?case
  proof (cases "c = CHR ''}''")
    case True
    then show ?thesis using "1.prems" ct by (auto simp: parse_fields.simps [of num start out s] split: if_splits)
  next
    case False
    obtain k where k: "key_start start (c # t) = Some k"
      using "1.prems"(1) ct c1 False by (auto simp: parse_fields.simps [of num start out s] split: option.splits)
    obtain key v rest where f: "parse_field num out k = Inr (key, v, rest)"
      using "1.prems"(1) ct c1 False k by (auto simp: parse_fields.simps [of num start out s] split: sum.splits)
    have "parse_fields num False (out @ [(key, v)]) rest = Inr a"
      using "1.prems"(1) ct c1 False k f by (simp add: parse_fields.simps [of num start out s])
    moreover have "wf_map (out @ [(key, v)])" using "1.prems"(2) parse_field_new_key [OF f] by (simp add: wf_map_def)
    ultimately show ?thesis using "1.IH" [OF ct c1 False k f] by blast
  qed
qed

lemma parseArguments_wf: "parseArguments num raw = Inr a \<Longrightarrow> wf_map a"
  by (auto simp: parseArguments_def Let_def wf_map_def [of "[]"] dest: parse_fields_wf
      split: if_splits list.splits option.splits)

section \<open>Names an upstream cannot read as JSON\<close>

lemma host_not_space: "hostByte c \<Longrightarrow> \<not> json_space c \<and> byte c \<noteq> 34 \<and> c \<noteq> CHR ''['' \<and> c \<noteq> CHR ''{'' \<and> c \<noteq> CHR '':''"
  by (auto simp: go_defs)

text \<open>The rest of a number after its integer part, as the JSON grammar has it.\<close>

lemma parse_exp_scalar: "parse_exp s = Some (e, []) \<Longrightarrow> scalar_exp s"
  by (auto simp: parse_exp_def scalar_exp_def digits_of_def Let_def split: list.splits if_splits prod.splits)

lemma parse_frac_scalar: "parse_frac s = Some (f, v) \<Longrightarrow> parse_exp v = Some (e, []) \<Longrightarrow> scalar_frac s"
  by (auto simp: parse_frac_def scalar_frac_def digits_of_def Let_def parse_exp_scalar
      split: list.splits if_splits prod.splits)

lemma frac_exp_not_digit:
  "parse_frac s = Some (f, v) \<Longrightarrow> parse_exp v = Some (e, []) \<Longrightarrow> s = [] \<or> \<not> is_decimal (hd s)"
  by (auto simp: parse_frac_def parse_exp_def go_defs split: list.splits if_splits)

lemma parse_number_scalar:
  assumes "parse_number s = Some (lit, [])" and "s \<noteq> []" and "hd s \<noteq> CHR ''-''"
  shows "takeWhile is_decimal s \<noteq> [] \<and> scalar_frac (dropWhile is_decimal s)"
proof -
  obtain i u f v e where i: "parse_int_part s = Some (i, u)" and f: "parse_frac u = Some (f, v)"
      and e: "parse_exp v = Some (e, [])"
    using assms by (cases s) (auto simp: parse_number_def Let_def split: option.splits)
  obtain c t where s: "s = c # t" using assms(2) by (cases s) auto
  have d: "is_decimal c" using i s by (auto simp: parse_int_part_def go_defs split: if_splits)
  have "dropWhile is_decimal s = u"
  proof (cases "c = CHR ''0''")
    case True
    then have "u = t" using i s by (simp add: parse_int_part_def)
    then show ?thesis using frac_exp_not_digit [OF f e] s d by (cases t) auto
  next
    case False
    then show ?thesis using i s d by (simp add: parse_int_part_def digits_of_def)
  qed
  then show ?thesis using parse_frac_scalar [OF f e] s d by simp
qed

text \<open>A text with no white space, quote or bracket is JSON only if it is a scalar.\<close>

lemma decode_value_plain:
  assumes "s = c # t" "\<not> json_space c" "byte c \<noteq> 34" "c \<noteq> CHR ''[''" "c \<noteq> CHR ''{''"
  shows "decode_value num s = parse_scalar num s"
  using assms by (simp add: decode_value_def value_fuel_def skip_space_def)

lemma colon_not_digit [simp]: "\<not> is_decimal (CHR '':'')"
  by (simp add: go_defs)

lemma colon_digits: "CHR '':'' \<notin> set (takeWhile is_decimal x)"
  by (auto dest!: set_takeWhileD simp: go_defs)

lemma colon_int: "parse_int_part s = Some (i, r) \<Longrightarrow> CHR '':'' \<notin> set i"
  by (auto simp: parse_int_part_def digits_of_def colon_digits split: list.splits if_splits)

lemma colon_frac: "parse_frac s = Some (f, r) \<Longrightarrow> CHR '':'' \<notin> set f"
  by (auto simp: parse_frac_def digits_of_def colon_digits split: list.splits if_splits)

lemma colon_exp: "parse_exp s = Some (e, r) \<Longrightarrow> CHR '':'' \<notin> set e"
  by (auto simp: parse_exp_def digits_of_def colon_digits split: list.splits if_splits prod.splits)

lemma colon_number:
  assumes "parse_number s = Some (l, r)" shows "CHR '':'' \<notin> set l"
proof -
  define sg where "sg = (case s of [] \<Rightarrow> ([], []) | c # t \<Rightarrow> if c = CHR ''-'' then ([c], t) else ([], s))"
  have "CHR '':'' \<notin> set (fst sg)" by (auto simp: sg_def split: list.splits)
  moreover obtain i u f v e where "parse_int_part (snd sg) = Some (i, u)" "parse_frac u = Some (f, v)"
      "parse_exp v = Some (e, r)" "l = fst sg @ i @ f @ e"
    using assms by (auto simp: parse_number_def sg_def [symmetric] split_beta split: option.splits)
  ultimately show ?thesis using colon_int colon_frac colon_exp by simp
qed

lemma parse_scalar_bytes:
  assumes "parse_scalar Some s = Some (v, [])"
  shows "CHR '':'' \<notin> set s"
proof -
  show ?thesis
  proof (cases "prefix ''true'' s \<or> prefix ''false'' s \<or> prefix ''null'' s")
    case True
    then have "s = ''true'' \<or> s = ''false'' \<or> s = ''null''"
      using assms by (auto simp: parse_scalar_def prefix_def split: if_splits)
    then show ?thesis by auto
  next
    case False
    then obtain l where l: "parse_number s = Some (l, [])"
      using assms by (auto simp: parse_scalar_def split: option.splits)
    then show ?thesis using colon_number [OF l] parse_number_split [OF l] by simp
  qed
qed

definition json_plain :: "char \<Rightarrow> bool" where
  "json_plain c \<longleftrightarrow> \<not> json_space c \<and> byte c \<noteq> 34 \<and> c \<noteq> CHR ''['' \<and> c \<noteq> CHR ''{''"

lemma json_valid_plain:
  assumes "json_valid s" and "list_all json_plain s" and "s \<noteq> []"
  shows "\<exists>v. parse_scalar Some s = Some (v, [])"
proof -
  obtain c t where s: "s = c # t" using assms(3) by (cases s) auto
  have dec: "decode_value Some s = parse_scalar Some s"
    using decode_value_plain [OF s] assms(2) s by (simp add: json_plain_def)
  obtain v r where v: "parse_scalar Some s = Some (v, r)" and r: "skip_space r = []"
    using assms(1) dec by (auto simp: json_valid_def split: option.splits)
  have "suffix r s" using v
    by (auto simp: parse_scalar_def suffix_drop split: if_splits option.splits dest!: parse_number_split)
       (auto simp: suffix_def)
  then have "set r \<subseteq> set s" by (rule set_mono_suffix)
  then have "r = []" using r assms(2)
    by (cases r) (auto simp: skip_space_def list_all_iff json_plain_def split: if_splits)
  then show ?thesis using v by simp
qed

lemma host_json_plain: "hostByte c \<Longrightarrow> json_plain c"
  by (auto simp: go_defs json_plain_def)

lemma jsonScalar_complete:
  assumes "json_valid s" and "list_all hostByte s" and "s \<noteq> []" and "hd s \<noteq> CHR ''-''"
  shows "jsonScalar s"
proof -
  have "list_all json_plain s" using assms(2) host_json_plain by (auto simp: list_all_iff)
  then obtain v where v: "parse_scalar Some s = Some (v, [])" using json_valid_plain assms(1,3) by blast
  show ?thesis
  proof (cases "s \<in> {''null'', ''true'', ''false'', ''NaN'', ''Infinity''}")
    case False
    then have "\<not> prefix ''true'' s \<and> \<not> prefix ''false'' s \<and> \<not> prefix ''null'' s"
      using v by (auto simp: parse_scalar_def prefix_def split: if_splits)
    then obtain lit where "parse_number s = Some (lit, [])"
      using v by (auto simp: parse_scalar_def split: option.splits)
    from parse_number_scalar [OF this assms(3,4)] show ?thesis by (simp add: jsonScalar_def)
  qed (simp add: jsonScalar_def)
qed

lemma ipv6_bytes:
  assumes "ParseAddr s = Some (Addr6 [])" and "c \<in> set s"
  shows "is_hex c \<or> c = CHR '':'' \<or> c = CHR ''.''"
proof -
  have "parse_ipv6 s = Some (Addr6 [])" using assms(1) by (auto simp: ParseAddr_def split: option.splits if_splits)
  then have "s = ''::'' \<or> (prefix ''::'' s \<and> ipv6_loop 0 True (drop 2 s)) \<or> ipv6_loop 0 False s"
    by (auto simp: parse_ipv6_def cut_byte_def prefix_def split: if_splits)
  then show ?thesis
  proof (elim disjE conjE)
    assume "prefix ''::'' s" "ipv6_loop 0 True (drop 2 s)"
    then show ?thesis using assms(2) ipv6_loop_bytes [of 0 True "drop 2 s" c] by (auto simp: prefix_def)
  qed (use assms(2) ipv6_loop_bytes [of 0 False s c] in auto)
qed

lemma split_when_hd: "s \<noteq> [] \<Longrightarrow> \<not> P (hd s) \<Longrightarrow> hd (hd (split_when P s)) = hd s \<and> hd (split_when P s) \<noteq> []"
  by (cases s) (auto split: list.splits)



section \<open>Targets and caps\<close>

lemma param_names_valid:
  "param_names f a ps = Some ns \<Longrightarrow> list_all validTargetName ns"
proof (induction ps arbitrary: ns)
  case (Cons p ps)
  then show ?case by (auto split: option.splits if_splits)
qed simp

text \<open>What \<open>targets\<close> returns: valid names, each once.\<close>

lemma targets_Some:
  assumes "targets spec a = Some (names, groups)"
  shows "distinct names \<and> (\<forall>n \<in> set names. validTargetName n)"
proof -
  obtain ns ms where "param_names target_value a (ts_target_params spec) = Some ns"
      "param_names targets_value a (ts_targets_params spec) = Some ms" "names = dedup_from {} (ns @ ms)"
    using assms by (auto simp: targets_def split: option.splits)
  then show ?thesis using param_names_valid by (fastforce simp: list_all_iff)
qed

lemma count_values_raw: "count_values False v = length (raw_values v)"
proof (induction "False" v rule: count_values.induct)
  case (3 ss)
  show ?case by (induction ss) (simp_all add: countString_def)
next
  case (4 vs)
  then have "map (count_values False) vs = map (length \<circ> raw_values) vs" by simp
  then show ?case unfolding count_values.simps raw_values.simps length_concat map_map by (rule arg_cong)
qed (simp_all add: countString_def)

lemma countValues_raw: "countValues False v = length (rawValues v)"
  by (cases v) (simp_all add: countValues_def rawValues_def count_values_raw)

lemma command_count_eq: "command_count spec a = length (norm_commands spec a)"
  by (simp add: command_count_def norm_commands_def param_values_def length_concat comp_def countValues_raw)

lemma valid_nonempty: "validTargetName s \<Longrightarrow> 1 \<le> countString True s"
  by (auto simp: validTargetName_def countString_def)

lemma length_split_when: "length (split_when P s) = Suc (length (filter P s))"
  by (induction s) (auto split: list.splits)

lemma json_strings_count:
  "json_strings vs = Some ns \<Longrightarrow> list_all validTargetName ns \<Longrightarrow> length ns \<le> sum_list (map (count_values True) vs)"
proof (induction vs arbitrary: ns rule: json_strings.induct)
  case (2 s vs)
  then show ?case using valid_nonempty by (fastforce split: option.splits)
qed auto

lemma target_value_count:
  "target_value v = Some ns \<Longrightarrow> list_all validTargetName ns \<Longrightarrow> length ns \<le> count_values True v"
  using valid_nonempty by (cases v) auto

lemma targets_value_count:
  "targets_value v = Some ns \<Longrightarrow> list_all validTargetName ns \<Longrightarrow> length ns \<le> count_values True v"
  using json_strings_count by (cases v) (auto simp: countString_def length_split_when split: if_splits)

lemma param_names_count:
  assumes "\<And>v ns. f v = Some ns \<Longrightarrow> list_all validTargetName ns \<Longrightarrow> length ns \<le> count_values True v"
  shows "param_names f a ps = Some ns \<Longrightarrow> length ns \<le> sum_list (map (\<lambda>p. countValues True (map_of a p)) ps)"
proof (induction ps arbitrary: ns)
  case (Cons p ps)
  obtain xs ys where x: "(case map_of a p of None \<Rightarrow> Some [] | Some v \<Rightarrow> f v) = Some xs" "list_all validTargetName xs"
      and y: "param_names f a ps = Some ys" "ns = xs @ ys"
    using Cons.prems by (auto split: option.splits if_splits)
  have "length xs \<le> countValues True (map_of a p)" using x assms by (auto simp: countValues_def split: option.splits)
  then show ?case using Cons.IH [OF y(1)] y by simp
qed simp

lemma length_dedup_from: "length (dedup_from S xs) \<le> length xs"
  by (induction xs arbitrary: S) (auto simp: le_SucI)

lemma targets_count:
  assumes "targets spec a = Some (names, groups)" shows "length names \<le> target_count spec a"
proof -
  obtain ns ms where n: "param_names target_value a (ts_target_params spec) = Some ns"
      and m: "param_names targets_value a (ts_targets_params spec) = Some ms" and names: "names = dedup_from {} (ns @ ms)"
    using assms by (auto simp: targets_def split: option.splits)
  have "length names \<le> length ns + length ms" using length_dedup_from [of "{}" "ns @ ms"] names by simp
  also have "\<dots> \<le> target_count spec a"
    using param_names_count [OF target_value_count n] param_names_count [OF targets_value_count m]
    by (simp add: target_count_def)
  finally show ?thesis .
qed

text \<open>Property C29 (bounds). The caps bound the work of a call: a call that \<open>overCaps\<close> lets through has at most 64
  commands for the classifier, exactly as many as it counted, and at most 256 target names.\<close>

theorem overCaps_bounds:
  assumes "overCaps spec a = None"
  shows "length (norm_commands spec a) = command_count spec a \<and> length (norm_commands spec a) \<le> 64
    \<and> (targets spec a = Some (names, groups) \<longrightarrow> length names \<le> 256)"
proof -
  have "command_count spec a \<le> 64" "target_count spec a \<le> 256"
    using assms by (auto simp: overCaps_def maxCommandsPerCall_def maxTargetsPerCall_def split: if_splits)
  then show ?thesis using command_count_eq targets_count [of spec a names groups] by fastforce
qed

theorem overCaps_bounds_witness:
  "overCaps demo_exec_spec demo_show_args = None \<and> length (norm_commands demo_exec_spec demo_show_args) \<le> 64"
proof -
  have h: "overCaps demo_exec_spec demo_show_args = None" by code_simp
  show ?thesis using h overCaps_bounds [OF h] by blast
qed

lemma parse_field_error: "parse_field num out s = Inl e \<Longrightarrow> e \<in> {parseInvalidJSON, parseDuplicateKey}"
  by (auto simp: parse_field_def split: list.splits if_splits option.splits)

lemma parse_fields_error:
  "parse_fields num start out s = Inl e \<Longrightarrow> e \<in> {parseInvalidJSON, parseDuplicateKey, parseTrailingData}"
proof (induction num start out s rule: parse_fields.induct)
  case (1 num start out s)
  then show ?case using parse_field_error [of num out _ e]
    by (simp add: parse_fields.simps [of num start out s] split: list.splits if_splits option.splits sum.splits prod.splits)
       blast+
qed

text \<open>The decoder never hands on a map with a repeated key, and its error is always one of
  the five codes of the log line.\<close>

theorem parseArguments_result:
  "case parseArguments num raw of
     Inr a \<Rightarrow> wf_map a
   | Inl e \<Rightarrow> e \<in> {parseNotObject, parseInvalidJSON, parseInvalidUTF8, parseDuplicateKey, parseTrailingData}"
proof (cases "parseArguments num raw")
  case (Inr a)
  then show ?thesis using parseArguments_wf by simp
next
  case (Inl e)
  show ?thesis using Inl
    by (auto simp: parseArguments_def Let_def split: if_splits list.splits option.splits dest: parse_fields_error)
qed

end
