(* ===== verification/Gate_Text.thy ===== *)
theory Gate_Text
  imports Gate_Args Policy_Evaluate
begin

text \<open>
  \<^verbatim>\<open>internal/gate/text.go\<close> and the text helpers of \<^verbatim>\<open>internal/gate/record.go\<close>: the fixed reasons, the
  one-line error an agent gets for a call that is not forwarded, and the capped argument names of
  the log line.
\<close>

section \<open>Fixed texts\<close>

definition reasonNotObject :: string where
  [text_defs]: "reasonNotObject = ''the arguments must be one JSON object, in UTF-8, with no key given twice''"
definition reasonUnnamed :: string where
  [text_defs]: "reasonUnnamed = ''an argument is not named in the server profile for this tool''"
definition reasonMalformed :: string where
  [text_defs]: "reasonMalformed = ''a target, command or config argument must be a string that does not parse as JSON, or a list of such strings''"
definition reasonMalformedCapability :: string where
  [text_defs]: "reasonMalformedCapability = ''the capability argument must be one string that does not parse as JSON''"
definition reasonBadTarget :: string where
  [text_defs]: "reasonBadTarget = ''a target is not a hostname or IP address''"
definition reasonNoTarget :: string where
  [text_defs]: "reasonNoTarget = ''this tool needs at least one target named explicitly''"
definition reasonGroup :: string where
  [text_defs]: "reasonGroup = ''selecting devices by tag or group is not supported yet; name each target''"

definition reasonUnknownTarget :: string where [text_defs]: "reasonUnknownTarget = ''target not in inventory''"
definition reasonMaxDevices :: string where
  [text_defs]: "reasonMaxDevices = ''this session would touch more devices than its cap allows''"
definition reasonMaxPending :: string where
  [text_defs]: "reasonMaxPending = ''this session already has as many held calls as its cap allows''"
definition reasonNoMatch :: string where [text_defs]: "reasonNoMatch = ''no rule matched''"
definition reasonNoPolicy :: string where [text_defs]: "reasonNoPolicy = ''no policy loaded''"
definition reasonNoReason :: string where [text_defs]: "reasonNoReason = ''the policy does not allow this call''"
definition reasonHeld :: string where
  [text_defs]: "reasonHeld = ''needs approval, and approvals aren'' @ [CHR 0x27] @ ''t available yet, so this call was not run.''"
definition unknownSuffix :: string where [text_defs]: "unknownSuffix = ''; '' @ reasonUnknownTarget"

section \<open>One line of printable text\<close>

definition isBreak :: "nat \<Rightarrow> bool" where
  "isBreak r \<longleftrightarrow> r < 32 \<or> r = 127 \<or> (128 \<le> r \<and> r \<le> 159) \<or> r = 8232 \<or> r = 8233"

definition oneLine :: "string \<Rightarrow> string" where
  "oneLine s =
     (if list_all (\<lambda>(r, w). \<not> isBreak r) (runes s) then s
      else map_runes (\<lambda>r. if isBreak r then 32 else r) s)"

definition nameText :: "string \<Rightarrow> string" where
  "nameText s =
     (if list_all hostByte s then s
      else concat (map (\<lambda>(r, w). if r < 128 \<and> hostByte (char_of r) then encode_rune r else ''_'') (runes s)))"

section \<open>Reasons and the error line\<close>

definition unmetReason :: "string \<Rightarrow> string" where
  "unmetReason ob =
     (if ob = ''dry_run'' \<or> ob = ''diff'' \<or> ob = ''timed_rollback''
      then ''obligation '' @ ob @ '' cannot be met until change-safety drivers exist''
      else ''an obligation fathomgate does not know cannot be met'')"

definition denyReason :: "decision \<Rightarrow> string" where
  "denyReason d =
     (if dc_rule_id d = RuleBadArguments then dc_reason d
      else if dc_rule_id d = RuleUnknownTarget then reasonUnknownTarget
      else if dc_rule_id d = RuleMaxDevices then reasonMaxDevices
      else if dc_rule_id d = RuleMaxPending then reasonMaxPending
      else if dc_rule_id d = RuleNoMatch then (if dc_reason d = reasonNoPolicy then reasonNoPolicy else reasonNoMatch)
      else if trim_space (dc_reason d) = [] then reasonNoReason
      else dc_reason d)"

definition error_verb :: "decision \<Rightarrow> string" where
  "error_verb d = (if dc_effect d = Allow then ''cannot run'' else if dc_effect d = Hold then ''held'' else ''denied'')"

definition error_reason :: "decision \<Rightarrow> string \<Rightarrow> bool \<Rightarrow> string" where
  "error_reason d unmet unknown =
     (if dc_effect d = Allow then unmetReason unmet
      else if dc_effect d = Hold then reasonHeld
      else if unknown \<and> denyReason d \<noteq> reasonUnknownTarget then denyReason d @ unknownSuffix
      else denyReason d)"

definition errorText :: "string \<Rightarrow> string \<Rightarrow> decision \<Rightarrow> string \<Rightarrow> string \<Rightarrow> bool \<Rightarrow> string" where
  "errorText server tool d cl unmet unknown =
     ''fathomgate '' @ error_verb d @ '' '' @ nameText server @ ''.'' @ nameText tool
       @ '': rule '' @ oneLine (dc_rule_id d) @ '' (class '' @ cl @ ''): '' @ oneLine (error_reason d unmet unknown)"

definition recordReason :: "decision \<Rightarrow> string" where
  "recordReason d =
     (if dc_effect d = Deny then denyReason d
      else if dc_effect d = Hold then reasonHeld
      else dc_reason d)"

section \<open>Capped names\<close>

definition maxLoggedNames :: nat where "maxLoggedNames = 8"
definition maxLoggedNameBytes :: nat where "maxLoggedNameBytes = 64"

text \<open>The cut moves back from a position inside the string to the start of a rune.\<close>

fun rune_cut :: "string \<Rightarrow> nat \<Rightarrow> nat" where
  "rune_cut s 0 = 0"
| "rune_cut s (Suc n) = (if rune_start (s ! Suc n) then Suc n else rune_cut s n)"

definition cap_name :: "string \<Rightarrow> string" where
  "cap_name s =
     (if maxLoggedNameBytes < length s then take (rune_cut s maxLoggedNameBytes) s @ ''...'' else s)"

definition capNames :: "string list \<Rightarrow> string list" where
  "capNames names =
     (let n = min (length names) maxLoggedNames in
      map cap_name (take n names)
        @ (if n < length names then [''('' @ nat_text (length names - n) @ '' more)''] else []))"

section \<open>Lemmas\<close>

text \<open>A byte a terminal or a line reader would act on.\<close>

definition control_byte :: "char \<Rightarrow> bool" where
  "control_byte c \<longleftrightarrow> byte c < 32 \<or> byte c = 127"

definition one_line :: "string \<Rightarrow> bool" where
  "one_line s \<longleftrightarrow> list_all (\<lambda>c. \<not> control_byte c) s"

lemma one_line_append [simp]: "one_line (s @ t) \<longleftrightarrow> one_line s \<and> one_line t"
  by (simp add: one_line_def)

lemma one_line_concat: "one_line (concat xss) \<longleftrightarrow> (\<forall>xs \<in> set xss. one_line xs)"
  by (induction xss) (auto simp: one_line_def)

lemma runes_ascii_byte: "b \<in> set s \<Longrightarrow> byte b < 128 \<Longrightarrow> \<exists>w. (byte b, w) \<in> set (runes s)"
proof (induction s rule: runes_induct)
  case (Cons c s)
  let ?n = "snd (decode_rune (c # s))"
  have "b \<in> set (take ?n (c # s)) \<or> b \<in> set (drop ?n (c # s))"
    using Cons.prems(1) by (metis Un_iff append_take_drop_id set_append)
  then show ?case
  proof
    assume "b \<in> set (take ?n (c # s))"
    then have "decode_rune (c # s) = (byte b, 1)" using take_decode_ascii Cons.prems(2) by blast
    then show ?thesis by (auto simp: runes_Cons)
  next
    assume "b \<in> set (drop ?n (c # s))"
    then show ?thesis using Cons.IH Cons.prems(2) by (auto simp: runes_Cons)
  qed
qed simp

lemma one_line_oneLine: "one_line (oneLine s)"
proof (cases "list_all (\<lambda>(r, w). \<not> isBreak r) (runes s)")
  case True
  then have "\<not> control_byte b" if "b \<in> set s" for b
    using that runes_ascii_byte [of b s] by (fastforce simp: list_all_iff control_byte_def isBreak_def)
  then show ?thesis using True by (simp add: oneLine_def one_line_def list_all_iff)
next
  case False
  have enc: "\<not> control_byte b" if "b \<in> set (encode_rune r)" "\<not> isBreak r" for b r
  proof (cases "r < 128")
    case True
    then show ?thesis using that by (auto simp: control_byte_def isBreak_def)
  next
    case False
    then show ?thesis using that(1) encode_rune_bytes_high [of r b] by (auto simp: control_byte_def)
  qed
  define g where "g r = (if isBreak r then 32 else r)" for r :: nat
  have "\<not> isBreak (g r)" for r by (simp add: g_def isBreak_def)
  then have "one_line (encode_rune (g r))" for r using enc by (auto simp: one_line_def list_all_iff)
  then have "one_line (map_runes g s)" by (simp add: map_runes_def one_line_concat split_beta)
  moreover have "oneLine s = map_runes g s" using False by (simp add: oneLine_def g_def [abs_def])
  ultimately show ?thesis by simp
qed

lemma one_line_nameText: "list_all hostByte (nameText s)"
proof (cases "list_all hostByte s")
  case False
  have "hostByte c" if "r < 128 \<and> hostByte (char_of r)" "c \<in> set (encode_rune r)" for c r
    using that by auto
  moreover have "hostByte (CHR ''_'')" by (simp add: go_defs)
  ultimately show ?thesis using False by (fastforce simp: nameText_def list_all_iff)
qed (simp add: nameText_def)

lemma host_one_line: "list_all hostByte s \<Longrightarrow> one_line s"
  by (auto simp: one_line_def list_all_iff control_byte_def go_defs)

text \<open>The error line an agent gets is one line of printable text whatever the policy, the
  names and the reason hold: no byte of it is a control character, provided the class is one of
  the closed set; and it starts with the fixed verb, so its prefix stays parseable.\<close>

theorem errorText_one_line:
  assumes "cl \<in> set all_classes"
  shows "one_line (errorText server tool d cl unmet unknown)
    \<and> (\<exists>verb rest. verb \<in> {''cannot run'', ''held'', ''denied''}
         \<and> errorText server tool d cl unmet unknown = ''fathomgate '' @ verb @ '' '' @ rest)"
proof -
  have "one_line cl"
    using assms by (auto simp: all_classes_def class_defs one_line_def control_byte_def)
  moreover have "one_line ''fathomgate ''" "one_line (error_verb d)" "one_line '': rule ''" "one_line '' (class ''"
      "one_line ''): ''" "one_line ''.''" "one_line '' ''"
    by (simp_all add: one_line_def control_byte_def error_verb_def)
  ultimately have "one_line (errorText server tool d cl unmet unknown)"
    unfolding errorText_def one_line_append using one_line_oneLine host_one_line [OF one_line_nameText] by blast
  moreover have "error_verb d \<in> {''cannot run'', ''held'', ''denied''}" by (simp add: error_verb_def)
  ultimately show ?thesis unfolding errorText_def by blast
qed

theorem errorText_one_line_witness:
  "one_line (errorText ''ssh'' (''run'' @ [CHR 0x0A]) (deny_default RuleNoMatch (''a'' @ [CHR 0x1B] @ ''b'') []) ExecArbitrary [] True)"
  using errorText_one_line [of ExecArbitrary] by (simp add: all_classes_def)

lemma rune_cut_le: "rune_cut s n \<le> n"
  by (induction s n rule: rune_cut.induct) auto

lemma length_cap_name: "length (cap_name s) \<le> 67"
  using rune_cut_le [of s maxLoggedNameBytes] by (auto simp: cap_name_def maxLoggedNameBytes_def min_def)

text \<open>However many argument names a call carries and however long they are, the log line
  gets at most nine entries: eight names of at most 67 bytes, each cut only at the start of a rune,
  and the number of names left out, which it states exactly.\<close>

theorem capNames_bounds:
  "length (capNames names) \<le> 9
   \<and> (\<forall>i < min (length names) 8. length (capNames names ! i) \<le> 67
        \<and> (length (names ! i) \<le> 64 \<longrightarrow> capNames names ! i = names ! i)
        \<and> (64 < length (names ! i) \<longrightarrow>
             (\<exists>k \<le> 64. capNames names ! i = take k (names ! i) @ ''...'' \<and> (k = 0 \<or> rune_start (names ! i ! k)))))
   \<and> (8 < length names \<longrightarrow> last (capNames names) = ''('' @ nat_text (length names - 8) @ '' more)'')"
proof -
  have cut: "rune_cut s n = 0 \<or> rune_start (s ! rune_cut s n)" for s n
    by (induction s n rule: rune_cut.induct) auto
  have nth: "capNames names ! i = cap_name (names ! i)" if "i < min (length names) 8" for i
    using that by (auto simp: capNames_def Let_def maxLoggedNames_def nth_append)
  have "length (capNames names) \<le> 9" by (auto simp: capNames_def Let_def maxLoggedNames_def)
  moreover have "8 < length names \<longrightarrow> last (capNames names) = ''('' @ nat_text (length names - 8) @ '' more)''"
    by (auto simp: capNames_def Let_def maxLoggedNames_def)
  moreover have "64 < length s \<Longrightarrow> \<exists>k \<le> 64. cap_name s = take k s @ ''...'' \<and> (k = 0 \<or> rune_start (s ! k))" for s
    using cut [of s 64] rune_cut_le [of s 64] by (auto simp: cap_name_def maxLoggedNameBytes_def)
  ultimately show ?thesis using nth length_cap_name by (auto simp: cap_name_def maxLoggedNameBytes_def)
qed

theorem capNames_bounds_witness: "length (capNames (replicate 20 (replicate 90 (CHR ''a'')))) \<le> 9"
  using capNames_bounds [of "replicate 20 (replicate 90 (CHR ''a''))"] by blast

end
