(* ===== verification/Inventory.thy ===== *)
theory Inventory
  imports Json
begin

text \<open>
  \<^verbatim>\<open>internal/inventory\<close>: the resolver chain (\<^verbatim>\<open>resolver.go\<close>), the static device list
  (\<^verbatim>\<open>static.go\<close>), the hostname patterns (\<^verbatim>\<open>patterns.go\<close>), the CSV import (\<^verbatim>\<open>csv.go\<close>) and the
  NetBox stub (\<^verbatim>\<open>netbox.go\<close>).

  A Go \<open>Resolver\<close> is a function from a name to an optional target; a nil interface in a chain is
  \<open>None\<close>. Two parameters stand for library code: \<open>lower\<close> for \<open>strings.ToLower\<close> on names of any
  alphabet, and \<open>compile\<close> for \<open>regexp.Compile\<close>, which gives the match function of an expression
  or nothing. No property below assumes anything of them. Decoding the YAML file, splitting a CSV
  stream into records and writing files are not modelled.
\<close>

section \<open>Targets and the resolver chain\<close>

definition SourceStatic :: string where "SourceStatic = ''static''"
definition SourcePattern :: string where "SourcePattern = ''pattern''"
definition SourceSnapshot :: string where "SourceSnapshot = ''snapshot''"

record sources =
  so_name :: string
  so_role :: string
  so_site :: string
  so_status :: string
  so_tags :: "(string, string) gomap"

record inv_target =
  iv_name :: string
  iv_role :: string
  iv_site :: string
  iv_tags :: "string list"
  iv_status :: string
  iv_source :: string
  iv_stale :: bool
  iv_sources :: "sources option"

definition zero_target :: inv_target where
  "zero_target = \<lparr>iv_name = [], iv_role = [], iv_site = [], iv_tags = [], iv_status = [],
     iv_source = [], iv_stale = False, iv_sources = None\<rparr>"

definition zero_sources :: sources where
  "zero_sources = \<lparr>so_name = [], so_role = [], so_site = [], so_status = [], so_tags = []\<rparr>"

type_synonym resolver = "string \<Rightarrow> inv_target option"

record chain =
  ch_authorities :: "resolver option list"
  ch_enrichers :: "resolver option list"

definition normalize :: "(string \<Rightarrow> string) \<Rightarrow> string \<Rightarrow> string" where
  "normalize lower name = lower (trim_space name)"

record merge_fields =
  mf_role :: bool
  mf_site :: bool
  mf_status :: bool
  mf_tags :: bool

definition fieldsAll :: merge_fields where
  "fieldsAll = \<lparr>mf_role = True, mf_site = True, mf_status = True, mf_tags = True\<rparr>"

definition fieldsEnricher :: merge_fields where
  "fieldsEnricher = \<lparr>mf_role = True, mf_site = True, mf_status = False, mf_tags = True\<rparr>"

definition fieldsLaterAuthority :: merge_fields where
  "fieldsLaterAuthority = \<lparr>mf_role = False, mf_site = True, mf_status = True, mf_tags = False\<rparr>"

fun merge_tags :: "string \<Rightarrow> string list \<Rightarrow> inv_target \<times> sources \<Rightarrow> inv_target \<times> sources" where
  "merge_tags label [] os = os"
| "merge_tags label (tag # tags) (out, src) =
     merge_tags label tags
       (if tag \<in> set (iv_tags out) then (out, src)
        else (out\<lparr>iv_tags := iv_tags out @ [tag]\<rparr>, src\<lparr>so_tags := put tag label (so_tags src)\<rparr>))"

definition merge_role :: "inv_target \<Rightarrow> string \<Rightarrow> merge_fields \<Rightarrow> inv_target \<times> sources \<Rightarrow> inv_target \<times> sources" where
  "merge_role t label f os =
     (case os of (out, src) \<Rightarrow>
        if mf_role f \<and> iv_role out = [] \<and> iv_role t \<noteq> []
        then (out\<lparr>iv_role := iv_role t\<rparr>, src\<lparr>so_role := label\<rparr>) else (out, src))"

definition merge_site :: "inv_target \<Rightarrow> string \<Rightarrow> merge_fields \<Rightarrow> inv_target \<times> sources \<Rightarrow> inv_target \<times> sources" where
  "merge_site t label f os =
     (case os of (out, src) \<Rightarrow>
        if mf_site f \<and> iv_site out = [] \<and> iv_site t \<noteq> []
        then (out\<lparr>iv_site := iv_site t\<rparr>, src\<lparr>so_site := label\<rparr>) else (out, src))"

definition merge_status :: "inv_target \<Rightarrow> string \<Rightarrow> merge_fields \<Rightarrow> inv_target \<times> sources \<Rightarrow> inv_target \<times> sources" where
  "merge_status t label f os =
     (case os of (out, src) \<Rightarrow>
        if mf_status f \<and> iv_status out = [] \<and> iv_status t \<noteq> []
        then (out\<lparr>iv_status := iv_status t\<rparr>, src\<lparr>so_status := label\<rparr>) else (out, src))"

definition merge :: "inv_target \<Rightarrow> string \<Rightarrow> merge_fields \<Rightarrow> inv_target \<times> sources \<Rightarrow> inv_target \<times> sources" where
  "merge t label f os =
     (let os3 = merge_status t label f (merge_site t label f (merge_role t label f os)) in
      if mf_tags f then merge_tags label (iv_tags t) os3 else os3)"

text \<open>The authorities that list the name, with their labels; an authority that names itself a
  pattern, or not at all, is named by its position.\<close>

definition hit_label :: "nat \<Rightarrow> inv_target \<Rightarrow> string" where
  "hit_label i t =
     (if iv_source t = [] \<or> iv_source t = SourcePattern then ''resolver['' @ nat_text i @ '']''
      else iv_source t)"

fun chain_hits :: "(string \<Rightarrow> string) \<Rightarrow> string \<Rightarrow> nat \<Rightarrow> resolver option list \<Rightarrow> (inv_target \<times> string) list" where
  "chain_hits lower name i [] = []"
| "chain_hits lower name i (None # rs) = chain_hits lower name (Suc i) rs"
| "chain_hits lower name i (Some r # rs) =
     (case r name of
        None \<Rightarrow> chain_hits lower name (Suc i) rs
      | Some t \<Rightarrow>
          if normalize lower (iv_name t) \<noteq> normalize lower name then chain_hits lower name (Suc i) rs
          else (t, hit_label i t) # chain_hits lower name (Suc i) rs)"

fun run_enrichers :: "resolver option list \<Rightarrow> inv_target \<times> sources \<Rightarrow> inv_target \<times> sources" where
  "run_enrichers [] os = os"
| "run_enrichers (None # es) os = run_enrichers es os"
| "run_enrichers (Some e # es) os =
     (case e (iv_name (fst os)) of
        None \<Rightarrow> run_enrichers es os
      | Some t \<Rightarrow> run_enrichers es (merge t SourcePattern fieldsEnricher os))"

fun run_later :: "(inv_target \<times> string) list \<Rightarrow> inv_target \<times> sources \<Rightarrow> inv_target \<times> sources" where
  "run_later [] os = os"
| "run_later ((t, label) # hs) (out, src) =
     run_later hs (merge t label fieldsLaterAuthority (out\<lparr>iv_stale := iv_stale out \<or> iv_stale t\<rparr>, src))"

definition first_hit :: "inv_target \<times> string \<Rightarrow> inv_target \<times> sources" where
  "first_hit h =
     (case h of (t, label) \<Rightarrow>
        merge t label fieldsAll
          (zero_target\<lparr>iv_name := iv_name t, iv_source := label, iv_stale := iv_stale t\<rparr>,
           zero_sources\<lparr>so_name := label\<rparr>))"

definition chain_resolve :: "(string \<Rightarrow> string) \<Rightarrow> chain \<Rightarrow> resolver" where
  "chain_resolve lower c name =
     (case chain_hits lower name 0 (ch_authorities c) of
        [] \<Rightarrow> None
      | h # hs \<Rightarrow>
          (case run_later hs (run_enrichers (ch_enrichers c) (first_hit h)) of
             (out, src) \<Rightarrow> Some (out\<lparr>iv_sources := Some src\<rparr>)))"

definition Known :: "resolver option \<Rightarrow> resolver" where
  "Known ro name =
     (case ro of
        None \<Rightarrow> None
      | Some r \<Rightarrow>
          (case r name of
             None \<Rightarrow> None
           | Some t \<Rightarrow> if iv_name t \<noteq> name then None else Some t))"

section \<open>The static device list\<close>

record static_file =
  sf_by_name :: "(string, inv_target) gomap"

datatype inventory_error =
    DeviceWithoutName
  | DuplicateDevice string
  | StatusPattern string
  | MatchRequired nat
  | SetsNothing nat string
  | BadRegexp nat string
  | CsvHeader
  | CsvNoName "string list"
  | CsvLine nat
  | CsvEmptyName nat
  | CsvPanic nat

fun new_static_from :: "(string \<Rightarrow> string) \<Rightarrow> (string, inv_target) gomap \<Rightarrow> inv_target list
    \<Rightarrow> inventory_error + (string, inv_target) gomap" where
  "new_static_from lower m [] = Inr m"
| "new_static_from lower m (t # ts) =
     (let key = normalize lower (iv_name t) in
      if key = [] then Inl DeviceWithoutName
      else if key \<in> set (go_keys m) then Inl (DuplicateDevice (iv_name t))
      else if normalize lower (iv_status t) = SourcePattern then Inl (StatusPattern (iv_name t))
      else new_static_from lower (m @ [(key, t)]) ts)"

definition NewStatic :: "(string \<Rightarrow> string) \<Rightarrow> inv_target list \<Rightarrow> inventory_error + static_file" where
  "NewStatic lower ts =
     (case new_static_from lower [] ts of Inl e \<Rightarrow> Inl e | Inr m \<Rightarrow> Inr \<lparr>sf_by_name = m\<rparr>)"

text \<open>\<open>None\<close> is a nil \<open>*StaticFile\<close>.\<close>

definition static_resolve :: "(string \<Rightarrow> string) \<Rightarrow> static_file option \<Rightarrow> resolver" where
  "static_resolve lower so name =
     (case so of
        None \<Rightarrow> None
      | Some s \<Rightarrow>
          (case map_of (sf_by_name s) (normalize lower name) of
             None \<Rightarrow> None
           | Some t \<Rightarrow> Some (t\<lparr>iv_source := SourceStatic, iv_stale := False, iv_sources := None\<rparr>)))"

definition static_len :: "static_file \<Rightarrow> nat" where
  "static_len s = length (sf_by_name s)"

definition static_targets :: "(string \<Rightarrow> string) \<Rightarrow> static_file \<Rightarrow> inv_target list" where
  "static_targets lower s = sort_key (\<lambda>t. normalize lower (iv_name t)) (map snd (sf_by_name s))"

text \<open>\<open>NetBox.Resolve\<close>.\<close>

definition netbox_resolve :: resolver where
  "netbox_resolve name = None"

section \<open>Hostname patterns\<close>

record pattern =
  pt_match :: string
  pt_role :: string
  pt_site :: string
  pt_tags :: "string list"

type_synonym matcher = "string \<Rightarrow> bool"

type_synonym compiler = "string \<Rightarrow> matcher option"

definition compilePattern :: "compiler \<Rightarrow> string \<Rightarrow> matcher option" where
  "compilePattern compile m = compile (''(?i)'' @ m)"

fun new_patterns_from :: "compiler \<Rightarrow> nat \<Rightarrow> pattern list \<Rightarrow> inventory_error + (matcher \<times> pattern) list" where
  "new_patterns_from compile i [] = Inr []"
| "new_patterns_from compile i (p # ps) =
     (if pt_match p = [] then Inl (MatchRequired i)
      else if pt_role p = [] \<and> pt_site p = [] \<and> pt_tags p = [] then Inl (SetsNothing i (pt_match p))
      else case compilePattern compile (pt_match p) of
        None \<Rightarrow> Inl (BadRegexp i (pt_match p))
      | Some re \<Rightarrow>
          (case new_patterns_from compile (Suc i) ps of
             Inl e \<Rightarrow> Inl e
           | Inr cs \<Rightarrow> Inr ((re, p) # cs)))"

definition NewPatterns :: "compiler \<Rightarrow> pattern list \<Rightarrow> inventory_error + (matcher \<times> pattern) list" where
  "NewPatterns compile ps = new_patterns_from compile 0 ps"

text \<open>Tags appended to a list that lacks them, the loop shared by \<open>Attributes\<close> and
  \<open>PatternEffects\<close>.\<close>

fun add_tags :: "string list \<Rightarrow> string list \<Rightarrow> string list" where
  "add_tags have_tags [] = have_tags"
| "add_tags have_tags (t # ts) = add_tags (if t \<in> set have_tags then have_tags else have_tags @ [t]) ts"

fun attributes_from :: "string \<Rightarrow> inv_target \<Rightarrow> bool \<Rightarrow> (matcher \<times> pattern) list \<Rightarrow> inv_target \<times> bool" where
  "attributes_from listed t hit [] = (t, hit)"
| "attributes_from listed t hit ((re, p) # cs) =
     (if \<not> re listed then attributes_from listed t hit cs
      else attributes_from listed
        (t\<lparr>iv_role := (if iv_role t = [] then pt_role p else iv_role t),
           iv_site := (if iv_site t = [] then pt_site p else iv_site t),
           iv_tags := add_tags (iv_tags t) (pt_tags p)\<rparr>) True cs)"

definition Attributes :: "(matcher \<times> pattern) list option \<Rightarrow> resolver" where
  "Attributes pso listed =
     (case pso of
        None \<Rightarrow> None
      | Some cs \<Rightarrow>
          (case attributes_from listed zero_target False cs of
             (t, hit) \<Rightarrow> if hit then Some (t\<lparr>iv_name := listed\<rparr>) else None))"

definition Matching :: "(matcher \<times> pattern) list option \<Rightarrow> string \<Rightarrow> nat list" where
  "Matching pso name =
     (case pso of
        None \<Rightarrow> []
      | Some cs \<Rightarrow> filter (\<lambda>i. fst (cs ! i) name) [0..<length cs])"

section \<open>The inventory file\<close>

record inv_file =
  fl_devices :: "inv_target list"
  fl_roles :: "pattern list"

definition file_chain :: "(string \<Rightarrow> string) \<Rightarrow> compiler \<Rightarrow> inv_file \<Rightarrow> inventory_error + chain" where
  "file_chain lower compile f =
     (case NewStatic lower (fl_devices f) of
        Inl e \<Rightarrow> Inl e
      | Inr s \<Rightarrow>
          (case NewPatterns compile (fl_roles f) of
             Inl e \<Rightarrow> Inl e
           | Inr cs \<Rightarrow> Inr \<lparr>ch_authorities = [Some (static_resolve lower (Some s))],
                            ch_enrichers = [Some (Attributes (Some cs))]\<rparr>))"

text \<open>\<open>PatternWarnings\<close>: the index and expression of each pattern that matches no listed device.\<close>

fun warnings_from :: "compiler \<Rightarrow> inv_target list \<Rightarrow> nat \<Rightarrow> pattern list \<Rightarrow> (nat \<times> string) list" where
  "warnings_from compile ds i [] = []"
| "warnings_from compile ds i (p # ps) =
     (if pt_match p = [] then warnings_from compile ds (Suc i) ps
      else case compilePattern compile (pt_match p) of
        None \<Rightarrow> warnings_from compile ds (Suc i) ps
      | Some re \<Rightarrow>
          if list_ex (\<lambda>d. re (iv_name d)) ds then warnings_from compile ds (Suc i) ps
          else (i, pt_match p) # warnings_from compile ds (Suc i) ps)"

definition PatternWarnings :: "compiler \<Rightarrow> inv_file \<Rightarrow> (nat \<times> string) list" where
  "PatternWarnings compile f = warnings_from compile (fl_devices f) 0 (fl_roles f)"

text \<open>\<open>PatternEffects\<close>: a line is the device, the pattern, its effects and whether the record's own
  role is mentioned.\<close>

datatype pattern_effect =
    SetsRole string
  | RoleNotApplied string
  | SetsSite string
  | SiteNotApplied string
  | AddsTag string

record effect_line =
  el_device :: nat
  el_name :: string
  el_pattern :: nat
  el_match :: string
  el_effects :: "pattern_effect list"
  el_conflict :: bool

definition compiled_roles :: "compiler \<Rightarrow> pattern list \<Rightarrow> (matcher \<times> pattern) option list" where
  "compiled_roles compile ps =
     map (\<lambda>p. case compilePattern compile (pt_match p) of
                None \<Rightarrow> None
              | Some re \<Rightarrow> if pt_match p = [] then None else Some (re, p)) ps"

definition role_effect :: "inv_target \<Rightarrow> string \<Rightarrow> pattern \<Rightarrow> string \<times> pattern_effect list \<times> bool" where
  "role_effect d role p =
     (if pt_role p = [] then (role, [], False)
      else if role = [] then (pt_role p, [SetsRole (pt_role p)], False)
      else if role \<noteq> pt_role p then (role, [RoleNotApplied (pt_role p)], iv_role d \<noteq> [])
      else (role, [], False))"

definition site_effect :: "string \<Rightarrow> pattern \<Rightarrow> string \<times> pattern_effect list" where
  "site_effect site p =
     (if pt_site p = [] then (site, [])
      else if site = [] then (pt_site p, [SetsSite (pt_site p)])
      else if site \<noteq> pt_site p then (site, [SiteNotApplied (pt_site p)])
      else (site, []))"

definition new_tags :: "string list \<Rightarrow> string list \<Rightarrow> string list" where
  "new_tags have_tags ts = drop (length have_tags) (add_tags have_tags ts)"

fun device_effects :: "nat \<Rightarrow> inv_target \<Rightarrow> string \<times> string \<times> string list \<Rightarrow> nat
    \<Rightarrow> (matcher \<times> pattern) option list \<Rightarrow> effect_line list \<times> (string \<times> string \<times> string list)" where
  "device_effects j d acc i [] = ([], acc)"
| "device_effects j d acc i (None # cs) = device_effects j d acc (Suc i) cs"
| "device_effects j d (role, site, tags) i (Some (re, p) # cs) =
     (if \<not> re (iv_name d) then device_effects j d (role, site, tags) (Suc i) cs
      else
        case (role_effect d role p, site_effect site p) of
          ((role', res, rc), (site', ses)) \<Rightarrow>
            (let added = new_tags tags (pt_tags p);
                 effects = res @ ses @ map AddsTag added;
                 conflict = (rc \<or> (added \<noteq> [] \<and> iv_role d \<noteq> []));
                 rest = device_effects j d (role', site', add_tags tags (pt_tags p)) (Suc i) cs
             in if effects = [] then rest
                else (\<lparr>el_device = j, el_name = iv_name d, el_pattern = i, el_match = pt_match p,
                       el_effects = effects, el_conflict = conflict\<rparr> # fst rest, snd rest)))"

fun effects_from :: "(matcher \<times> pattern) option list \<Rightarrow> nat \<Rightarrow> inv_target list \<Rightarrow> effect_line list" where
  "effects_from cs j [] = []"
| "effects_from cs j (d # ds) =
     fst (device_effects j d (iv_role d, iv_site d, iv_tags d) 0 cs) @ effects_from cs (Suc j) ds"

definition PatternEffects :: "compiler \<Rightarrow> inv_file \<Rightarrow> effect_line list" where
  "PatternEffects compile f = effects_from (compiled_roles compile (fl_roles f)) 0 (fl_devices f)"

definition SplitTags :: "string \<Rightarrow> string list" where
  "SplitTags s =
     filter (\<lambda>t. t \<noteq> [])
       (map trim_space (fields_func (\<lambda>c. c = CHR '','' \<or> c = CHR '';'' \<or> c = CHR '' '' \<or> c = CHR ''|'') s))"

section \<open>The CSV import\<close>

text \<open>The reader's answers in order: \<open>None\<close> is a record it cannot read.\<close>

type_synonym csv_rows = "string list option list"

definition column_name :: "string \<Rightarrow> string" where
  "column_name h0 =
     (let h = to_lower (trim_space (trim_prefix h0 [CHR 0xEF, CHR 0xBB, CHR 0xBF])) in
      if h = ''hostname'' \<or> h = ''device'' \<or> h = ''device_name'' then ''name''
      else if h = ''device_role'' \<or> h = ''role_name'' then ''role''
      else if h = ''site_name'' \<or> h = ''location'' then ''site''
      else h)"

fun csv_columns :: "nat \<Rightarrow> (string, nat) gomap \<Rightarrow> string list \<Rightarrow> (string, nat) gomap" where
  "csv_columns i col [] = col"
| "csv_columns i col (h # hs) =
     csv_columns (Suc i)
       (if column_name h \<in> set (go_keys col) then col else col @ [(column_name h, i)]) hs"

definition csv_get :: "(string, nat) gomap \<Rightarrow> string list \<Rightarrow> string \<Rightarrow> string" where
  "csv_get col rec key =
     (case map_of col key of
        None \<Rightarrow> []
      | Some i \<Rightarrow> if length rec \<le> i then [] else trim_space (rec ! i))"

fun csv_rows :: "(string, nat) gomap \<Rightarrow> nat \<Rightarrow> nat \<Rightarrow> csv_rows \<Rightarrow> inventory_error + inv_target list" where
  "csv_rows col nameIdx line [] = Inr []"
| "csv_rows col nameIdx line (None # rows) = Inl (CsvLine (Suc line))"
| "csv_rows col nameIdx line (Some rec # rows) =
     (if rec = [] \<or> (length rec = 1 \<and> trim_space (hd rec) = []) then csv_rows col nameIdx (Suc line) rows
      else if length rec \<le> nameIdx then Inl (CsvPanic (Suc line))
      else if trim_space (rec ! nameIdx) = [] then Inl (CsvEmptyName (Suc line))
      else case csv_rows col nameIdx (Suc line) rows of
        Inl e \<Rightarrow> Inl e
      | Inr ts \<Rightarrow>
          Inr (zero_target\<lparr>iv_name := trim_space (rec ! nameIdx), iv_role := csv_get col rec ''role'',
                 iv_site := csv_get col rec ''site'', iv_tags := SplitTags (csv_get col rec ''tags''),
                 iv_status := csv_get col rec ''status''\<rparr> # ts))"

definition ImportCSV :: "csv_rows \<Rightarrow> inventory_error + inv_target list" where
  "ImportCSV rows =
     (case rows of
        Some header # rest \<Rightarrow>
          (let col = csv_columns 0 [] header in
           case map_of col ''name'' of
             None \<Rightarrow> Inl (CsvNoName header)
           | Some nameIdx \<Rightarrow> csv_rows col nameIdx 1 rest)
      | _ \<Rightarrow> Inl CsvHeader)"

section \<open>Lemmas on merging\<close>

lemma set_add_tags [simp]: "set (add_tags h ts) = set h \<union> set ts"
  by (induction ts arbitrary: h) auto

lemma add_tags_prefix: "prefix h (add_tags h ts)"
proof (induction ts arbitrary: h)
  case (Cons t ts)
  show ?case using Cons [of h] Cons [of "h @ [t]"] by (auto dest: append_prefixD)
qed simp

lemma merge_tags_out:
  "fst (merge_tags label ts (out, src)) = out\<lparr>iv_tags := add_tags (iv_tags out) ts\<rparr>"
  by (induction ts arbitrary: out src) auto

lemma merge_tags_src:
  "fst ` set (so_tags src) = set (iv_tags out) \<Longrightarrow>
     fst ` set (so_tags (snd (merge_tags label ts (out, src)))) = set (add_tags (iv_tags out) ts)"
  by (induction ts arbitrary: out src) (auto simp del: set_add_tags)

text \<open>What each kind of provider may change.\<close>

lemma merge_sel:
  "iv_name (fst (merge t label f os)) = iv_name (fst os)"
  "iv_source (fst (merge t label f os)) = iv_source (fst os)"
  "iv_stale (fst (merge t label f os)) = iv_stale (fst os)"
  "iv_role (fst (merge t label f os)) =
     (if mf_role f \<and> iv_role (fst os) = [] then iv_role t else iv_role (fst os))"
  "iv_site (fst (merge t label f os)) =
     (if mf_site f \<and> iv_site (fst os) = [] then iv_site t else iv_site (fst os))"
  "iv_status (fst (merge t label f os)) =
     (if mf_status f \<and> iv_status (fst os) = [] then iv_status t else iv_status (fst os))"
  "iv_tags (fst (merge t label f os)) =
     (if mf_tags f then add_tags (iv_tags (fst os)) (iv_tags t) else iv_tags (fst os))"
  by (cases os; auto simp: merge_def merge_role_def merge_site_def merge_status_def Let_def merge_tags_out
      split: prod.splits)+

lemma run_later_keeps [simp]:
  "iv_name (fst (run_later hs os)) = iv_name (fst os)"
  "iv_role (fst (run_later hs os)) = iv_role (fst os)"
  "iv_tags (fst (run_later hs os)) = iv_tags (fst os)"
  "iv_source (fst (run_later hs os)) = iv_source (fst os)"
  by (induction hs os rule: run_later.induct) (auto simp: merge_sel fieldsLaterAuthority_def)

lemma run_enrichers_keeps [simp]:
  "iv_name (fst (run_enrichers es os)) = iv_name (fst os)"
  "iv_source (fst (run_enrichers es os)) = iv_source (fst os)"
  "iv_status (fst (run_enrichers es os)) = iv_status (fst os)"
  by (induction es os rule: run_enrichers.induct) (auto simp: merge_sel fieldsEnricher_def split: option.splits)

lemma first_hit_sel [simp]:
  "iv_name (fst (first_hit (t, l))) = iv_name t"
  "iv_source (fst (first_hit (t, l))) = l"
  "iv_role (fst (first_hit (t, l))) = iv_role t"
  "iv_tags (fst (first_hit (t, l))) = add_tags [] (iv_tags t)"
  "iv_site (fst (first_hit (t, l))) = iv_site t"
  "iv_status (fst (first_hit (t, l))) = iv_status t"
  by (simp_all add: first_hit_def merge_sel fieldsAll_def zero_target_def)

lemma chain_hits_mem:
  "(t, l) \<in> set (chain_hits lower name i rs) \<Longrightarrow>
     (\<exists>r. Some r \<in> set rs \<and> r name = Some t) \<and> normalize lower (iv_name t) = normalize lower name"
  by (induction lower name i rs rule: chain_hits.induct) (auto split: option.splits if_splits)

lemma chain_resolve_cases:
  "chain_resolve lower c name = Some t \<longleftrightarrow>
     (\<exists>h hs. chain_hits lower name 0 (ch_authorities c) = h # hs
        \<and> t = (fst (run_later hs (run_enrichers (ch_enrichers c) (first_hit h))))
               \<lparr>iv_sources := Some (snd (run_later hs (run_enrichers (ch_enrichers c) (first_hit h))))\<rparr>)"
  by (auto simp: chain_resolve_def split: list.splits prod.splits)

section \<open>Properties of the chain\<close>

text \<open>Property C19 (safety). A pattern never makes a name known: when the chain resolves a name, one of its name
  authorities lists it under that name up to case and surrounding space, the answer carries that
  authority's spelling, and the source of the answer is never \<open>pattern\<close>.\<close>

theorem chain_resolve_listed:
  assumes "chain_resolve lower c name = Some t"
  shows "\<exists>r u. Some r \<in> set (ch_authorities c) \<and> r name = Some u \<and> iv_name t = iv_name u
    \<and> normalize lower (iv_name t) = normalize lower name \<and> iv_source t \<noteq> SourcePattern"
proof -
  obtain u l hs where hits: "chain_hits lower name 0 (ch_authorities c) = (u, l) # hs"
      and t: "iv_name t = iv_name u" "iv_source t = l"
    using assms by (auto simp: chain_resolve_cases)
  have src: "(v, k) \<in> set (chain_hits lower name i rs) \<Longrightarrow> k \<noteq> SourcePattern" for v k i rs
    by (induction lower name i rs rule: chain_hits.induct)
       (auto simp: hit_label_def SourcePattern_def split: option.splits if_splits)
  show ?thesis using chain_hits_mem [of u l lower name 0 "ch_authorities c"] src [of u l 0 "ch_authorities c"] hits t
    by auto
qed

lemma chain_hits_append:
  "chain_hits lower name i (rs @ qs) = chain_hits lower name i rs @ chain_hits lower name (i + length rs) qs"
  by (induction lower name i rs rule: chain_hits.induct) (auto split: option.splits)

text \<open>Property C20 (safety). A later name authority can neither grant a role nor a tag: once one of the first
  authorities lists the name, the role, the tags, the name and the source of the answer are the
  same whatever the authorities after it are and say.\<close>

theorem later_authorities_grant_nothing:
  assumes "chain_resolve lower \<lparr>ch_authorities = rs, ch_enrichers = es\<rparr> name = Some t"
  shows "\<exists>u. chain_resolve lower \<lparr>ch_authorities = rs @ qs, ch_enrichers = es\<rparr> name = Some u
    \<and> iv_name u = iv_name t \<and> iv_role u = iv_role t \<and> iv_tags u = iv_tags t \<and> iv_source u = iv_source t"
proof -
  obtain h hs where "chain_hits lower name 0 rs = h # hs" using assms by (auto simp: chain_resolve_cases)
  then have "chain_hits lower name 0 (rs @ qs) = h # (hs @ chain_hits lower name (length rs) qs)"
    by (simp add: chain_hits_append)
  then show ?thesis using assms \<open>chain_hits lower name 0 rs = h # hs\<close> by (auto simp: chain_resolve_cases)
qed

text \<open>Every tag of an answer has a provider on record, and nothing else has.\<close>

definition tags_recorded :: "inv_target \<times> sources \<Rightarrow> bool" where
  "tags_recorded os \<longleftrightarrow> fst ` set (so_tags (snd os)) = set (iv_tags (fst os))"

lemma merge_tags_recorded: "tags_recorded os \<Longrightarrow> tags_recorded (merge t label f os)"
proof -
  assume a: "tags_recorded os"
  define os3 where "os3 = merge_status t label f (merge_site t label f (merge_role t label f os))"
  have "so_tags (snd os3) = so_tags (snd os)" "iv_tags (fst os3) = iv_tags (fst os)"
    by (auto simp: os3_def merge_role_def merge_site_def merge_status_def split: prod.splits)
  then have "tags_recorded os3" using a by (simp add: tags_recorded_def)
  moreover have "tags_recorded os3 \<Longrightarrow> tags_recorded (merge_tags label ts os3)" for ts
    using merge_tags_src [of "snd os3" "fst os3" label ts] merge_tags_out [of label ts "fst os3" "snd os3"]
    by (simp add: tags_recorded_def del: set_add_tags)
  ultimately show ?thesis by (simp add: merge_def os3_def [symmetric])
qed

lemma run_enrichers_recorded: "tags_recorded os \<Longrightarrow> tags_recorded (run_enrichers es os)"
  by (induction es os rule: run_enrichers.induct) (auto simp: merge_tags_recorded split: option.splits)

lemma run_later_recorded: "tags_recorded os \<Longrightarrow> tags_recorded (run_later hs os)"
proof (induction hs os rule: run_later.induct)
  case (2 t label hs out src)
  have "tags_recorded (out\<lparr>iv_stale := iv_stale out \<or> iv_stale t\<rparr>, src)"
    using "2.prems" by (simp add: tags_recorded_def)
  then show ?case using "2.IH" [OF merge_tags_recorded] by simp
qed simp

text \<open>The provenance of an answer is complete: it always carries a record of sources,
  which names a provider for each of its tags and for no other tag.\<close>

theorem chain_tags_have_sources:
  assumes "chain_resolve lower c name = Some t"
  shows "\<exists>src. iv_sources t = Some src \<and> set (go_keys (so_tags src)) = set (iv_tags t)"
proof -
  obtain h hs where t: "t = (fst (run_later hs (run_enrichers (ch_enrichers c) (first_hit h))))
       \<lparr>iv_sources := Some (snd (run_later hs (run_enrichers (ch_enrichers c) (first_hit h))))\<rparr>"
    using assms by (auto simp: chain_resolve_cases)
  have "tags_recorded (first_hit h)"
    by (cases h) (simp add: first_hit_def, rule merge_tags_recorded,
          simp add: tags_recorded_def zero_target_def zero_sources_def)
  then have "tags_recorded (run_later hs (run_enrichers (ch_enrichers c) (first_hit h)))"
    by (intro run_later_recorded run_enrichers_recorded)
  then show ?thesis by (simp add: t tags_recorded_def)
qed

section \<open>The static list\<close>

definition static_ok :: "(string \<Rightarrow> string) \<Rightarrow> static_file \<Rightarrow> bool" where
  "static_ok lower s \<longleftrightarrow> wf_map (sf_by_name s)
     \<and> (\<forall>(k, t) \<in> set (sf_by_name s). k = normalize lower (iv_name t) \<and> k \<noteq> []
          \<and> normalize lower (iv_status t) \<noteq> SourcePattern)"

lemma new_static_from_ok:
  "new_static_from lower m ts = Inr m' \<Longrightarrow> static_ok lower \<lparr>sf_by_name = m\<rparr> \<Longrightarrow>
     static_ok lower \<lparr>sf_by_name = m'\<rparr> \<and> map snd m' = map snd m @ ts"
proof (induction lower m ts rule: new_static_from.induct)
  case (2 lower m t ts)
  let ?k = "normalize lower (iv_name t)"
  have step: "?k \<noteq> []" "?k \<notin> set (go_keys m)" "normalize lower (iv_status t) \<noteq> SourcePattern"
      "new_static_from lower (m @ [(?k, t)]) ts = Inr m'"
    using "2.prems"(1) by (auto simp: Let_def split: if_splits)
  have "static_ok lower \<lparr>sf_by_name = m @ [(?k, t)]\<rparr>"
    using "2.prems"(2) step by (auto simp: static_ok_def wf_map_def)
  then show ?case using "2.IH" [OF refl step(1-3) step(4)] by simp
qed simp

lemma NewStatic_ok:
  assumes "NewStatic lower ts = Inr s"
  shows "static_ok lower s \<and> map snd (sf_by_name s) = ts"
proof -
  obtain m where "new_static_from lower [] ts = Inr m" "s = \<lparr>sf_by_name = m\<rparr>"
    using assms by (auto simp: NewStatic_def split: sum.splits)
  then show ?thesis using new_static_from_ok [of lower "[]" ts m] by (simp add: static_ok_def wf_map_def)
qed

lemma static_mem:
  assumes "NewStatic lower ts = Inr s"
  shows "map_of (sf_by_name s) k = Some t \<longleftrightarrow> t \<in> set ts \<and> k = normalize lower (iv_name t)"
proof -
  have ok: "static_ok lower s" and ts: "map snd (sf_by_name s) = ts" using NewStatic_ok [OF assms] by auto
  have "(k, t) \<in> set (sf_by_name s) \<longleftrightarrow> t \<in> set ts \<and> k = normalize lower (iv_name t)"
  proof
    assume "(k, t) \<in> set (sf_by_name s)"
    then show "t \<in> set ts \<and> k = normalize lower (iv_name t)"
      using ok unfolding ts [symmetric] by (force simp: static_ok_def)
  next
    assume a: "t \<in> set ts \<and> k = normalize lower (iv_name t)"
    then obtain k' where "(k', t) \<in> set (sf_by_name s)" unfolding ts [symmetric] by auto
    then show "(k, t) \<in> set (sf_by_name s)" using ok a by (auto simp: static_ok_def)
  qed
  moreover have "wf_map (sf_by_name s)" using ok by (simp add: static_ok_def)
  ultimately show ?thesis using map_of_wf_map [of "sf_by_name s" k t] by simp
qed

lemma static_resolve_iff:
  assumes "NewStatic lower ts = Inr s"
  shows "static_resolve lower (Some s) name = Some u \<longleftrightarrow>
    (\<exists>t \<in> set ts. normalize lower (iv_name t) = normalize lower name
       \<and> u = t\<lparr>iv_source := SourceStatic, iv_stale := False, iv_sources := None\<rparr>)"
proof -
  have "static_resolve lower (Some s) name = Some u \<longleftrightarrow>
      (\<exists>t. map_of (sf_by_name s) (normalize lower name) = Some t
         \<and> u = t\<lparr>iv_source := SourceStatic, iv_stale := False, iv_sources := None\<rparr>)"
    by (auto simp: static_resolve_def split: option.splits)
  then show ?thesis unfolding static_mem [OF assms] by auto
qed

text \<open>The static list answers with exactly the devices it was built from: a device of the
  file is found under its name in any letter case the normal form identifies, an answer is the
  record of a listed device with the same normal name, and no two devices share one.\<close>

theorem static_roundtrip:
  assumes "NewStatic lower ts = Inr s"
  shows "distinct (map (\<lambda>t. normalize lower (iv_name t)) ts) \<and> set (static_targets lower s) = set ts
    \<and> (static_resolve lower (Some s) name = Some u \<longleftrightarrow>
        (\<exists>t \<in> set ts. normalize lower (iv_name t) = normalize lower name
           \<and> u = t\<lparr>iv_source := SourceStatic, iv_stale := False, iv_sources := None\<rparr>))"
proof -
  have ok: "static_ok lower s" and ts: "map snd (sf_by_name s) = ts" using NewStatic_ok [OF assms] by auto
  have keys: "go_keys (sf_by_name s) = map (\<lambda>t. normalize lower (iv_name t)) ts"
    using ok unfolding ts [symmetric] by (auto simp: static_ok_def)
  have wf: "wf_map (sf_by_name s)" using ok by (simp add: static_ok_def)
  have "distinct (map (\<lambda>t. normalize lower (iv_name t)) ts)"
    using wf keys by (simp add: wf_map_def)
  moreover have "set (static_targets lower s) = set ts" using ts by (simp add: static_targets_def)
  ultimately show ?thesis unfolding static_resolve_iff [OF assms] by auto
qed

section \<open>Resolvers as an interface\<close>

text \<open>
  What the gate relies on when it looks a target up: a resolver answers a name only with a record
  whose name has the same normal form, and its answer depends on the normal form alone.
\<close>

locale name_authority =
  fixes lower :: "string \<Rightarrow> string"
    and resolve :: "'s \<Rightarrow> resolver"
    and invar :: "'s \<Rightarrow> bool"
  assumes answers_name: "invar s \<Longrightarrow> resolve s name = Some t \<Longrightarrow> normalize lower (iv_name t) = normalize lower name"
    and by_normal_form: "invar s \<Longrightarrow> normalize lower m = normalize lower n \<Longrightarrow> resolve s m = resolve s n"
begin

lemma known_exact: "Known (Some (resolve s)) name = Some t \<longleftrightarrow> resolve s name = Some t \<and> iv_name t = name"
  by (auto simp: Known_def split: option.splits if_splits)

text \<open>Of the spellings of a device at most one is known: the one its record carries.\<close>

lemma known_one_spelling:
  assumes "invar s" "Known (Some (resolve s)) m = Some t" "Known (Some (resolve s)) n = Some u"
    and "normalize lower m = normalize lower n"
  shows "m = n"
proof -
  have "resolve s m = resolve s n" using by_normal_form assms(1,4) by blast
  then show ?thesis using assms(2,3) by (auto simp: known_exact)
qed

lemma known_only_if_resolved: "Known (Some (resolve s)) name \<noteq> None \<Longrightarrow> resolve s name \<noteq> None"
  by (auto simp: Known_def split: option.splits)

end

lemma static_answers:
  assumes "\<forall>s. so = Some s \<longrightarrow> static_ok lower s" "static_resolve lower so name = Some t"
  shows "normalize lower (iv_name t) = normalize lower name"
proof -
  obtain s u where so: "so = Some s" and u: "map_of (sf_by_name s) (normalize lower name) = Some u"
      and t: "iv_name t = iv_name u"
    using assms(2) by (auto simp: static_resolve_def split: option.splits)
  have "(normalize lower name, u) \<in> set (sf_by_name s)" using u by (simp add: map_of_SomeD)
  then show ?thesis using assms(1) so t by (auto simp: static_ok_def)
qed

interpretation static_authority: name_authority lower "static_resolve lower" "\<lambda>so. \<forall>s. so = Some s \<longrightarrow> static_ok lower s"
  for lower
proof
  show "\<And>s name t. \<forall>sa. s = Some sa \<longrightarrow> static_ok lower sa \<Longrightarrow> static_resolve lower s name = Some t \<Longrightarrow>
      normalize lower (iv_name t) = normalize lower name"
    by (rule static_answers)
  show "\<And>s m n. \<forall>sa. s = Some sa \<longrightarrow> static_ok lower sa \<Longrightarrow> normalize lower m = normalize lower n \<Longrightarrow>
      static_resolve lower s m = static_resolve lower s n"
    by (simp add: static_resolve_def split: option.split)
qed

interpretation netbox: name_authority lower "\<lambda>u :: unit. netbox_resolve" "\<lambda>u. True"
  for lower
  by unfold_locales (simp_all add: netbox_resolve_def)

lemma chain_answers:
  assumes "chain_resolve lower c name = Some t"
  shows "normalize lower (iv_name t) = normalize lower name"
proof -
  obtain u l hs where "chain_hits lower name 0 (ch_authorities c) = (u, l) # hs" and t: "iv_name t = iv_name u"
    using assms by (auto simp: chain_resolve_cases)
  then have "(u, l) \<in> set (chain_hits lower name 0 (ch_authorities c))" by simp
  then show ?thesis using chain_hits_mem t by metis
qed

text \<open>The chain keeps the contract of its authorities; it enforces the first law by itself.\<close>

definition respects_normal_form :: "(string \<Rightarrow> string) \<Rightarrow> resolver \<Rightarrow> bool" where
  "respects_normal_form lower r \<longleftrightarrow> (\<forall>m n. normalize lower m = normalize lower n \<longrightarrow> r m = r n)"

definition chain_ok :: "(string \<Rightarrow> string) \<Rightarrow> chain \<Rightarrow> bool" where
  "chain_ok lower c \<longleftrightarrow> (\<forall>r. Some r \<in> set (ch_authorities c) \<longrightarrow> respects_normal_form lower r)"

lemma chain_hits_normal_form:
  "\<forall>r. Some r \<in> set rs \<longrightarrow> respects_normal_form lower r \<Longrightarrow> normalize lower m = normalize lower n \<Longrightarrow>
     chain_hits lower m i rs = chain_hits lower n i rs"
proof (induction lower m i rs rule: chain_hits.induct)
  case (3 lower m i r rs)
  have r: "respects_normal_form lower r" and rs: "\<forall>q. Some q \<in> set rs \<longrightarrow> respects_normal_form lower q"
    using "3.prems"(1) by auto
  have eq: "r m = r n" using r "3.prems"(2) unfolding respects_normal_form_def by blast
  show ?case
  proof (cases "r n")
    case None
    then show ?thesis using "3.IH"(1) [OF _ rs "3.prems"(2)] eq by simp
  next
    case (Some t)
    then show ?thesis using "3.IH"(2) [OF _ _ rs "3.prems"(2)] "3.IH"(3) [OF _ _ rs "3.prems"(2)] eq "3.prems"(2) by simp
  qed
qed auto

interpretation chain_authority: name_authority lower "chain_resolve lower" "chain_ok lower"
  for lower
proof
  show "\<And>s name t. chain_ok lower s \<Longrightarrow> chain_resolve lower s name = Some t \<Longrightarrow>
      normalize lower (iv_name t) = normalize lower name"
    by (rule chain_answers)
  show "\<And>s m n. chain_ok lower s \<Longrightarrow> normalize lower m = normalize lower n \<Longrightarrow>
      chain_resolve lower s m = chain_resolve lower s n"
    unfolding chain_resolve_def chain_ok_def by (subst chain_hits_normal_form) simp_all
qed

lemma file_chain_ok: "file_chain lower compile f = Inr c \<Longrightarrow> chain_ok lower c"
  by (auto simp: file_chain_def chain_ok_def respects_normal_form_def static_resolve_def split: sum.splits)

text \<open>Property C21 (safety). With the chain of an inventory file, the gate's lookup \<open>Known\<close> accepts a name only
  when the file lists a device under exactly that string, letter case included; so of all
  spellings that the resolver treats as one device, at most one is known.\<close>

theorem file_known_exact:
  assumes "file_chain lower compile f = Inr c"
  shows "(Known (Some (chain_resolve lower c)) name \<noteq> None \<longleftrightarrow> name \<in> iv_name ` set (fl_devices f))
    \<and> (Known (Some (chain_resolve lower c)) m \<noteq> None \<and> Known (Some (chain_resolve lower c)) n \<noteq> None
        \<and> normalize lower m = normalize lower n \<longrightarrow> m = n)"
proof -
  obtain s cs where s: "NewStatic lower (fl_devices f) = Inr s"
      and c: "c = \<lparr>ch_authorities = [Some (static_resolve lower (Some s))], ch_enrichers = [Some (Attributes (Some cs))]\<rparr>"
    using assms by (auto simp: file_chain_def split: sum.splits)
  note rt = static_resolve_iff [OF s]
  have hits: "chain_hits lower name 0 (ch_authorities c) =
      (case static_resolve lower (Some s) name of None \<Rightarrow> [] | Some t \<Rightarrow> [(t, hit_label 0 t)])"
    using static_answers [of "Some s" lower name] NewStatic_ok [OF s] by (auto simp: c split: option.splits)
  have iff: "Known (Some (chain_resolve lower c)) name \<noteq> None \<longleftrightarrow>
      (\<exists>t. static_resolve lower (Some s) name = Some t \<and> iv_name t = name)"
    using hits by (auto simp: Known_def chain_resolve_def split: option.splits list.splits prod.splits if_splits)
       (metis fst_conv first_hit_sel(1) run_later_keeps(1) run_enrichers_keeps(1))+
  have "(\<exists>t. static_resolve lower (Some s) name = Some t \<and> iv_name t = name) \<longleftrightarrow> name \<in> iv_name ` set (fl_devices f)"
    using rt by force
  moreover have "m = n" if "Known (Some (chain_resolve lower c)) m \<noteq> None" "Known (Some (chain_resolve lower c)) n \<noteq> None"
      "normalize lower m = normalize lower n"
    using chain_authority.known_one_spelling [OF file_chain_ok [OF assms]] that by blast
  ultimately show ?thesis using iff by blast
qed

section \<open>Patterns\<close>

text \<open>The first non-empty value, starting from one that may be set already.\<close>

fun pick :: "string \<Rightarrow> string list \<Rightarrow> string" where
  "pick x [] = x"
| "pick x (y # ys) = pick (if x = [] then y else x) ys"

lemma pick_set: "x \<noteq> [] \<Longrightarrow> pick x ys = x"
  by (induction ys arbitrary: x) auto

definition matching :: "string \<Rightarrow> (matcher \<times> pattern) list \<Rightarrow> pattern list" where
  "matching name cs = map snd (filter (\<lambda>(re, p). re name) cs)"

lemma matching_simps [simp]:
  "matching name [] = []"
  "matching name ((re, p) # cs) = (if re name then p # matching name cs else matching name cs)"
  by (simp_all add: matching_def)

lemma attributes_from_eq:
  "attributes_from listed t hit cs =
     (t\<lparr>iv_role := pick (iv_role t) (map pt_role (matching listed cs)),
        iv_site := pick (iv_site t) (map pt_site (matching listed cs)),
        iv_tags := foldl add_tags (iv_tags t) (map pt_tags (matching listed cs))\<rparr>,
      hit \<or> matching listed cs \<noteq> [])"
proof (induction listed t hit cs rule: attributes_from.induct)
  case (1 listed t hit)
  then show ?case by (cases t) simp
qed auto

lemma role_effect_fst: "fst (role_effect d role p) = (if role = [] then pt_role p else role)"
  by (simp add: role_effect_def)

lemma site_effect_fst: "fst (site_effect site p) = (if site = [] then pt_site p else site)"
  by (simp add: site_effect_def)

lemma device_effects_final:
  "snd (device_effects j d (role, site, tags) i (map Some cs)) =
     (pick role (map pt_role (matching (iv_name d) cs)), pick site (map pt_site (matching (iv_name d) cs)),
      foldl add_tags tags (map pt_tags (matching (iv_name d) cs)))"
proof (induction cs arbitrary: role site tags i)
  case (Cons c cs)
  obtain re p where c: "c = (re, p)" by (cases c)
  obtain role' res rc where r: "role_effect d role p = (role', res, rc)" by (cases "role_effect d role p") auto
  obtain site' ses where st: "site_effect site p = (site', ses)" by (cases "site_effect site p") auto
  have e: "role' = (if role = [] then pt_role p else role)" "site' = (if site = [] then pt_site p else site)"
    using role_effect_fst [of d role p] site_effect_fst [of site p] r st by simp_all
  show ?case using Cons.IH by (simp add: c r st e Let_def)
qed simp

lemma set_foldl_add_tags: "set (foldl add_tags h tss) = set h \<union> (\<Union>ts \<in> set tss. set ts)"
  by (induction tss arbitrary: h) auto

lemma NewPatterns_compiled:
  "new_patterns_from compile i ps = Inr cs \<Longrightarrow> compiled_roles compile ps = map Some cs"
proof (induction compile i ps arbitrary: cs rule: new_patterns_from.induct)
  case (2 compile i p ps)
  then show ?case
    by (auto simp: compiled_roles_def split: if_splits option.splits sum.splits)
qed (simp add: compiled_roles_def)

text \<open>Property C30 (equivalence). \<open>inventory lint\<close> reports what the resolver does: for every device of a loaded file,
  the role, site and tags that \<open>PatternEffects\<close> computes while it lists the effects of the
  patterns are those of the target the chain resolves for that device.\<close>

theorem pattern_effects_match_chain:
  assumes "file_chain lower compile f = Inr c" and "d \<in> set (fl_devices f)"
  shows "\<exists>t. chain_resolve lower c (iv_name d) = Some t
    \<and> (case snd (device_effects j d (iv_role d, iv_site d, iv_tags d) 0 (compiled_roles compile (fl_roles f))) of
         (role, site, tags) \<Rightarrow> iv_role t = role \<and> iv_site t = site \<and> set (iv_tags t) = set tags)"
proof -
  obtain s cs where s: "NewStatic lower (fl_devices f) = Inr s" and cs: "NewPatterns compile (fl_roles f) = Inr cs"
      and c: "c = \<lparr>ch_authorities = [Some (static_resolve lower (Some s))], ch_enrichers = [Some (Attributes (Some cs))]\<rparr>"
    using assms(1) by (auto simp: file_chain_def split: sum.splits)
  define d' where "d' = d\<lparr>iv_source := SourceStatic, iv_stale := False, iv_sources := None\<rparr>"
  have "map_of (sf_by_name s) (normalize lower (iv_name d)) = Some d" using static_mem [OF s] assms(2) by simp
  then have "static_resolve lower (Some s) (iv_name d) = Some d'" by (simp add: static_resolve_def d'_def)
  then have hits: "chain_hits lower (iv_name d) 0 (ch_authorities c) = [(d', hit_label 0 d')]"
    by (simp add: c d'_def)
  let ?ms = "matching (iv_name d) cs"
  define o1 where "o1 = run_enrichers (ch_enrichers c) (first_hit (d', hit_label 0 d'))"
  have "iv_role (fst o1) = pick (iv_role d) (map pt_role ?ms) \<and> iv_site (fst o1) = pick (iv_site d) (map pt_site ?ms)
      \<and> set (iv_tags (fst o1)) = set (foldl add_tags (iv_tags d) (map pt_tags ?ms))"
  proof (cases "?ms = []")
    case True
    then show ?thesis
      by (simp add: o1_def c Attributes_def attributes_from_eq first_hit_sel d'_def)
  next
    case False
    then show ?thesis
      by (simp add: o1_def c Attributes_def attributes_from_eq merge_sel fieldsEnricher_def d'_def zero_target_def
          pick_set set_foldl_add_tags)
  qed
  moreover have "chain_resolve lower c (iv_name d) = Some ((fst o1)\<lparr>iv_sources := Some (snd o1)\<rparr>)"
    using hits by (simp add: chain_resolve_def o1_def split: prod.split)
  ultimately show ?thesis
    using NewPatterns_compiled [OF cs [unfolded NewPatterns_def]] by (simp add: device_effects_final)
qed

section \<open>The CSV import\<close>

lemma csv_rows_named:
  "csv_rows col i line rows = Inr ts \<Longrightarrow> t \<in> set ts \<Longrightarrow> iv_name t \<noteq> []"
proof (induction col i line rows arbitrary: ts rule: csv_rows.induct)
  case (3 col i line rec rows)
  then show ?case by (auto split: if_splits sum.splits)
qed auto



section \<open>Witnesses\<close>

definition demo_compile :: compiler where
  "demo_compile e = (if e = ''(?i)^lab-'' then Some (\<lambda>n. prefix ''lab-'' n) else None)"

definition demo_device :: inv_target where
  "demo_device = zero_target\<lparr>iv_name := ''lab-leaf1'', iv_role := ''leaf'', iv_tags := [''dc1'']\<rparr>"

definition demo_pattern :: pattern where
  "demo_pattern = \<lparr>pt_match = ''^lab-'', pt_role = ''lab'', pt_site = ''lab-site'', pt_tags = [''lab'']\<rparr>"

definition demo_inventory :: inv_file where
  "demo_inventory = \<lparr>fl_devices = [demo_device], fl_roles = [demo_pattern]\<rparr>"

definition demo_static :: static_file where
  "demo_static = \<lparr>sf_by_name = [(''lab-leaf1'', demo_device)]\<rparr>"

definition demo_chain :: chain where
  "demo_chain = \<lparr>ch_authorities = [Some (static_resolve to_lower (Some demo_static))],
     ch_enrichers = [Some (Attributes (Some [(\<lambda>n. prefix ''lab-'' n, demo_pattern)]))]\<rparr>"

lemma demo_normal: "normalize to_lower ''lab-leaf1'' = ''lab-leaf1''" "normalize to_lower [] = []"
  by code_simp+

lemma demo_NewStatic: "NewStatic to_lower [demo_device] = Inr demo_static"
  by (simp add: NewStatic_def demo_device_def demo_static_def zero_target_def demo_normal SourcePattern_def Let_def)

lemma demo_file_chain: "file_chain to_lower demo_compile demo_inventory = Inr demo_chain"
  by (simp add: file_chain_def demo_inventory_def demo_NewStatic NewPatterns_def demo_pattern_def
      compilePattern_def demo_compile_def demo_chain_def)

lemma demo_resolves: "\<exists>t. chain_resolve to_lower demo_chain ''lab-leaf1'' = Some t"
  by (simp add: chain_resolve_def demo_chain_def static_resolve_def demo_static_def demo_normal demo_device_def
      zero_target_def split: prod.split)

theorem static_roundtrip_witness: "static_resolve to_lower (Some demo_static) ''lab-leaf1'' \<noteq> None"
proof -
  have "static_resolve to_lower (Some demo_static) ''lab-leaf1'' =
      Some (demo_device\<lparr>iv_source := SourceStatic, iv_stale := False, iv_sources := None\<rparr>)"
    using static_roundtrip [OF demo_NewStatic, of "''lab-leaf1''"] by (simp add: demo_device_def)
  then show ?thesis by simp
qed

theorem file_known_exact_witness:
  "Known (Some (chain_resolve to_lower demo_chain)) ''lab-leaf1'' \<noteq> None
   \<and> Known (Some (chain_resolve to_lower demo_chain)) ''LAB-leaf1'' = None"
  using file_known_exact [OF demo_file_chain, of "''lab-leaf1''"] file_known_exact [OF demo_file_chain, of "''LAB-leaf1''"]
  by (simp add: demo_inventory_def demo_device_def)

theorem pattern_effects_match_chain_witness:
  "\<exists>t. chain_resolve to_lower demo_chain ''lab-leaf1'' = Some t \<and> iv_role t = ''leaf'' \<and> iv_site t = ''lab-site''"
proof -
  have d: "demo_device \<in> set (fl_devices demo_inventory)" "iv_name demo_device = ''lab-leaf1''"
    by (simp_all add: demo_inventory_def demo_device_def)
  have "snd (device_effects 0 demo_device (iv_role demo_device, iv_site demo_device, iv_tags demo_device) 0
      (compiled_roles demo_compile (fl_roles demo_inventory))) = (''leaf'', ''lab-site'', [''dc1'', ''lab''])"
    by (simp add: compiled_roles_def demo_inventory_def demo_pattern_def compilePattern_def demo_compile_def
        demo_device_def zero_target_def role_effect_def site_effect_def Let_def)
  then show ?thesis using pattern_effects_match_chain [OF demo_file_chain d(1), of 0] by (auto simp: d(2))
qed

theorem chain_resolve_listed_witness:
  "\<exists>t u. chain_resolve to_lower demo_chain ''lab-leaf1'' = Some t
     \<and> static_resolve to_lower (Some demo_static) ''lab-leaf1'' = Some u \<and> iv_name t = iv_name u"
proof -
  obtain t where t: "chain_resolve to_lower demo_chain ''lab-leaf1'' = Some t" using demo_resolves by blast
  show ?thesis using t chain_resolve_listed [OF t] by (auto simp: demo_chain_def)
qed

theorem later_authorities_grant_nothing_witness:
  "\<exists>t u. chain_resolve to_lower demo_chain ''lab-leaf1'' = Some t
     \<and> chain_resolve to_lower (demo_chain\<lparr>ch_authorities := ch_authorities demo_chain @
           [Some (\<lambda>n. Some (demo_device\<lparr>iv_role := ''core'', iv_tags := [''writable'']\<rparr>))]\<rparr>) ''lab-leaf1'' = Some u
     \<and> iv_role u = iv_role t \<and> iv_tags u = iv_tags t"
proof -
  obtain t where t: "chain_resolve to_lower demo_chain ''lab-leaf1'' = Some t" using demo_resolves by blast
  then have t': "chain_resolve to_lower \<lparr>ch_authorities = ch_authorities demo_chain, ch_enrichers = ch_enrichers demo_chain\<rparr>
      ''lab-leaf1'' = Some t" by (simp add: demo_chain_def)
  show ?thesis
    using t later_authorities_grant_nothing
      [OF t', of "[Some (\<lambda>n. Some (demo_device\<lparr>iv_role := ''core'', iv_tags := [''writable'']\<rparr>))]"]
    by (auto simp: demo_chain_def)
qed

theorem chain_tags_have_sources_witness:
  "\<exists>t src. chain_resolve to_lower demo_chain ''lab-leaf1'' = Some t \<and> iv_sources t = Some src
     \<and> set (go_keys (so_tags src)) = set (iv_tags t)"
proof -
  obtain t where t: "chain_resolve to_lower demo_chain ''lab-leaf1'' = Some t" using demo_resolves by blast
  show ?thesis using t chain_tags_have_sources [OF t] by blast
qed

end
