(* ===== verification/Gate_Decide.thy ===== *)
theory Gate_Decide
  imports Gate_Text Policy_Load Inventory
begin

text \<open>
  \<^verbatim>\<open>internal/gate/gate.go\<close>, \<^verbatim>\<open>record.go\<close> and the types of \<^verbatim>\<open>internal/gate/seam\<close>: one call through parse,
  caps, classification, the closed argument list, targets, resolution and \<open>Evaluate\<close>, and the
  verdict the proxy acts on. The gate keeps no state, so \<open>Decide\<close> is a function. The parameter
  \<open>num\<close> is the float conversion of the JSON decoder.
\<close>

section \<open>The seam\<close>

record call_info =
  ci_server :: string
  ci_tool :: string
  ci_arguments :: string
  ci_read_only_hint :: "bool option"
  ci_destructive_hint :: "bool option"
  ci_agent_protocol :: string
  ci_agent_era :: string
  ci_upstream_protocol :: string
  ci_upstream_era :: string
  ci_transport :: string
  ci_principal :: string
  ci_session_id :: string
  ci_devices_touched :: int
  ci_pending_holds :: int
  ci_counted :: "(string \<Rightarrow> bool) option"

datatype attr_value = AStr string | ABool bool | AStrs "string list"

type_synonym attrs = "(string \<times> attr_value) list"

record verdict =
  vd_forward :: bool
  vd_effect :: effect
  vd_rule_id :: string
  vd_class :: cls
  vd_class_source :: csource
  vd_targets :: "string list"
  vd_error :: string
  vd_record :: attrs
  vd_trace :: "trace_entry list"

section \<open>The gate\<close>

record gate_config =
  gc_policy :: "policy option"
  gc_profiles :: "(string, profile option) gomap"
  gc_inventory :: "resolver option"

record gate =
  g_policy :: "policy option"
  g_profiles :: "(string, profile) gomap"
  g_inventory :: "resolver option"

datatype gate_error = NilProfile string | WrongServer string string

fun new_profiles :: "(string, profile option) gomap \<Rightarrow> gate_error + (string, profile) gomap" where
  "new_profiles [] = Inr []"
| "new_profiles ((name, None) # m) = Inl (NilProfile name)"
| "new_profiles ((name, Some p) # m) =
     (if pr_server p \<noteq> name then Inl (WrongServer name (pr_server p))
      else case new_profiles m of Inl e \<Rightarrow> Inl e | Inr ps \<Rightarrow> Inr ((name, p) # ps))"

definition gate_new :: "gate_config \<Rightarrow> gate_error + gate" where
  "gate_new cfg =
     (case new_profiles (gc_profiles cfg) of
        Inl e \<Rightarrow> Inl e
      | Inr ps \<Rightarrow> Inr \<lparr>g_policy = gc_policy cfg, g_profiles = ps, g_inventory = gc_inventory cfg\<rparr>)"

definition forwardable :: "string \<Rightarrow> bool" where
  "forwardable ob \<longleftrightarrow> ob \<in> {''redact'', ''notify'', ''require_ticket'', ''canary_first''}"

definition gate_resolve :: "gate \<Rightarrow> string \<Rightarrow> target" where
  "gate_resolve g name =
     (case g_inventory g of
        None \<Rightarrow> \<lparr>tg_name = name, tg_role = [], tg_tags = [], tg_site = [], tg_known = False\<rparr>
      | Some r \<Rightarrow>
          (case Known (Some r) name of
             None \<Rightarrow> \<lparr>tg_name = name, tg_role = [], tg_tags = [], tg_site = [], tg_known = False\<rparr>
           | Some t \<Rightarrow> \<lparr>tg_name = name, tg_role = iv_role t, tg_tags = iv_tags t, tg_site = iv_site t,
                        tg_known = True\<rparr>))"

definition devicesTouched :: "call_info \<Rightarrow> string list \<Rightarrow> int" where
  "devicesTouched ci ts =
     (let n = (case ci_counted ci of
                 None \<Rightarrow> ci_devices_touched ci
               | Some counted \<Rightarrow> ci_devices_touched ci - int (length (filter counted ts)))
      in max n 0)"

definition raises :: "call_info \<Rightarrow> bool" where
  "raises ci \<longleftrightarrow> ci_read_only_hint ci = Some False \<or> ci_destructive_hint ci = Some True"

definition isReadClass :: "cls \<Rightarrow> bool" where
  "isReadClass c \<longleftrightarrow> c = ReadOperational \<or> c = ReadConfig \<or> c = InventoryRead"

section \<open>One decision\<close>

record gdecision =
  gd_in :: call_info
  gd_res :: result
  gd_class :: cls
  gd_source :: csource
  gd_targets :: "string list"
  gd_resolved :: "target list"
  gd_dec :: decision
  gd_parse_error :: string
  gd_unnamed :: "string list"
  gd_malformed :: "string list"

definition zero_decision :: decision where
  "zero_decision = \<lparr>dc_effect = [], dc_rule_id = [], dc_reason = [], dc_obligations = [], dc_approval = None,
     dc_trace = []\<rparr>"

definition gd_start :: "call_info \<Rightarrow> gdecision" where
  "gd_start ci = \<lparr>gd_in = ci, gd_res = zero_result, gd_class = [], gd_source = [], gd_targets = [],
     gd_resolved = [], gd_dec = zero_decision, gd_parse_error = [], gd_unnamed = [], gd_malformed = []\<rparr>"

text \<open>The result of the classifier for the call, before the annotations: \<open>spec\<close> is \<open>None\<close> for a tool
  the profile does not list exactly.\<close>

definition gate_result :: "call_info \<Rightarrow> profile option \<Rightarrow> toolspec option \<Rightarrow> args \<Rightarrow> result" where
  "gate_result ci po spec a =
     (case po of
        None \<Rightarrow> Classify None (ci_tool ci) a
      | Some p \<Rightarrow>
          (case spec of
             None \<Rightarrow> zero_result\<lparr>r_class := ExecArbitrary, r_source := SourceFallback,
                       r_reason := ''tool not in profile''\<rparr>
           | Some s \<Rightarrow> Classify (Some p) (ci_tool ci) a))"

fun in_profile :: "toolspec option \<Rightarrow> bool" where
  "in_profile None = False"
| "in_profile (Some s) = True"

definition gd_classify :: "gdecision \<Rightarrow> profile option \<Rightarrow> toolspec option \<Rightarrow> args \<Rightarrow> gdecision" where
  "gd_classify d po spec a =
     (let res = gate_result (gd_in d) po spec a;
          base = (if r_source res = SourceCapabilityTable then r_class res
                  else case spec of None \<Rightarrow> [] | Some s \<Rightarrow> ts_class s);
          raise = (in_profile spec \<and> isReadClass base \<and> raises (gd_in d) \<and> r_class res \<noteq> ExecArbitrary)
      in d\<lparr>gd_res := res,
           gd_class := (if raise then ExecArbitrary else r_class res),
           gd_source := (if raise then SourceAnnotationRaise else r_source res)\<rparr>)"

definition refuse :: "string \<Rightarrow> gdecision \<Rightarrow> gdecision" where
  "refuse reason d =
     d\<lparr>gd_targets := [], gd_resolved := [],
       gd_dec := \<lparr>dc_effect = Deny, dc_rule_id = RuleBadArguments, dc_reason = reason, dc_obligations = [],
                  dc_approval = None, dc_trace = [mk_trace RuleBadArguments True (NoteReason reason)]\<rparr>\<rparr>"

text \<open>Steps 4 to 6: resolve, count, evaluate.\<close>

definition gate_request :: "gate \<Rightarrow> call_info \<Rightarrow> cls \<Rightarrow> string list \<Rightarrow> request" where
  "gate_request g ci c ts =
     \<lparr>rq_server = ci_server ci, rq_tool = ci_tool ci, rq_class = c, rq_targets = map (gate_resolve g) ts,
      rq_session = \<lparr>se_devices_touched = devicesTouched ci ts, se_pending_holds = ci_pending_holds ci\<rparr>\<rparr>"

definition decide_rules :: "gate \<Rightarrow> gdecision \<Rightarrow> gdecision" where
  "decide_rules g d =
     (let req = gate_request g (gd_in d) (gd_class d) (gd_targets d) in
      d\<lparr>gd_resolved := rq_targets req, gd_dec := Evaluate (g_policy g) req\<rparr>)"

text \<open>The targets of a call to a tool of the profile: the reason of a refusal, or the names.\<close>

definition call_targets :: "toolspec \<Rightarrow> args \<Rightarrow> string + string list" where
  "call_targets s a =
     (case targets s a of
        None \<Rightarrow> Inl reasonBadTarget
      | Some (names, groups) \<Rightarrow>
          (let exempt = (ts_class s = InventoryRead \<or> ts_class s = LocalAdmin) in
           if \<not> exempt \<and> groups then Inl reasonGroup
           else if \<not> exempt \<and> declaresTargets s \<and> names = [] then Inl reasonNoTarget
           else Inr names))"

definition malformed_reason :: "toolspec option \<Rightarrow> string list \<Rightarrow> string" where
  "malformed_reason spec malformed =
     (case spec of
        None \<Rightarrow> reasonMalformed
      | Some s \<Rightarrow> if ts_capability_param s \<noteq> [] \<and> malformed = [ts_capability_param s]
                  then reasonMalformedCapability else reasonMalformed)"

text \<open>Steps 2 and 3, for arguments that parsed and are within the caps.\<close>

definition decide_args :: "gate \<Rightarrow> profile option \<Rightarrow> toolspec option \<Rightarrow> args \<Rightarrow> gdecision \<Rightarrow> gdecision" where
  "decide_args g po spec a d0 =
     (let d = gd_classify d0 po spec a in
      if \<not> Option.is_none po \<and> \<not> in_profile spec \<and> a \<noteq> [] then
        refuse reasonUnnamed (d\<lparr>gd_unnamed := sort (go_keys a)\<rparr>)
      else case argumentFindings (gd_res d) of (unnamed, malformed) \<Rightarrow>
        if unnamed \<noteq> [] \<or> malformed \<noteq> [] then
          refuse (if unnamed \<noteq> [] then reasonUnnamed else malformed_reason spec malformed)
            (d\<lparr>gd_unnamed := unnamed, gd_malformed := malformed\<rparr>)
        else (case spec of
            None \<Rightarrow> decide_rules g d
          | Some s \<Rightarrow>
              (case call_targets s a of
                 Inl reason \<Rightarrow> refuse reason d
               | Inr names \<Rightarrow> decide_rules g (d\<lparr>gd_targets := names\<rparr>))))"

definition lookup_profile :: "gate \<Rightarrow> call_info \<Rightarrow> profile option" where
  "lookup_profile g ci = map_of (g_profiles g) (ci_server ci)"

definition lookup_tool :: "gate \<Rightarrow> call_info \<Rightarrow> toolspec option" where
  "lookup_tool g ci =
     (case lookup_profile g ci of None \<Rightarrow> None | Some p \<Rightarrow> map_of (pr_tools p) (ci_tool ci))"

definition gate_decide :: "(string \<Rightarrow> string option) \<Rightarrow> gate \<Rightarrow> call_info \<Rightarrow> gdecision" where
  "gate_decide num g ci =
     (let d = gd_start ci; po = lookup_profile g ci; spec = lookup_tool g ci in
      case parseArguments num (ci_arguments ci) of
        Inl e \<Rightarrow> refuse reasonNotObject ((gd_classify d po spec [])\<lparr>gd_parse_error := e\<rparr>)
      | Inr a \<Rightarrow>
          (case (case spec of None \<Rightarrow> None | Some s \<Rightarrow> overCaps s a) of
             Some (code, reason) \<Rightarrow> refuse reason ((gd_classify d po spec [])\<lparr>gd_parse_error := code\<rparr>)
           | None \<Rightarrow> decide_args g po spec a d))"

section \<open>The verdict and the log line\<close>

definition hasUnknown :: "gdecision \<Rightarrow> bool" where
  "hasUnknown d = list_ex (\<lambda>t. \<not> tg_known t) (gd_resolved d)"

definition gate_record :: "gdecision \<Rightarrow> verdict \<Rightarrow> attrs" where
  "gate_record d v =
     (let ci = gd_in d in
      [(''server'', AStr (ci_server ci)), (''tool'', AStr (ci_tool ci)),
       (''class'', AStr (vd_class v)), (''class_source'', AStr (vd_class_source v)),
       (''targets'', AStrs (map tg_name (gd_resolved d))), (''roles'', AStrs (map tg_role (gd_resolved d))),
       (''unknown_target'', ABool (hasUnknown d)), (''decision'', AStr (vd_effect v)),
       (''rule_id'', AStr (vd_rule_id v)), (''reason'', AStr (oneLine (recordReason (gd_dec d)))),
       (''obligations'', AStrs (dc_obligations (gd_dec d))), (''forwarded'', ABool (vd_forward v)),
       (''agent_protocol'', AStr (ci_agent_protocol ci)), (''agent_era'', AStr (ci_agent_era ci)),
       (''upstream_protocol'', AStr (ci_upstream_protocol ci)), (''upstream_era'', AStr (ci_upstream_era ci)),
       (''transport'', AStr (ci_transport ci)), (''principal'', AStr (ci_principal ci)),
       (''session_id'', AStr (ci_session_id ci))]
      @ (if gd_parse_error d \<noteq> [] then [(''parse_error'', AStr (gd_parse_error d))] else [])
      @ (if gd_unnamed d \<noteq> [] then [(''unnamed_args'', AStrs (capNames (gd_unnamed d)))] else [])
      @ (if gd_malformed d \<noteq> [] then [(''malformed_args'', AStrs (capNames (gd_malformed d)))] else []))"

definition gate_verdict :: "gdecision \<Rightarrow> verdict" where
  "gate_verdict d =
     (let dec = gd_dec d;
          bad = (if dc_effect dec = Allow then find_first (\<lambda>ob. \<not> forwardable ob) (dc_obligations dec) else None);
          fwd = (dc_effect dec = Allow \<and> bad = None);
          unmet = (case bad of None \<Rightarrow> [] | Some ob \<Rightarrow> ob);
          eff = (if dc_effect dec \<in> {Allow, Hold, Deny} then dc_effect dec else Deny);
          v = \<lparr>vd_forward = fwd, vd_effect = eff, vd_rule_id = dc_rule_id dec, vd_class = gd_class d,
               vd_class_source = gd_source d, vd_targets = gd_targets d,
               vd_error = (if fwd then []
                           else errorText (ci_server (gd_in d)) (ci_tool (gd_in d)) dec (gd_class d) unmet (hasUnknown d)),
               vd_record = [], vd_trace = dc_trace dec\<rparr>
      in v\<lparr>vd_record := gate_record d v\<rparr>)"

definition Decide :: "(string \<Rightarrow> string option) \<Rightarrow> gate \<Rightarrow> call_info \<Rightarrow> verdict" where
  "Decide num g ci = gate_verdict (gate_decide num g ci)"

record explanation =
  ex_verdict :: verdict
  ex_decision :: decision
  ex_targets :: "target list"
  ex_profile_class :: cls
  ex_class_note :: string
  ex_parse_error :: string
  ex_unnamed :: "string list"
  ex_malformed :: "string list"

definition Explain :: "(string \<Rightarrow> string option) \<Rightarrow> gate \<Rightarrow> call_info \<Rightarrow> explanation" where
  "Explain num g ci =
     (let d = gate_decide num g ci in
      \<lparr>ex_verdict = gate_verdict d, ex_decision = gd_dec d, ex_targets = gd_resolved d,
       ex_profile_class = r_profile_class (gd_res d), ex_class_note = r_reason (gd_res d),
       ex_parse_error = gd_parse_error d, ex_unnamed = gd_unnamed d, ex_malformed = gd_malformed d\<rparr>)"

text \<open>\<open>Arguments\<close>: the sorted named arguments without repeats, and whether the list is closed.\<close>

definition gate_arguments :: "gate \<Rightarrow> string \<Rightarrow> string \<Rightarrow> string list \<times> bool" where
  "gate_arguments g server tool =
     (case map_of (g_profiles g) server of
        None \<Rightarrow> ([], False)
      | Some p \<Rightarrow>
          (case map_of (pr_tools p) tool of
             None \<Rightarrow> ([], True)
           | Some s \<Rightarrow> (remdups_adj (sort (NamedArgs s)), True)))"

section \<open>Lemmas on decisions\<close>

lemma refuse_sel [simp]:
  "gd_dec (refuse reason d) = \<lparr>dc_effect = Deny, dc_rule_id = RuleBadArguments, dc_reason = reason, dc_obligations = [],
      dc_approval = None, dc_trace = [mk_trace RuleBadArguments True (NoteReason reason)]\<rparr>"
  "gd_targets (refuse reason d) = []" "gd_resolved (refuse reason d) = []"
  "gd_in (refuse reason d) = gd_in d" "gd_class (refuse reason d) = gd_class d"
  "gd_source (refuse reason d) = gd_source d" "gd_res (refuse reason d) = gd_res d"
  "gd_parse_error (refuse reason d) = gd_parse_error d"
  "gd_unnamed (refuse reason d) = gd_unnamed d" "gd_malformed (refuse reason d) = gd_malformed d"
  by (simp_all add: refuse_def)

lemma gd_start_sel [simp]:
  "gd_in (gd_start ci) = ci" "gd_targets (gd_start ci) = []" "gd_unnamed (gd_start ci) = []"
  "gd_malformed (gd_start ci) = []" "gd_parse_error (gd_start ci) = []"
  by (simp_all add: gd_start_def)

lemma gd_classify_sel [simp]:
  "gd_in (gd_classify d po spec a) = gd_in d" "gd_targets (gd_classify d po spec a) = gd_targets d"
  "gd_res (gd_classify d po spec a) = gate_result (gd_in d) po spec a"
  "gd_unnamed (gd_classify d po spec a) = gd_unnamed d"
  "gd_malformed (gd_classify d po spec a) = gd_malformed d"
  "gd_parse_error (gd_classify d po spec a) = gd_parse_error d"
  by (simp_all add: gd_classify_def Let_def)

lemma decide_rules_sel [simp]:
  "gd_in (decide_rules g d) = gd_in d" "gd_class (decide_rules g d) = gd_class d"
  "gd_source (decide_rules g d) = gd_source d" "gd_targets (decide_rules g d) = gd_targets d"
  "gd_res (decide_rules g d) = gd_res d"
  "gd_resolved (decide_rules g d) = map (gate_resolve g) (gd_targets d)"
  "gd_dec (decide_rules g d) = Evaluate (g_policy g) (gate_request g (gd_in d) (gd_class d) (gd_targets d))"
  by (simp_all add: decide_rules_def Let_def gate_request_def)

text \<open>A decision that is not a deny went through every step.\<close>

lemma decide_args_not_deny:
  assumes "dc_effect (gd_dec (decide_args g po spec a d0)) \<noteq> Deny"
  shows "(po \<noteq> None \<and> spec = None \<longrightarrow> a = [])
    \<and> r_unnamed (gate_result (gd_in d0) po spec a) = [] \<and> r_malformed (gate_result (gd_in d0) po spec a) = []
    \<and> (case spec of
         None \<Rightarrow> decide_args g po spec a d0 = decide_rules g (gd_classify d0 po spec a)
       | Some s \<Rightarrow> \<exists>names. call_targets s a = Inr names
           \<and> decide_args g po spec a d0 = decide_rules g ((gd_classify d0 po spec a)\<lparr>gd_targets := names\<rparr>))"
proof (cases spec)
  case None
  then show ?thesis using assms
    by (cases po) (auto simp: decide_args_def Let_def argumentFindings_def split: if_splits)
next
  case (Some s)
  then show ?thesis using assms
    by (auto simp: decide_args_def Let_def argumentFindings_def split: if_splits sum.splits)
qed

lemma gate_decide_not_deny:
  assumes "dc_effect (gd_dec (gate_decide num g ci)) \<noteq> Deny"
  obtains a where "parseArguments num (ci_arguments ci) = Inr a"
    "\<forall>s. lookup_tool g ci = Some s \<longrightarrow> overCaps s a = None"
    "gate_decide num g ci = decide_args g (lookup_profile g ci) (lookup_tool g ci) a (gd_start ci)"
  using assms
  by (auto simp: gate_decide_def Let_def split: sum.splits option.splits prod.splits)

lemma verdict_forward_iff:
  "vd_forward (gate_verdict d) \<longleftrightarrow> dc_effect (gd_dec d) = Allow \<and> (\<forall>ob \<in> set (dc_obligations (gd_dec d)). forwardable ob)"
  by (simp add: gate_verdict_def Let_def)

lemma verdict_sel [simp]:
  "vd_rule_id (gate_verdict d) = dc_rule_id (gd_dec d)" "vd_class (gate_verdict d) = gd_class d"
  "vd_class_source (gate_verdict d) = gd_source d" "vd_targets (gate_verdict d) = gd_targets d"
  by (simp_all add: gate_verdict_def Let_def)

lemma call_targets_names:
  "call_targets s a = Inr names \<Longrightarrow> \<exists>groups. targets s a = Some (names, groups)
     \<and> (ts_class s \<noteq> InventoryRead \<and> ts_class s \<noteq> LocalAdmin \<longrightarrow> \<not> groups \<and> (declaresTargets s \<longrightarrow> names \<noteq> []))"
  by (auto simp: call_targets_def Let_def split: option.splits if_splits)

lemma overCaps_None: "overCaps s a = None \<Longrightarrow> target_count s a \<le> 256"
  by (simp add: overCaps_def maxTargetsPerCall_def split: if_splits)

section \<open>Properties\<close>

text \<open>What a forwarded call went through, with the arguments \<open>a\<close> it parsed to and the targets \<open>ts\<close>.\<close>

definition checked_call :: "gate \<Rightarrow> call_info \<Rightarrow> args \<Rightarrow> string list \<Rightarrow> bool" where
  "checked_call g ci a ts \<longleftrightarrow>
     distinct ts \<and> length ts \<le> 256 \<and> (\<forall>n \<in> set ts. validTargetName n)
     \<and> (\<forall>p. lookup_profile g ci = Some p \<longrightarrow>
          (case lookup_tool g ci of
             None \<Rightarrow> a = [] \<and> ts = []
           | Some s \<Rightarrow> ArgumentsOK (Classify (Some p) (ci_tool ci) a) \<and> overCaps s a = None
               \<and> (ts_class s \<noteq> InventoryRead \<and> ts_class s \<noteq> LocalAdmin \<and> declaresTargets s \<longrightarrow> ts \<noteq> [])))"

lemma ArgumentsOK_result:
  "r_unnamed (gate_result ci (Some p) (Some s) a) = [] \<Longrightarrow> r_malformed (gate_result ci (Some p) (Some s) a) = [] \<Longrightarrow>
     ArgumentsOK (Classify (Some p) (ci_tool ci) a)"
  by (simp add: gate_result_def ArgumentsOK_def)

lemma gate_decide_checked:
  assumes "dc_effect (gd_dec (gate_decide num g ci)) \<noteq> Deny"
  defines "d \<equiv> gate_decide num g ci"
  shows "\<exists>a. parseArguments num (ci_arguments ci) = Inr a \<and> checked_call g ci a (gd_targets d)
    \<and> gd_dec d = Evaluate (g_policy g) (gate_request g ci (gd_class d) (gd_targets d))
    \<and> gd_class d = gd_class (gd_classify (gd_start ci) (lookup_profile g ci) (lookup_tool g ci) a)"
proof -
  obtain a where a: "parseArguments num (ci_arguments ci) = Inr a"
      and caps: "\<forall>s. lookup_tool g ci = Some s \<longrightarrow> overCaps s a = None"
      and eq: "gate_decide num g ci = decide_args g (lookup_profile g ci) (lookup_tool g ci) a (gd_start ci)"
    by (rule gate_decide_not_deny [OF assms(1)])
  have nd: "dc_effect (gd_dec (decide_args g (lookup_profile g ci) (lookup_tool g ci) a (gd_start ci))) \<noteq> Deny"
    using assms(1) eq by simp
  note facts = decide_args_not_deny [OF nd]
  show ?thesis
  proof (cases "lookup_tool g ci")
    case None
    then show ?thesis using facts a eq by (auto simp: d_def checked_call_def)
  next
    case (Some s)
    then obtain names where n: "call_targets s a = Inr names"
        and e: "d = decide_rules g ((gd_classify (gd_start ci) (lookup_profile g ci) (Some s) a)\<lparr>gd_targets := names\<rparr>)"
      using facts eq by (auto simp: d_def)
    have po: "\<exists>p. lookup_profile g ci = Some p" using Some by (auto simp: lookup_tool_def split: option.splits)
    obtain groups where "targets s a = Some (names, groups)" using call_targets_names [OF n] by blast
    from targets_count [OF this] have "length names \<le> 256"
      using overCaps_None [of s a] caps Some by simp
    then have "checked_call g ci a names"
      using call_targets_names [OF n] targets_Some facts Some caps po ArgumentsOK_result [of ci _ s a]
      by (fastforce simp: checked_call_def)
    then show ?thesis using a e Some by (intro exI [of _ a]) simp
  qed
qed

text \<open>Property C1 (safety). A call is forwarded only when its arguments parsed to one object with distinct keys,
  passed the caps and the closed argument list of the tool's profile (a tool the profile does not
  list may carry none), every target is a valid name, a tool that takes targets has one, and the
  policy's first rule that selects the resulting request allows it, with obligations the gate can
  carry; and every target is in the inventory under exactly its name unless the policy allows
  unknown targets.\<close>

theorem Decide_forward_sound:
  assumes "vd_forward (Decide num g ci)"
  defines "v \<equiv> Decide num g ci"
  shows "\<exists>a p pre rl post. parseArguments num (ci_arguments ci) = Inr a \<and> wf_map a \<and> checked_call g ci a (vd_targets v)
    \<and> g_policy g = Some p \<and> po_rules p = pre @ rl # post
    \<and> selects rl (gate_request g ci (vd_class v) (vd_targets v))
    \<and> (\<forall>q \<in> set pre. \<not> selects q (gate_request g ci (vd_class v) (vd_targets v)))
    \<and> rl_effect rl = Allow \<and> list_all forwardable (rl_obligations rl) \<and> vd_rule_id v = rl_id rl
    \<and> (df_unknown_target (po_defaults p) \<noteq> Allow \<longrightarrow>
        (\<forall>n \<in> set (vd_targets v). \<exists>r t. g_inventory g = Some r \<and> r n = Some t \<and> iv_name t = n))"
proof -
  let ?d = "gate_decide num g ci"
  have al: "dc_effect (gd_dec ?d) = Allow" and ob: "\<forall>x \<in> set (dc_obligations (gd_dec ?d)). forwardable x"
    using assms(1) by (auto simp: Decide_def verdict_forward_iff)
  have "dc_effect (gd_dec ?d) \<noteq> Deny" using al by simp
  from gate_decide_checked [OF this] obtain a where a: "parseArguments num (ci_arguments ci) = Inr a"
      and chk: "checked_call g ci a (gd_targets ?d)"
      and ev: "gd_dec ?d = Evaluate (g_policy g) (gate_request g ci (gd_class ?d) (gd_targets ?d))" by blast
  define req where "req = gate_request g ci (gd_class ?d) (gd_targets ?d)"
  have "dc_effect (Evaluate (g_policy g) req) = Allow" using al ev by (simp add: req_def)
  then obtain p rl where p: "g_policy g = Some p" and u: "\<not> refuses_unknown p req"
      and rl: "find_first (\<lambda>rl. selects rl req) (po_rules p) = Some rl" "rl_effect rl = Allow"
      and e: "dc_rule_id (Evaluate (g_policy g) req) = rl_id rl" "dc_obligations (Evaluate (g_policy g) req) = rl_obligations rl"
    by (rule Evaluate_allow)
  obtain pre post where "po_rules p = pre @ rl # post" "selects rl req" "\<forall>q \<in> set pre. \<not> selects q req"
    using rl by (auto simp: find_first_Some)
  moreover have "list_all forwardable (rl_obligations rl)" using ob e ev by (auto simp: req_def list_all_iff)
  moreover have "\<exists>r t. g_inventory g = Some r \<and> r n = Some t \<and> iv_name t = n"
    if "df_unknown_target (po_defaults p) \<noteq> Allow" "n \<in> set (gd_targets ?d)" for n
  proof -
    have "tg_known (gate_resolve g n)" using u that by (auto simp: refuses_unknown_def req_def gate_request_def)
    then show ?thesis by (auto simp: gate_resolve_def Known_def split: option.splits if_splits)
  qed
  moreover have "wf_map a" using a by (rule parseArguments_wf)
  ultimately show ?thesis using a chk p rl(2) e ev by (auto simp: v_def Decide_def req_def)
qed

section \<open>Witnesses\<close>

definition demo_read_spec :: toolspec where
  "demo_read_spec = empty_spec\<lparr>ts_class := ReadOperational, ts_target_params := [''host'']\<rparr>"

definition demo_gate_profile :: profile where
  "demo_gate_profile = \<lparr>pr_server = ''ssh'', pr_source = [], pr_description = [], pr_capabilities = [],
     pr_tools = [(''get_facts'', demo_read_spec)]\<rparr>"

definition demo_resolver :: resolver where
  "demo_resolver n = (if n = ''leaf1'' then Some (zero_target\<lparr>iv_name := ''leaf1'', iv_role := ''lab''\<rparr>) else None)"

definition demo_gate :: gate where
  "demo_gate = \<lparr>g_policy = Some demo_policy, g_profiles = [(''ssh'', demo_gate_profile)],
     g_inventory = Some demo_resolver\<rparr>"

definition demo_call :: call_info where
  "demo_call = \<lparr>ci_server = ''ssh'', ci_tool = ''get_facts'',
     ci_arguments = [CHR ''{'', CHR 0x22, CHR ''h'', CHR ''o'', CHR ''s'', CHR ''t'', CHR 0x22, CHR '':'',
       CHR 0x22, CHR ''l'', CHR ''e'', CHR ''a'', CHR ''f'', CHR ''1'', CHR 0x22, CHR ''}''],
     ci_read_only_hint = None, ci_destructive_hint = None, ci_agent_protocol = [], ci_agent_era = [],
     ci_upstream_protocol = [], ci_upstream_era = [], ci_transport = ''stdio'', ci_principal = [],
     ci_session_id = [], ci_devices_touched = 3, ci_pending_holds = 0,
     ci_counted = Some (\<lambda>n. n \<in> {''leaf1'', ''leaf2'', ''leaf3''})\<rparr>"

lemma demo_text:
  "trim_space (ci_arguments demo_call) = ci_arguments demo_call"
  "skip_space (ci_arguments demo_call) = CHR ''{'' # tl (ci_arguments demo_call)"
  "skip_space (tl (ci_arguments demo_call)) = CHR 0x22 # tl (tl (ci_arguments demo_call))"
  "skip_space ''}'' = ''}''" "skip_space [] = []" "ci_arguments demo_call \<noteq> []" "ci_arguments demo_call \<noteq> ''null''"
  by code_simp+

lemma utf8_valid_ascii: "is_ascii s \<Longrightarrow> utf8_valid s"
  by (auto simp: utf8_valid_def runes_ascii list_all_iff is_ascii_def rune_error_def)

lemma demo_utf8: "utf8_valid (ci_arguments demo_call)"
  by (rule utf8_valid_ascii) code_simp

lemma demo_field:
  "parse_field (\<lambda>n. Some n) [] (CHR 0x22 # tl (tl (ci_arguments demo_call))) = Inr (''host'', JStr ''leaf1'', ''}'')"
  by code_simp

lemma demo_parse: "parseArguments (\<lambda>n. Some n) (ci_arguments demo_call) = Inr [(''host'', JStr ''leaf1'')]"
  using demo_field
  by (simp add: parseArguments_def demo_text demo_utf8 key_start_def Let_def
      parse_fields.simps [of _ True] parse_fields.simps [of _ False "[(''host'', JStr ''leaf1'')]" "''}''"])

lemma demo_call_sel [simp]:
  "ci_server demo_call = ''ssh''" "ci_tool demo_call = ''get_facts''" "\<not> raises demo_call"
  "g_policy demo_gate = Some demo_policy"
  by (simp_all add: demo_call_def raises_def demo_gate_def)

lemma demo_lookup [simp]:
  "lookup_profile demo_gate demo_call = Some demo_gate_profile"
  "lookup_tool demo_gate demo_call = Some demo_read_spec"
  by (simp_all add: lookup_tool_def lookup_profile_def demo_gate_def demo_call_def demo_gate_profile_def)

lemma demo_caps: "overCaps demo_read_spec [(''host'', JStr ''leaf1'')] = None"
  by code_simp

lemma demo_targets: "call_targets demo_read_spec [(''host'', JStr ''leaf1'')] = Inr [''leaf1'']"
  by code_simp

lemma demo_result:
  "r_class (Classify (Some demo_gate_profile) ''get_facts'' [(''host'', JStr ''leaf1'')]) = ReadOperational"
  "r_source (Classify (Some demo_gate_profile) ''get_facts'' [(''host'', JStr ''leaf1'')]) = SourceProfile"
  "r_unnamed (Classify (Some demo_gate_profile) ''get_facts'' [(''host'', JStr ''leaf1'')]) = []"
  "r_malformed (Classify (Some demo_gate_profile) ''get_facts'' [(''host'', JStr ''leaf1'')]) = []"
  by code_simp+

definition demo_gate_request :: request where
  "demo_gate_request = \<lparr>rq_server = ''ssh'', rq_tool = ''get_facts'', rq_class = ReadOperational,
     rq_targets = [\<lparr>tg_name = ''leaf1'', tg_role = ''lab'', tg_tags = [], tg_site = [], tg_known = True\<rparr>],
     rq_session = \<lparr>se_devices_touched = 2, se_pending_holds = 0\<rparr>\<rparr>"

lemma demo_evaluate:
  "dc_effect (Evaluate (Some demo_policy) demo_gate_request) = Allow"
  "dc_obligations (Evaluate (Some demo_policy) demo_gate_request) = [''redact'']"
  by code_simp+

lemma demo_request_eq: "gate_request demo_gate demo_call ReadOperational [''leaf1''] = demo_gate_request"
  by (simp add: gate_request_def demo_gate_request_def demo_gate_def demo_call_def gate_resolve_def Known_def
      demo_resolver_def devicesTouched_def zero_target_def)

lemma demo_decide:
  "gate_decide (\<lambda>n. Some n) demo_gate demo_call =
     decide_rules demo_gate ((gd_classify (gd_start demo_call) (Some demo_gate_profile) (Some demo_read_spec)
       [(''host'', JStr ''leaf1'')])\<lparr>gd_targets := [''leaf1'']\<rparr>)"
  using demo_result
  by (simp add: gate_decide_def demo_parse demo_caps decide_args_def demo_targets argumentFindings_def
      gate_result_def Let_def)

lemma demo_class:
  "gd_class (gd_classify (gd_start demo_call) (Some demo_gate_profile) (Some demo_read_spec)
       [(''host'', JStr ''leaf1'')]) = ReadOperational"
  using demo_result
  by (simp add: gd_classify_def gate_result_def Let_def)

lemma demo_forward:
  "vd_forward (Decide (\<lambda>n. Some n) demo_gate demo_call)" "vd_targets (Decide (\<lambda>n. Some n) demo_gate demo_call) = [''leaf1'']"
  using demo_evaluate
  by (simp_all add: Decide_def verdict_forward_iff demo_decide demo_class demo_request_eq forwardable_def)

theorem Decide_forward_sound_witness:
  "vd_forward (Decide (\<lambda>n. Some n) demo_gate demo_call)
   \<and> (\<exists>t. demo_resolver ''leaf1'' = Some t \<and> iv_name t = ''leaf1'')
   \<and> (\<exists>a. parseArguments (\<lambda>n. Some n) (ci_arguments demo_call) = Inr a \<and> checked_call demo_gate demo_call a [''leaf1''])"
  using Decide_forward_sound [OF demo_forward(1)] demo_forward
  by (auto simp: demo_gate_def demo_policy_def Allow_def Deny_def)

section \<open>Fail closed\<close>

lemma errorText_not_Nil: "errorText sv tool dec c unmet unk \<noteq> []"
  by (simp add: errorText_def)

text \<open>Property C18 (type). A verdict has one of the three effects; it forwards only an allow; a call it does
  not forward carries an error text and a call it forwards carries none; the log line has the
  verdict's effect, rule, class and forwarding; and \<open>Explain\<close> carries the verdict \<open>Decide\<close> returns.\<close>

theorem Decide_fail_closed:
  "(let v = Decide num g ci in
      vd_effect v \<in> {Allow, Hold, Deny} \<and> (vd_forward v \<longleftrightarrow> vd_error v = []) \<and> vd_forward v \<le> (vd_effect v = Allow)
      \<and> map_of (vd_record v) ''forwarded'' = Some (ABool (vd_forward v))
      \<and> map_of (vd_record v) ''decision'' = Some (AStr (vd_effect v))
      \<and> map_of (vd_record v) ''rule_id'' = Some (AStr (vd_rule_id v))
      \<and> map_of (vd_record v) ''class'' = Some (AStr (vd_class v))
      \<and> ex_verdict (Explain num g ci) = v)"
  by (simp add: Decide_def Explain_def gate_verdict_def Let_def gate_record_def errorText_not_Nil)

section \<open>Annotations\<close>

text \<open>The arguments the class is computed from: none when they do not parse or exceed the caps.\<close>

definition class_args :: "(string \<Rightarrow> string option) \<Rightarrow> toolspec option \<Rightarrow> string \<Rightarrow> args" where
  "class_args num spec raw =
     (case parseArguments num raw of
        Inl e \<Rightarrow> []
      | Inr a \<Rightarrow> (case spec of None \<Rightarrow> a | Some s \<Rightarrow> (case overCaps s a of None \<Rightarrow> a | Some _ \<Rightarrow> [])))"

lemma gate_decide_class:
  "gd_class (gate_decide num g ci) = gd_class (gd_classify (gd_start ci) (lookup_profile g ci) (lookup_tool g ci)
      (class_args num (lookup_tool g ci) (ci_arguments ci)))"
  by (simp add: gate_decide_def decide_args_def class_args_def Let_def split: sum.split option.split prod.split)

lemma lookup_hints [simp]:
  "lookup_profile g (ci\<lparr>ci_read_only_hint := x, ci_destructive_hint := y\<rparr>) = lookup_profile g ci"
  "lookup_tool g (ci\<lparr>ci_read_only_hint := x, ci_destructive_hint := y\<rparr>) = lookup_tool g ci"
  by (simp_all add: lookup_tool_def lookup_profile_def split: option.split)

lemma gate_result_tool: "ci_tool ci = ci_tool cj \<Longrightarrow> gate_result ci po spec a = gate_result cj po spec a"
  by (simp add: gate_result_def split: option.split)

lemma gd_class_raise:
  "gd_class (gd_classify (gd_start ci) po spec a) \<in> {r_class (gate_result ci po spec a), ExecArbitrary}"
  "\<not> raises ci \<Longrightarrow> gd_class (gd_classify (gd_start ci) po spec a) = r_class (gate_result ci po spec a)"
  by (simp_all add: gd_classify_def Let_def)

lemma gd_class_raised:
  "isReadClass (ts_class s) \<Longrightarrow> raises ci \<Longrightarrow> r_source (gate_result ci po (Some s) a) \<noteq> SourceCapabilityTable \<Longrightarrow>
     gd_class (gd_classify (gd_start ci) po (Some s) a) = ExecArbitrary"
  by (simp add: gd_classify_def Let_def)

lemma Classify_source_plain:
  "map_of (pr_tools p) tool = Some s \<Longrightarrow> ts_capability_param s = [] \<Longrightarrow>
     r_source (Classify (Some p) tool a) \<noteq> SourceCapabilityTable"
  by (auto simp: Classify_def Lookup_def classify_known_def classify_base_def classify_commands_rule_def Let_def class_defs
      split: prod.splits option.splits if_splits)

text \<open>Property C17 (safety). The annotations of the upstream only make a call stricter: the class of a call is
  the class without annotations or \<open>EXEC_ARBITRARY\<close>, and a tool whose profile class is a read
  class is \<open>EXEC_ARBITRARY\<close> whenever the upstream says it is not read-only or destructive.\<close>

theorem annotation_raise:
  "vd_class (Decide num g ci)
     \<in> {vd_class (Decide num g (ci\<lparr>ci_read_only_hint := None, ci_destructive_hint := None\<rparr>)), ExecArbitrary}
   \<and> (\<forall>s. lookup_tool g ci = Some s \<and> ts_capability_param s = [] \<and> isReadClass (ts_class s) \<and> raises ci
        \<longrightarrow> vd_class (Decide num g ci) = ExecArbitrary)"
proof (intro conjI allI impI)
  let ?cj = "ci\<lparr>ci_read_only_hint := None, ci_destructive_hint := None\<rparr>"
  have "\<not> raises ?cj" by (simp add: raises_def)
  then show "vd_class (Decide num g ci) \<in> {vd_class (Decide num g ?cj), ExecArbitrary}"
    using gd_class_raise(1) [of ci] gate_result_tool [of ci ?cj]
    by (simp add: Decide_def gate_decide_class gd_class_raise(2))
next
  fix s assume s: "lookup_tool g ci = Some s \<and> ts_capability_param s = [] \<and> isReadClass (ts_class s) \<and> raises ci"
  then obtain p where p: "lookup_profile g ci = Some p" "map_of (pr_tools p) (ci_tool ci) = Some s"
    by (auto simp: lookup_tool_def split: option.splits)
  then show "vd_class (Decide num g ci) = ExecArbitrary" using s Classify_source_plain [OF p(2)]
    by (simp add: Decide_def gate_decide_class gd_class_raised gate_result_def)
qed

theorem annotation_raise_witness:
  "vd_class (Decide (\<lambda>n. Some n) demo_gate (demo_call\<lparr>ci_destructive_hint := Some True\<rparr>)) = ExecArbitrary
   \<and> vd_class (Decide (\<lambda>n. Some n) demo_gate demo_call) = ReadOperational"
proof
  have "lookup_tool demo_gate (demo_call\<lparr>ci_destructive_hint := Some True\<rparr>) = Some demo_read_spec"
    by (simp add: lookup_tool_def lookup_profile_def demo_gate_def demo_gate_profile_def)
  then show "vd_class (Decide (\<lambda>n. Some n) demo_gate (demo_call\<lparr>ci_destructive_hint := Some True\<rparr>)) = ExecArbitrary"
    using annotation_raise [THEN conjunct2, rule_format, of demo_gate "demo_call\<lparr>ci_destructive_hint := Some True\<rparr>" demo_read_spec]
    by (simp add: raises_def demo_read_spec_def empty_spec_def isReadClass_def)
  show "vd_class (Decide (\<lambda>n. Some n) demo_gate demo_call) = ReadOperational"
    by (simp add: Decide_def demo_decide demo_class)
qed

section \<open>The closed list\<close>

lemma gate_arguments_closed:
  "gate_arguments g (ci_server ci) (ci_tool ci) = (named, True) \<Longrightarrow>
     \<exists>p. lookup_profile g ci = Some p
       \<and> set named = (case lookup_tool g ci of None \<Rightarrow> {} | Some s \<Rightarrow> set (NamedArgs s))"
  by (auto simp: gate_arguments_def lookup_profile_def lookup_tool_def split: option.splits)

lemma unnamed_refused:
  assumes "lookup_profile g ci = Some p" "k \<in> set (go_keys a)"
    "\<forall>s. lookup_tool g ci = Some s \<longrightarrow> k \<notin> set (NamedArgs s)"
  defines "d \<equiv> decide_args g (Some p) (lookup_tool g ci) a (gd_start ci)"
  shows "dc_effect (gd_dec d) = Deny \<and> dc_rule_id (gd_dec d) = RuleBadArguments \<and> gd_targets d = []"
proof (cases "lookup_tool g ci")
  case None
  then show ?thesis using assms(2) by (auto simp: d_def decide_args_def Let_def)
next
  case (Some s)
  then have "map_of (pr_tools p) (ci_tool ci) = Some s" using assms(1) by (simp add: lookup_tool_def)
  then have "r_unnamed (Classify (Some p) (ci_tool ci) a) \<noteq> []"
    using assms(2,3) Some
    by (auto simp: Classify_arguments CheckArguments_def Lookup_def Named_iff filter_empty_conv)
  then show ?thesis using Some by (simp add: d_def decide_args_def Let_def argumentFindings_def gate_result_def)
qed

text \<open>Property C16 (safety). The argument names \<open>Arguments\<close> reports agree with what \<open>Decide\<close> accepts: when the list
  is closed, a call that carries an argument outside it is denied with
  \<open>default:bad_arguments\<close> and not forwarded, whatever the policy says.\<close>

theorem closed_list_enforced:
  assumes "gate_arguments g (ci_server ci) (ci_tool ci) = (named, True)"
    and "parseArguments num (ci_arguments ci) = Inr a"
    and "k \<in> set (go_keys a)" "k \<notin> set named"
  shows "\<not> vd_forward (Decide num g ci) \<and> vd_effect (Decide num g ci) = Deny
    \<and> vd_rule_id (Decide num g ci) = RuleBadArguments \<and> vd_targets (Decide num g ci) = []"
proof -
  obtain p where p: "lookup_profile g ci = Some p"
      and n: "set named = (case lookup_tool g ci of None \<Rightarrow> {} | Some s \<Rightarrow> set (NamedArgs s))"
    using gate_arguments_closed [OF assms(1)] by blast
  then have "\<forall>s. lookup_tool g ci = Some s \<longrightarrow> k \<notin> set (NamedArgs s)" using assms(4) by auto
  note r = unnamed_refused [OF p assms(3) this]
  have "dc_effect (gd_dec (gate_decide num g ci)) = Deny \<and> dc_rule_id (gd_dec (gate_decide num g ci)) = RuleBadArguments
      \<and> gd_targets (gate_decide num g ci) = []"
    using r p assms(2) by (auto simp: gate_decide_def Let_def split: option.split prod.split)
  then show ?thesis by (auto simp: Decide_def gate_verdict_def Let_def Allow_def Deny_def)
qed


theorem closed_list_enforced_witness:
  "gate_arguments demo_gate ''ssh'' ''reboot'' = ([], True)
   \<and> vd_rule_id (Decide (\<lambda>n. Some n) demo_gate (demo_call\<lparr>ci_tool := ''reboot''\<rparr>)) = RuleBadArguments"
proof
  show g: "gate_arguments demo_gate ''ssh'' ''reboot'' = ([], True)"
    by (simp add: gate_arguments_def demo_gate_def demo_gate_profile_def)
  show "vd_rule_id (Decide (\<lambda>n. Some n) demo_gate (demo_call\<lparr>ci_tool := ''reboot''\<rparr>)) = RuleBadArguments"
    using closed_list_enforced [of demo_gate "demo_call\<lparr>ci_tool := ''reboot''\<rparr>" "[]" "\<lambda>n. Some n"
        "[(''host'', JStr ''leaf1'')]" "''host''"] g demo_parse by simp
qed

section \<open>The device count\<close>

lemma devicesTouched_union:
  assumes "finite T" "ci_devices_touched ci = int (card T)" "ci_counted ci = Some (\<lambda>n. n \<in> T)" "distinct ts"
  shows "devicesTouched ci ts + int (length ts) = int (card (T \<union> set ts))"
proof -
  have "set (filter (\<lambda>n. n \<in> T) ts) = set ts \<inter> T" by auto
  then have f: "length (filter (\<lambda>n. n \<in> T) ts) = card (set ts \<inter> T)"
    using distinct_card [of "filter (\<lambda>n. n \<in> T) ts"] assms(4) by simp
  have "card (set ts \<inter> T) \<le> card T" using assms(1) by (simp add: card_mono)
  then have "devicesTouched ci ts = int (card T) - int (card (set ts \<inter> T))"
    using assms(2,3) f by (simp add: devicesTouched_def)
  moreover have "card T + card (set ts) = card (T \<union> set ts) + card (set ts \<inter> T)"
    using card_Un_Int [OF assms(1), of "set ts"] by (simp add: Int_commute)
  ultimately show ?thesis using distinct_card [OF assms(4)] by linarith
qed

lemma Decide_forward_devices:
  assumes "vd_forward (Decide num g ci)"
  shows "distinct (vd_targets (Decide num g ci))" "length (vd_targets (Decide num g ci)) \<le> 256"
    "g_policy g = Some p \<Longrightarrow>
      \<not> devices_full p (gate_request g ci (vd_class (Decide num g ci)) (vd_targets (Decide num g ci)))"
    "g_policy g \<noteq> None"
proof -
  let ?d = "gate_decide num g ci"
  have al: "dc_effect (gd_dec ?d) = Allow" using assms(1) by (simp add: Decide_def verdict_forward_iff)
  then have "dc_effect (gd_dec ?d) \<noteq> Deny" by simp
  from gate_decide_checked [OF this] obtain a where chk: "checked_call g ci a (gd_targets ?d)"
      and ev: "gd_dec ?d = Evaluate (g_policy g) (gate_request g ci (gd_class ?d) (gd_targets ?d))" by blast
  show "distinct (vd_targets (Decide num g ci))" "length (vd_targets (Decide num g ci)) \<le> 256"
    using chk by (simp_all add: checked_call_def Decide_def)
  show "g_policy g = Some p \<Longrightarrow>
      \<not> devices_full p (gate_request g ci (vd_class (Decide num g ci)) (vd_targets (Decide num g ci)))"
    using al ev by (auto simp: Decide_def elim: Evaluate_allow)
  show "g_policy g \<noteq> None" using al ev by (auto elim: Evaluate_allow)
qed

text \<open>Property C12 (bounds). With the counters the proxy hands over (the number of devices the key has touched,
  and which they are), a forwarded call leaves the key with at most \<open>max_devices\<close> distinct
  devices: a device the key has already touched is not counted twice. The Go counter is a 64-bit
  int, so the count stays below \<open>2 ^ 63\<close>.\<close>

theorem forwarded_devices_bounded:
  assumes "vd_forward (Decide num g ci)" "g_policy g = Some p" "0 < sl_max_devices (df_session (po_defaults p))"
    and "finite T" "ci_devices_touched ci = int (card T)" "ci_counted ci = Some (\<lambda>n. n \<in> T)"
    and "int (card (T \<union> set (vd_targets (Decide num g ci)))) < 2 ^ 63"
  shows "int (card (T \<union> set (vd_targets (Decide num g ci)))) \<le> sl_max_devices (df_session (po_defaults p))"
proof -
  note f = Decide_forward_devices [OF assms(1)]
  note u = devicesTouched_union [OF assms(4-6) f(1)]
  show ?thesis using f(3) [OF assms(2)] u assms(3,7) by (simp add: devices_full_def devices_total_def gate_request_def)
qed

theorem forwarded_devices_bounded_witness:
  "int (card ({''leaf1'', ''leaf2'', ''leaf3''} \<union> set (vd_targets (Decide (\<lambda>n. Some n) demo_gate demo_call))))
     \<le> sl_max_devices (df_session (po_defaults demo_policy))"
proof (rule forwarded_devices_bounded [OF demo_forward(1)])
  show "ci_devices_touched demo_call = int (card {''leaf1'', ''leaf2'', ''leaf3''})"
    "ci_counted demo_call = Some (\<lambda>n. n \<in> {''leaf1'', ''leaf2'', ''leaf3''})"
    by (simp_all add: demo_call_def)
qed (simp_all add: demo_forward(2) demo_policy_def)

end
