(* ===== verification/Proxy_Name.thy ===== *)
theory Proxy_Name
  imports Go_Utf8 Json
begin

text \<open>
  \<^verbatim>\<open>internal/proxy/name.go\<close> and \<^verbatim>\<open>internal/proxy/era.go\<close>: the prefixed tool names of the agent side, and
  the two eras of the protocol with the record of how each upstream session was opened. An error
  value stands for the error the code returns; its text is quoted only where the proxy shows it.
\<close>

section \<open>Names\<close>

definition separator :: string where "separator = ''.''"
definition maxToolName :: nat where "maxToolName = 128"
definition Name :: string where "Name = ''fathomgate''"

definition isNameRune :: "nat \<Rightarrow> bool" where
  "isNameRune r \<longleftrightarrow> (97 \<le> r \<and> r \<le> 122) \<or> (65 \<le> r \<and> r \<le> 90) \<or> (48 \<le> r \<and> r \<le> 57) \<or> r = 95 \<or> r = 45 \<or> r = 46"

definition fold_name_rune :: "nat \<Rightarrow> string" where
  "fold_name_rune r =
     (if r = 45 \<or> r = 95 then [] else if 65 \<le> r \<and> r \<le> 90 then encode_rune (r + 97 - 65) else encode_rune r)"

definition reservedServerName :: "string \<Rightarrow> bool" where
  "reservedServerName s \<longleftrightarrow> trim_right is_decimal (concat (map (\<lambda>(r, w). fold_name_rune r) (runes s))) = Name"

datatype name_error = EmptyServer | BadServerRune string | ReservedServer string
  | EmptyTool | BadToolRune string nat | LongTool string nat

definition ValidateServerName :: "string \<Rightarrow> name_error option" where
  "ValidateServerName s =
     (if s = [] then Some EmptyServer
      else if list_ex (\<lambda>(r, w). \<not> isNameRune r \<or> r = 46) (runes s) then Some (BadServerRune s)
      else if reservedServerName s then Some (ReservedServer s)
      else None)"

definition validUpstreamToolName :: "string \<Rightarrow> string \<Rightarrow> name_error option" where
  "validUpstreamToolName server tool =
     (if tool = [] then Some EmptyTool
      else case find_first (\<lambda>(r, w). \<not> isNameRune r) (runes tool) of
        Some (r, w) \<Rightarrow> Some (BadToolRune tool r)
      | None \<Rightarrow>
          (let n = length server + length separator + length tool in
           if maxToolName < n then Some (LongTool tool n) else None))"

definition prefixName :: "string \<Rightarrow> string \<Rightarrow> string" where
  "prefixName server tool = server @ separator @ tool"

definition splitName :: "string \<Rightarrow> (string \<times> string) option" where
  "splitName name =
     (case cut_byte (CHR ''.'') name of (server, tool, ok) \<Rightarrow>
        if \<not> ok \<or> server = [] \<or> tool = [] then None else Some (server, tool))"

section \<open>Eras\<close>

definition statelessVersion :: string where "statelessVersion = ''2026-07-28''"
definition eraStateful :: string where "eraStateful = ''stateful''"
definition eraStateless :: string where "eraStateless = ''stateless''"
definition methodInitialize :: string where "methodInitialize = ''initialize''"

definition eraOf :: "string \<Rightarrow> string" where
  "eraOf version = (if statelessVersion \<le> version then eraStateless else eraStateful)"

definition upstreamEra :: "string \<Rightarrow> bool \<Rightarrow> string" where
  "upstreamEra version handshake = (if handshake then eraStateful else eraOf version)"

text \<open>One request through the sending middleware: the session, whether the next handler returned an
  error, the method, and the versions the initialise request and its answer name (\<open>None\<close> when they
  are not initialise values).\<close>

record 's sent =
  sn_session :: 's
  sn_failed :: bool
  sn_method :: string
  sn_requested :: "string option"
  sn_answered :: "string option"

datatype middleware_result = PassedOn | HybridError string string

fun version_text :: "string option \<Rightarrow> string" where
  "version_text None = []"
| "version_text (Some v) = v"

definition middleware :: "'s set \<Rightarrow> 's sent \<Rightarrow> middleware_result \<times> 's set" where
  "middleware marks m =
     (if sn_failed m \<or> sn_method m \<noteq> methodInitialize then (PassedOn, marks)
      else
        (let requested = version_text (sn_requested m); answered = version_text (sn_answered m) in
         if requested < answered \<or> eraOf answered = eraStateless then (HybridError requested answered, marks)
         else (PassedOn, insert (sn_session m) marks)))"

definition hybrid_kind :: "string \<Rightarrow> string \<Rightarrow> string" where
  "hybrid_kind requested answered = (if answered \<le> requested then ''stateless'' else ''later'')"

definition take_handshake :: "'s set \<Rightarrow> 's \<Rightarrow> bool \<times> 's set" where
  "take_handshake marks cs = (cs \<in> marks, {})"

text \<open>What the proxy knows of the agent behind one call. The request carries the version of the
  session's handshake when there is one, the version of the request itself, and the two modes of
  the elicitation capability.\<close>

record agent_request =
  aq_session :: "nat option"
  aq_init_version :: "string option"
  aq_version :: string
  aq_elicitation :: "(bool \<times> bool) option"

record agent_peer =
  ag_session :: "nat option"
  ag_version :: string
  ag_can_elicit :: bool

definition agent_stateless :: "agent_peer \<Rightarrow> bool" where
  "agent_stateless a \<longleftrightarrow> statelessVersion \<le> ag_version a"

definition agentOf :: "agent_request \<Rightarrow> agent_peer" where
  "agentOf req =
     (let v = (case aq_session req of None \<Rightarrow> [] | Some s \<Rightarrow> version_text (aq_init_version req));
          v = (if v = [] then aq_version req else v)
      in \<lparr>ag_session = aq_session req, ag_version = v,
          ag_can_elicit = (case aq_elicitation req of None \<Rightarrow> False | Some (form, url) \<Rightarrow> form \<or> \<not> url)\<rparr>)"

section \<open>Lemmas\<close>

lemma name_rune_bytes:
  "list_all (\<lambda>(r, w). isNameRune r) (runes s) \<Longrightarrow> is_ascii s"
proof (induction s rule: runes_induct)
  case (Cons c s)
  obtain r n where d: "decode_rune (c # s) = (r, n)" by (cases "decode_rune (c # s)")
  have "r < 128" using Cons.prems d by (auto simp: runes_Cons isNameRune_def)
  then have "n = 1" "r = byte c" using decode_rune_small [OF d] by auto
  then show ?case using Cons d \<open>r < 128\<close> by (simp add: runes_Cons is_ascii_def)
qed simp

lemma name_bytes_runes:
  "list_all (\<lambda>(r, w). isNameRune r) (runes s) \<longleftrightarrow> list_all (\<lambda>c. isNameRune (byte c)) s"
proof
  assume "list_all (\<lambda>(r, w). isNameRune r) (runes s)"
  with name_rune_bytes [OF this] show "list_all (\<lambda>c. isNameRune (byte c)) s"
    by (auto simp: runes_ascii list_all_iff)
next
  assume b: "list_all (\<lambda>c. isNameRune (byte c)) s"
  then have "is_ascii s" by (auto simp: is_ascii_def list_all_iff isNameRune_def)
  then show "list_all (\<lambda>(r, w). isNameRune r) (runes s)" using b by (auto simp: runes_ascii list_all_iff)
qed

lemma ValidateServerName_ok:
  "ValidateServerName s = None \<longleftrightarrow>
     s \<noteq> [] \<and> list_all (\<lambda>c. isNameRune (byte c) \<and> byte c \<noteq> 46) s \<and> \<not> reservedServerName s"
proof -
  have "(\<not> list_ex (\<lambda>(r, w). \<not> isNameRune r \<or> r = 46) (runes s)) =
      list_all (\<lambda>c. isNameRune (byte c) \<and> byte c \<noteq> 46) s" (is "?l = ?r")
  proof
    assume l: ?l
    then have "list_all (\<lambda>(r, w). isNameRune r) (runes s)" by (auto simp: list_ex_iff list_all_iff)
    from name_rune_bytes [OF this] l show ?r by (auto simp: runes_ascii list_all_iff list_ex_iff)
  next
    assume r: ?r
    then have "is_ascii s" by (auto simp: is_ascii_def list_all_iff isNameRune_def)
    with r show ?l by (auto simp: runes_ascii list_all_iff list_ex_iff)
  qed
  then show ?thesis by (auto simp: ValidateServerName_def)
qed

lemma validUpstreamToolName_ok:
  "validUpstreamToolName server tool = None \<longleftrightarrow>
     tool \<noteq> [] \<and> list_all (\<lambda>c. isNameRune (byte c)) tool \<and> length server + 1 + length tool \<le> 128"
  by (auto simp: validUpstreamToolName_def Let_def separator_def maxToolName_def list_all_iff
      name_bytes_runes [unfolded list_all_iff, symmetric] dest!: find_first_SomeD split: option.splits if_splits)

lemma cut_byte_append: "c \<notin> set s \<Longrightarrow> cut_byte c (s @ c # t) = (s, t, True)"
  by (induction s) (auto simp: cut_byte_def)

lemma cut_byte_Some: "cut_byte c s = (a, b, True) \<Longrightarrow> s = a @ c # b \<and> c \<notin> set a"
proof -
  assume h: "cut_byte c s = (a, b, True)"
  then have "c \<in> set s" by (simp add: cut_byte_def split: if_splits)
  then obtain u v where "s = u @ c # v" "c \<notin> set u" by (meson split_list_first)
  then show ?thesis using h cut_byte_append by auto
qed

lemma splitName_Some: "splitName n = Some (s, t) \<Longrightarrow> n = prefixName s t \<and> s \<noteq> [] \<and> t \<noteq> [] \<and> CHR ''.'' \<notin> set s"
  using cut_byte_Some [of "CHR ''.''" n]
  by (auto simp: splitName_def prefixName_def separator_def split: prod.splits if_splits)

section \<open>Properties\<close>

text \<open>Property C33 (roundtrip). The name an agent sees for a tool the proxy exposes splits back into the upstream
  and its tool, whatever dots the tool's own name holds, and fits the protocol's limit of 128
  bytes; two routes never share a name; and the only name that splits into an upstream and a tool
  is their prefixed name.\<close>

theorem prefixName_roundtrip:
  assumes "ValidateServerName s = None" "validUpstreamToolName s t = None"
  shows "splitName (prefixName s t) = Some (s, t) \<and> length (prefixName s t) \<le> 128
    \<and> list_all (\<lambda>c. isNameRune (byte c)) (prefixName s t)
    \<and> (\<forall>s' t'. ValidateServerName s' = None \<and> prefixName s' t' = prefixName s t \<longrightarrow> s' = s \<and> t' = t)
    \<and> (\<forall>n. splitName n = Some (s, t) \<longrightarrow> n = prefixName s t)"
proof -
  have no_dot: "CHR ''.'' \<notin> set x" if "ValidateServerName x = None" for x
    using that by (auto simp: ValidateServerName_ok list_all_iff)
  note s = assms(1) [unfolded ValidateServerName_ok] and t = assms(2) [unfolded validUpstreamToolName_ok]
  have cut: "cut_byte (CHR ''.'') (prefixName x y) = (x, y, True)" if "ValidateServerName x = None" for x y
    using cut_byte_append [OF no_dot [OF that]] by (simp add: prefixName_def separator_def)
  have "splitName (prefixName s t) = Some (s, t)" using cut [OF assms(1)] s t by (simp add: splitName_def)
  moreover have "list_all (\<lambda>c. isNameRune (byte c)) (prefixName s t)"
  proof -
    have "isNameRune 46" by (simp add: isNameRune_def)
    moreover have "list_all (\<lambda>c. isNameRune (byte c)) s" using s by (simp add: list_all_iff)
    ultimately show ?thesis using t by (simp add: prefixName_def separator_def)
  qed
  moreover have "s' = s \<and> t' = t" if "ValidateServerName s' = None" "prefixName s' t' = prefixName s t" for s' t'
    using cut [OF that(1), of t'] cut [OF assms(1), of t] unfolding that(2) by (metis Pair_inject)
  moreover have "length (prefixName s t) \<le> 128" using t by (simp add: prefixName_def separator_def)
  moreover have "n = prefixName s t" if "splitName n = Some (s, t)" for n using splitName_Some [OF that] by simp
  ultimately show ?thesis by blast
qed

theorem prefixName_roundtrip_witness:
  "splitName (prefixName ''eos-mcp'' ''show.version'') = Some (''eos-mcp'', ''show.version'')"
proof (rule conjunct1 [OF prefixName_roundtrip])
  show "ValidateServerName ''eos-mcp'' = None"
    by (simp add: ValidateServerName_ok isNameRune_def reservedServerName_def runes_ascii is_ascii_def
        fold_name_rune_def trim_right_def is_decimal_def Name_def)
  show "validUpstreamToolName ''eos-mcp'' ''show.version'' = None"
    by (simp add: validUpstreamToolName_ok isNameRune_def)
qed

text \<open>Every request of a connect attempt passes the middleware; the marks it leaves are those of the run.\<close>

definition middleware_run :: "'s sent list \<Rightarrow> 's set" where
  "middleware_run ms = fold (\<lambda>m marks. snd (middleware marks m)) ms {}"

lemma middleware_mark:
  "x \<in> snd (middleware marks m) \<Longrightarrow> x \<notin> marks \<Longrightarrow>
     x = sn_session m \<and> \<not> sn_failed m \<and> sn_method m = methodInitialize
     \<and> version_text (sn_answered m) \<le> version_text (sn_requested m) \<and> eraOf (version_text (sn_answered m)) = eraStateful"
  by (auto simp: middleware_def Let_def eraOf_def split: if_splits)

text \<open>Property C34 (invariant). A session counts as opened with the initialise handshake only when an initialise
  request on it was answered with a version no later than the one asked for and of the stateful
  era, so the stateful label such a session gets is true to its version; a hybrid answer never
  leaves a mark; and once taken, no mark is left for a later session.\<close>

theorem handshake_label_true:
  assumes "fst (take_handshake (middleware_run ms) cs)"
  shows "snd (take_handshake (middleware_run ms) cs) = {}
    \<and> (\<exists>m \<in> set ms. sn_session m = cs \<and> \<not> sn_failed m \<and> sn_method m = methodInitialize
        \<and> version_text (sn_answered m) \<le> version_text (sn_requested m)
        \<and> upstreamEra (version_text (sn_answered m)) True = eraOf (version_text (sn_answered m)))"
proof -
  have "x \<in> fold (\<lambda>m marks. snd (middleware marks m)) ms marks \<Longrightarrow> x \<notin> marks \<Longrightarrow>
      \<exists>m \<in> set ms. sn_session m = x \<and> \<not> sn_failed m \<and> sn_method m = methodInitialize
        \<and> version_text (sn_answered m) \<le> version_text (sn_requested m) \<and> eraOf (version_text (sn_answered m)) = eraStateful"
    for x :: 'a and ms marks
  proof (induction ms arbitrary: marks)
    case (Cons m ms)
    then show ?case using middleware_mark [of x marks m] by (cases "x \<in> snd (middleware marks m)") auto
  qed simp
  then show ?thesis using assms by (fastforce simp: take_handshake_def middleware_run_def upstreamEra_def)
qed

definition demo_handshake :: "nat sent list" where
  "demo_handshake = [\<lparr>sn_session = 1, sn_failed = False, sn_method = ''initialize'', sn_requested = Some ''2025-11-25'',
       sn_answered = Some ''2026-07-28''\<rparr>,
     \<lparr>sn_session = 2, sn_failed = False, sn_method = ''initialize'', sn_requested = Some ''2025-11-25'',
       sn_answered = Some ''2025-06-18''\<rparr>]"

theorem handshake_label_true_witness:
  "1 \<notin> middleware_run demo_handshake \<and> (\<exists>m :: nat sent. sn_session m = 2 \<and> version_text (sn_answered m) \<le> version_text (sn_requested m))"
proof -
  have r: "middleware_run demo_handshake = {2}"
    by (simp add: middleware_run_def demo_handshake_def middleware_def methodInitialize_def eraOf_def statelessVersion_def
        eraStateful_def eraStateless_def less_char_def less_eq_char_def)
  then show ?thesis using handshake_label_true [of demo_handshake 2] by (auto simp: take_handshake_def)
qed

end
