(* ===== verification/Json_Args.thy ===== *)
theory Json_Args
  imports Json_Encode Gate_Args
begin

text \<open>
  The two decoders of a call's arguments agree: what the gate's own decoder (\<^verbatim>\<open>parseArguments\<close>) reads is
  what the generic decoder reads, and what it reads of an encoded object is that object with its
  keys sorted.
\<close>

section \<open>Depth\<close>

lemma parse_depth_mono:
  "parse_value num n k s = Some x \<Longrightarrow> j \<le> k \<Longrightarrow> parse_value num n j s = Some x"
  "parse_elems num n k s = Some y \<Longrightarrow> j \<le> k \<Longrightarrow> parse_elems num n j s = Some y"
  "parse_members num n k m s = Some z \<Longrightarrow> j \<le> k \<Longrightarrow> parse_members num n j m s = Some z"
proof (induction num n k s and num n k s and num n k m s arbitrary: j x and j y and j z
    rule: parse_value_parse_elems_parse_members.induct)
  case (2 num n k s)
  obtain c t where c: "skip_space s = c # t" using "2.prems" by (auto split: list.splits)
  consider (arr) "byte c \<noteq> 34" "c = CHR ''[''" | (obj) "byte c \<noteq> 34" "c \<noteq> CHR ''[''" "c = CHR ''{''"
    | (other) "byte c = 34 \<or> (c \<noteq> CHR ''['' \<and> c \<noteq> CHR ''{'')" by blast
  then show ?case
  proof cases
    case arr
    then have k: "k < maxNestingDepth" using "2.prems" c by (auto split: if_splits)
    then show ?thesis using "2.prems" c arr "2.IH"(1) [OF c arr, of _ _ _ "Suc j"] by (auto split: list.splits if_splits)
  next
    case obj
    then have k: "k < maxNestingDepth" using "2.prems" c by (auto split: if_splits)
    then show ?thesis using "2.prems" c obj "2.IH"(2) [OF c obj, of _ _ _ "Suc j"] by (auto split: list.splits if_splits)
  next
    case other
    then show ?thesis using "2.prems" c by auto
  qed
next
  case (4 num n k s)
  obtain v w where v: "parse_value num n k s = Some (v, w)" using "4.prems"(1) by (auto split: option.splits)
  obtain c t where c: "skip_space w = c # t" using "4.prems"(1) v by (auto split: list.splits)
  show ?case using "4.prems" v c "4.IH"(1) [OF v "4.prems"(2)] "4.IH"(2) [OF v refl c _ _ _ "4.prems"(2)]
    by (auto split: if_splits)
next
  case (6 num n k m s)
  obtain q t where q: "skip_space s = q # t" "byte q = 34" using "6.prems"(1) by (auto split: list.splits if_splits)
  obtain key w where st: "parse_string t = Some (key, w)" using "6.prems"(1) q by (auto split: option.splits)
  obtain u where u: "skip_space w = CHR '':'' # u" using "6.prems"(1) q st by (auto split: list.splits if_splits)
  obtain v y where v: "parse_value num n k u = Some (v, y)" using "6.prems"(1) q st u by (auto split: option.splits)
  obtain d x where d: "skip_space y = d # x" using "6.prems"(1) q st u v by (auto split: list.splits)
  show ?case using "6.prems" q st u v d "6.IH"(1) [OF q(1) _ st refl u _ v "6.prems"(2)]
      "6.IH"(2) [OF q(1) _ st refl u _ v refl d _ _ _ "6.prems"(2)]
    by (auto split: if_splits)
qed auto

section \<open>The arguments decoder against the generic one\<close>

lemma decode_both:
  assumes "decode_value num u = Some (v', rest)" "parse_value Some p 1 u = Some (v, y)" "2 * length u < p"
  shows "v' = renum (num_text num) v \<and> rest = y \<and> clean num v"
proof -
  obtain v0 where v0: "parse_value Some (value_fuel u) 0 u = Some (v0, rest)" "v' = renum (num_text num) v0" "clean_within num 0 v0"
    using parse_clean(1) [OF assms(1) [unfolded decode_value_def]] by auto
  have "parse_value Some p 0 u = Some (v, y)" by (rule parse_depth_mono(1) [OF assms(2)]) simp
  moreover have "parse_value Some p 0 u = parse_value Some (value_fuel u) 0 u"
    by (rule parse_fuel_irrelevant(1)) (use assms(3) in \<open>simp_all add: value_fuel_def\<close>)
  ultimately show ?thesis using v0 by (simp add: clean_within_def)
qed

lemma renum_map_keys: "go_keys (renum_map f m) = go_keys m"
  by (induction m) (auto simp: renum_map_def)

definition clean_args :: "(string \<Rightarrow> string option) \<Rightarrow> (string \<times> json) list \<Rightarrow> bool" where
  "clean_args num m \<longleftrightarrow> (\<forall>(key, v) \<in> set m. clean num v)"

lemma fields_members:
  assumes "parse_field num out (skip_space s) = Inr (key, v', rest)" "parse_fields num False (out @ [(key, v')]) rest = Inr a"
    "parse_members Some n 1 m0 s = Some (m, r)" "Suc (2 * length s) < n" "out = renum_map (num_text num) m0" "clean_args num m0"
  shows "a = renum_map (num_text num) m \<and> skip_space r = [] \<and> clean_args num m"
  using assms
proof (induction n arbitrary: out s key v' rest m0)
  case (Suc p)
  obtain q t w where q: "skip_space s = q # t" "byte q = 34" and st: "parse_string t = Some (key, w)"
      and new: "key \<notin> set (go_keys out)"
    using Suc.prems(1) by (auto simp: parse_field_def split: list.splits if_splits option.splits)
  obtain u where u: "skip_space w = CHR '':'' # u" using Suc.prems(3) q st by (auto split: list.splits if_splits)
  have dv: "decode_value num u = Some (v', rest)" using Suc.prems(1) q st u new
    by (auto simp: parse_field_def split: option.splits)
  obtain v y where v: "parse_value Some p 1 u = Some (v, y)" using Suc.prems(3) q st u by (auto split: option.splits)
  have "length u < length s"
    using skip_space_Cons [OF q(1)] parse_string_shorter [OF st] skip_space_Cons [OF u] by simp
  then have len: "2 * length u < p" using Suc.prems(4) by simp
  note b = decode_both [OF dv v len]
  have pm: "put key v m0 = m0 @ [(key, v)]"
    using new Suc.prems(5) by (intro put_new) (simp add: renum_map_keys)
  have out': "out @ [(key, v')] = renum_map (num_text num) (put key v m0)" using pm b Suc.prems(5) by (simp add: renum_map_def)
  have cl: "clean_args num (put key v m0)" using b Suc.prems(6) pm by (auto simp: clean_args_def)
  obtain d x where d: "skip_space y = d # x" using Suc.prems(3) q st u v by (auto split: list.splits)
  have ly: "length y < length u" using parse_shorter(1) [OF v] .
  show ?case
  proof (cases "d = CHR ''}''")
    case True
    then show ?thesis using Suc.prems(2,3) q st u v d b out' cl
      by (auto simp: parse_fields.simps [of num False] split: if_splits)
  next
    case False
    then have comma: "d = CHR '',''" using Suc.prems(3) q st u v d by (auto split: if_splits)
    have pf: "parse_fields num False (out @ [(key, v')]) y = Inr a" using Suc.prems(2) b by simp
    obtain key2 v2 rest2 where f: "parse_field num (out @ [(key, v')]) (skip_space x) = Inr (key2, v2, rest2)"
        "parse_fields num False ((out @ [(key, v')]) @ [(key2, v2)]) rest2 = Inr a"
      using pf d comma unfolding parse_fields.simps [of num False "out @ [(key, v')]" y]
      by (auto simp: key_start_def split: sum.splits)
    have "parse_members Some p 1 (put key v m0) x = Some (m, r)" using Suc.prems(3) q st u v d comma by simp
    moreover have "Suc (2 * length x) < p"
      using skip_space_Cons [OF d] ly Suc.prems(4) \<open>length u < length s\<close> by simp
    ultimately show ?thesis by (rule Suc.IH [OF f _ _ out' cl])
  qed
qed simp

lemma parseArguments_decode:
  assumes "parseArguments num raw = Inr a" "decode_value Some (trim_space raw) = Some (JObj m, rest)"
    "trim_space raw \<noteq> []" "trim_space raw \<noteq> ''null''"
  shows "a = renum_map (num_text num) m \<and> clean_args num m"
proof -
  let ?s = "trim_space raw"
  obtain c t where c: "skip_space ?s = c # t"
    using assms(1,3,4) by (auto simp: parseArguments_def Let_def split: if_splits list.splits)
  have brace: "c = CHR ''{''" using assms c
    by (auto simp: parseArguments_def Let_def split: if_splits option.splits)
  have pf: "parse_fields num True [] t = Inr a" using assms(1,3,4) c brace
    by (auto simp: parseArguments_def Let_def split: if_splits)
  obtain d u where d: "skip_space t = d # u" using pf by (auto simp: parse_fields.simps [of num True] split: list.splits)
  have pv: "parse_value Some (Suc (2 * length ?s)) 0 ?s = Some (JObj m, rest)"
    using assms(2) by (simp add: decode_value_def value_fuel_def)
  show ?thesis
  proof (cases "d = CHR ''}''")
    case True
    then show ?thesis using pf pv c brace d
      by (auto simp: parse_fields.simps [of num True] maxNestingDepth_def renum_map_def clean_args_def split: if_splits)
  next
    case False
    then have pm: "parse_members Some (2 * length ?s) 1 [] t = Some (m, rest)"
      using pv c brace d by (auto simp: maxNestingDepth_def)
    obtain key v' r where f: "parse_field num [] (d # u) = Inr (key, v', r)" "parse_fields num False ([] @ [(key, v')]) r = Inr a"
      using pf d False unfolding parse_fields.simps [of num True "[]" t]
      by (auto simp: key_start_def split: sum.splits if_splits)
    have "Suc (2 * length t) < 2 * length ?s" using skip_space_Cons [OF c] by simp
    from fields_members [OF _ f(2) pm this] f(1) d show ?thesis
      by (auto simp: renum_map_def clean_args_def)
  qed
qed

lemma valid_text_utf8: "valid_text s \<Longrightarrow> utf8_valid s"
proof -
  assume "valid_text s"
  then obtain rs where rs: "list_all scalar rs" "s = concat (map encode_rune rs)" by (auto simp: valid_text_def)
  have "length (encode_rune rune_error) = 3" by (simp add: encode_rune_def rune_error_def)
  then show ?thesis using runes_encode [OF rs(1)] rs(2) by (auto simp: utf8_valid_def list_all_iff)
qed

lemma valid_text_is_ascii: "is_ascii s \<Longrightarrow> valid_text s"
proof (induction s)
  case (Cons c s)
  then show ?case using valid_text_append [OF valid_text_ascii, of c s] by (simp add: is_ascii_def)
qed simp

lemma decimals_ascii: "list_all is_decimal ds \<Longrightarrow> is_ascii ds"
  by (auto simp: list_all_iff is_ascii_def is_decimal_def)

lemma is_ascii_append: "is_ascii (s @ t) \<longleftrightarrow> is_ascii s \<and> is_ascii t"
  by (auto simp: is_ascii_def)

lemma parse_number_ascii:
  assumes "parse_number s = Some (l, r)" shows "is_ascii l"
proof -
  obtain sg t where m: "(case s of [] \<Rightarrow> ([], []) | c # t \<Rightarrow> if c = CHR ''-'' then ([c], t) else ([], s)) = (sg, t)"
    by fastforce
  then have sg: "is_ascii sg" by (auto simp: is_ascii_def split: list.splits if_splits)
  obtain i u where i: "parse_int_part t = Some (i, u)" using assms unfolding parse_number_def m by (auto split: option.splits)
  obtain f v where f: "parse_frac u = Some (f, v)" using assms unfolding parse_number_def m by (auto simp: i split: option.splits)
  obtain e where e: "parse_exp v = Some (e, r)" and l: "l = sg @ i @ f @ e"
    using assms unfolding parse_number_def m by (auto simp: i f split: option.splits)
  have "is_ascii i" using i digits_all [of t] decimals_ascii [of "takeWhile is_decimal t"]
    by (auto simp: parse_int_part_def digits_of_def is_ascii_def split: list.splits if_splits)
  moreover have "is_ascii f" using f decimals_ascii [OF digits_all [of "tl u"]]
    by (auto simp: parse_frac_def digits_of_def is_ascii_def Let_def split: list.splits if_splits)
  moreover have "is_ascii e"
  proof (cases "e = []")
    case False
    from parse_exp_shape [OF e False] show ?thesis using decimals_ascii by (auto simp: is_ascii_def)
  qed simp
  ultimately show ?thesis using sg by (simp add: l is_ascii_append)
qed

lemma encode_string_valid: "valid_text s \<Longrightarrow> valid_text (encode_string s)"
proof -
  assume "valid_text s"
  then obtain rs where rs: "list_all scalar rs" "s = concat (map encode_rune rs)" by (auto simp: valid_text_def)
  have hex: "is_ascii [hex_digit (r div 16), hex_digit (r mod 16)]" if "r < 128" for r
    using that by (auto simp: is_ascii_def hex_digit_def div_less_iff_less_mult)
  have esc: "valid_text (escape_byte r)" if "r < 128" for r
    using hex [OF that] that by (intro valid_text_is_ascii) (auto simp: escape_byte_def is_ascii_def)
  have one: "valid_text (encode_string_rune (r, encode_rune r))" for r
    using encode_rune_valid [of r] esc [of r]
    by (auto simp: encode_string_rune_def rune_error_def is_ascii_def intro!: valid_text_is_ascii)
  have "valid_text (concat (map (\<lambda>r. encode_string_rune (r, encode_rune r)) rs))"
    by (induction rs) (auto intro: valid_text_append one)
  moreover have "valid_text [CHR 0x22]" by (rule valid_text_ascii) simp
  ultimately have "valid_text ([CHR 0x22] @ concat (map (\<lambda>r. encode_string_rune (r, encode_rune r)) rs) @ [CHR 0x22])"
    by (intro valid_text_append)
  then show ?thesis using rs(2) runes_encode [OF rs(1)] by (simp add: encode_string_def comp_def)
qed

lemma join_valid: "valid_text sep \<Longrightarrow> \<forall>w \<in> set ws. valid_text w \<Longrightarrow> valid_text (join sep ws)"
  by (induction sep ws rule: join.induct) (auto intro: valid_text_append)

lemma valid_text_lits [simp]:
  "valid_text '',''" "valid_text ''[''" "valid_text '']''" "valid_text ''{''" "valid_text ''}''" "valid_text '':''"
  "valid_text ''null''" "valid_text ''true''" "valid_text ''false''"
  by (rule valid_text_is_ascii; simp add: is_ascii_def)+

lemma encode_json_valid: "clean num v \<Longrightarrow> valid_text (encode_json v)"
proof (induction v rule: encode_json.induct)
  case (3 t)
  then show ?case using parse_number_ascii [of t t "[]"] by (simp add: valid_text_is_ascii)
next
  case (6 vs)
  then have "valid_text (join '','' (map encode_json vs))" by (intro join_valid) auto
  then show ?case by (simp add: valid_text_append [OF valid_text_lits(2), simplified] valid_text_append)
next
  case (7 m)
  have "valid_text w" if "w \<in> snd ` (\<lambda>(k, v). (k, encode_string k @ '':'' @ encode_json v)) ` set m" for w
    using that 7 by (force intro: valid_text_append encode_string_valid simp del: append_Cons append_Nil)
  then have "valid_text (join '','' (map snd (sort_key fst (map (\<lambda>(k, v). (k, encode_string k @ '':'' @ encode_json v)) m))))"
    by (intro join_valid) auto
  then show ?case unfolding encode_json.simps by (intro valid_text_append) simp_all
qed (auto intro: encode_string_valid)

section \<open>Reading back an argument object\<close>

lemma decode_encode:
  assumes "clean num v" "json_depth v \<le> maxNestingDepth" "stops r"
  shows "decode_value num (encode_json v @ r) = Some (canon (num_text num) v, r)"
  unfolding decode_value_def
  by (rule reads_backD [OF clean_reads_back [OF assms(1)]]) (use assms in \<open>simp_all add: value_fuel_def\<close>)

lemma parse_field_encode:
  assumes "valid_text key" "clean num v" "json_depth v \<le> maxNestingDepth" "key \<notin> set (go_keys out)" "stops r"
  shows "parse_field num out (encode_member (key, v) @ r) = Inr (key, canon (num_text num) v, r)"
proof -
  obtain q where q: "encode_string key = CHR 0x22 # q" using encode_string_Cons [of key] by blast
  have "parse_string (q @ CHR '':'' # encode_json v @ r) = Some (key, CHR '':'' # encode_json v @ r)"
    using parse_encode_string [OF assms(1), of "CHR '':'' # encode_json v @ r"] q by simp
  then show ?thesis using assms(4) decode_encode [OF assms(2,3,5)]
    by (simp add: encode_member_def q parse_field_def)
qed

lemma skip_space_member: "skip_space (encode_member kv @ r) = encode_member kv @ r"
  by (cases kv) (simp add: encode_member_def encode_string_def)

lemma parse_fields_rest:
  assumes "\<forall>(key, v) \<in> set kvs. valid_text key \<and> clean num v \<and> json_depth v \<le> maxNestingDepth"
    "distinct (go_keys kvs)" "set (go_keys out) \<inter> set (go_keys kvs) = {}"
  shows "parse_fields num False out (concat (map (\<lambda>kv. CHR '','' # encode_member kv) kvs) @ ''}'')
    = Inr (out @ map (\<lambda>(k, v). (k, canon (num_text num) v)) kvs)"
  using assms
proof (induction kvs arbitrary: out)
  case Nil
  then show ?case by (simp add: parse_fields.simps [of num False])
next
  case (Cons kv kvs)
  obtain key v where kv: "kv = (key, v)" by (cases kv)
  let ?rest = "concat (map (\<lambda>kv. CHR '','' # encode_member kv) kvs) @ ''}''"
  have "stops ?rest" by (cases kvs) (simp_all add: stops_def)
  then have f: "parse_field num out (encode_member kv @ ?rest) = Inr (key, canon (num_text num) v, ?rest)"
    unfolding kv using Cons.prems kv by (intro parse_field_encode) auto
  have "parse_fields num False (out @ [(key, canon (num_text num) v)]) ?rest
      = Inr ((out @ [(key, canon (num_text num) v)]) @ map (\<lambda>(k, v). (k, canon (num_text num) v)) kvs)"
    using Cons.prems kv by (intro Cons.IH) auto
  then show ?case using f skip_space_member [of kv ?rest]
    by (simp add: parse_fields.simps [of num False out] key_start_def kv)
qed

lemma join_members: "join '','' (map encode_member (kv # kvs)) = encode_member kv @ concat (map (\<lambda>kv. CHR '','' # encode_member kv) kvs)"
  by (induction kvs arbitrary: kv) (simp_all add: join_Cons)

lemma parse_fields_encode:
  assumes "\<forall>(key, v) \<in> set kvs. valid_text key \<and> clean num v \<and> json_depth v \<le> maxNestingDepth" "distinct (go_keys kvs)"
  shows "parse_fields num True [] (join '','' (map encode_member kvs) @ ''}'')
    = Inr (map (\<lambda>(k, v). (k, canon (num_text num) v)) kvs)"
proof (cases kvs)
  case Nil
  then show ?thesis by (simp add: parse_fields.simps [of num True])
next
  case (Cons kv kvs')
  obtain key v where kv: "kv = (key, v)" by (cases kv)
  let ?rest = "concat (map (\<lambda>kv. CHR '','' # encode_member kv) kvs') @ ''}''"
  have "stops ?rest" by (cases kvs') (simp_all add: stops_def)
  then have f: "parse_field num [] (encode_member kv @ ?rest) = Inr (key, canon (num_text num) v, ?rest)"
    unfolding kv using assms Cons kv by (intro parse_field_encode) auto
  have r: "parse_fields num False [(key, canon (num_text num) v)] ?rest
      = Inr ([(key, canon (num_text num) v)] @ map (\<lambda>(k, v). (k, canon (num_text num) v)) kvs')"
    using assms Cons kv by (intro parse_fields_rest) auto
  obtain q where q: "encode_member kv = CHR 0x22 # q" by (auto simp: kv encode_member_def encode_string_def)
  show ?thesis using f r skip_space_member [of kv ?rest] unfolding Cons join_members
    by (simp add: parse_fields.simps [of num True] key_start_def kv q [unfolded kv])
qed

text \<open>The arguments with the keys of every object, the top one too, in sorted order.\<close>

definition sort_args :: "args \<Rightarrow> args" where
  "sort_args a = sort_key fst (map (\<lambda>(k, v). (k, canon id v)) a)"

lemma parseArguments_encode:
  assumes "clean num (JObj m)" "json_depth (JObj m) \<le> maxNestingDepth"
  shows "parseArguments num (encode_json (JObj m)) = Inr (sort_args (renum_map (num_text num) m))"
proof -
  define sm where "sm = sort_key fst m"
  have enc: "encode_json (JObj m) = CHR ''{'' # join '','' (map encode_member sm) @ ''}''"
    unfolding encode_obj sm_def by simp
  have "\<forall>(key, v) \<in> set sm. valid_text key \<and> clean num v \<and> json_depth v \<le> maxNestingDepth"
    using assms depth_members(2) [of _ _ m] by (fastforce simp: sm_def)
  moreover have "distinct (go_keys sm)"
    using assms(1) distinct_map [of fst m] distinct_map [of fst sm] by (simp add: wf_map_def sm_def)
  ultimately have "parse_fields num True [] (join '','' (map encode_member sm) @ ''}'')
      = Inr (map (\<lambda>(k, v). (k, canon (num_text num) v)) sm)" by (rule parse_fields_encode)
  moreover have "utf8_valid (encode_json (JObj m))" by (rule valid_text_utf8 [OF encode_json_valid [OF assms(1)]])
  ultimately have "parseArguments num (encode_json (JObj m)) = Inr (map (\<lambda>(k, v). (k, canon (num_text num) v)) sm)"
    unfolding enc by (simp add: parseArguments_def Let_def trim_space_braces)
  moreover have "map (\<lambda>(k, v). (k, canon (num_text num) v)) sm = sort_args (renum_map (num_text num) m)"
  proof -
    have "map (\<lambda>(k, v). (k, canon id v)) (renum_map (num_text num) m) = map (\<lambda>(k, v). (k, canon (num_text num) v)) m"
      using canon_renum [of "num_text num"] by (auto simp: renum_map_def)
    then show ?thesis unfolding sm_def sort_args_def
      by (simp add: sort_key_map_fst split_beta)
  qed
  ultimately show ?thesis by simp
qed

end
