(* ===== verification/Proxy_Gate.thy ===== *)
theory Proxy_Gate
  imports Gate_Decide Proxy_Name Json_Args
begin

text \<open>
  \<^verbatim>\<open>internal/proxy/gate.go\<close>: what the proxy does around the gate for one call: the cap on the
  arguments, the session counters, the guard against a panic, the re-encoding of the arguments and
  the narrowed input schema. The gate is an argument here, as the code takes any \<^verbatim>\<open>Gate\<close>: a function
  that returns a verdict, or \<open>None\<close> for a panic; the locale \<open>device_gate\<close> states what the counters
  rely on, and it is interpreted on the gate of \<^verbatim>\<open>internal/gate\<close>. \<open>sha\<close> is the short hash of a session
  id. The counter key's lock is held across a decision, so a decision is one step; a call whose
  context ends while it waits for the lock is the error \<open>WaitCancelled\<close>.
\<close>

section \<open>Re-encoding the arguments\<close>

datatype reencode_error = DecodeError | ErrNotObject | ErrTrailing

definition reencode :: "string \<Rightarrow> reencode_error + string option" where
  "reencode raw =
     (let t = trim_space raw in
      if t = [] \<or> t = ''null'' then Inr None
      else
        (case decode_value Some t of
           None \<Rightarrow> Inl DecodeError
         | Some (JObj m, rest) \<Rightarrow> if skip_space rest = [] then Inr (Some (encode_json (JObj m))) else Inl ErrTrailing
         | Some (JNull, rest) \<Rightarrow> Inl ErrNotObject
         | Some (v, rest) \<Rightarrow> Inl DecodeError))"

fun parseCode :: "reencode_error \<Rightarrow> string" where
  "parseCode ErrTrailing = ''trailing_data''"
| "parseCode ErrNotObject = ''not_object''"
| "parseCode DecodeError = ''invalid_json''"

section \<open>Counters\<close>

definition maxTouchedNames :: nat where "maxTouchedNames = 4096"

record session_counter =
  ct_touched :: "string list"
  ct_extra :: nat

definition new_counter :: session_counter where
  "new_counter = \<lparr>ct_touched = [], ct_extra = 0\<rparr>"

definition touchedCount :: "session_counter \<Rightarrow> int" where
  "touchedCount s = int (length (ct_touched s)) + int (ct_extra s)"

definition counted :: "session_counter \<Rightarrow> string \<Rightarrow> bool" where
  "counted s t \<longleftrightarrow> t \<in> set (ct_touched s)"

definition dedupe :: "string list \<Rightarrow> string list" where
  "dedupe ts = (if length ts < 2 then ts else dedup_from {} ts)"

definition touch1 :: "string \<Rightarrow> session_counter \<Rightarrow> session_counter" where
  "touch1 t s =
     (if t \<in> set (ct_touched s) then s
      else if length (ct_touched s) < maxTouchedNames then s\<lparr>ct_touched := t # ct_touched s\<rparr>
      else s\<lparr>ct_extra := Suc (ct_extra s)\<rparr>)"

definition touch :: "session_counter \<Rightarrow> string list \<Rightarrow> session_counter" where
  "touch s ts = fold touch1 (dedupe ts) s"

type_synonym counters = "string \<Rightarrow> session_counter option"

definition counters_get :: "counters \<Rightarrow> string \<Rightarrow> session_counter" where
  "counters_get cs key = (case cs key of None \<Rightarrow> new_counter | Some sc \<Rightarrow> sc)"

section \<open>One call\<close>

datatype transport = TransportStdio | TransportHTTP

fun transport_text :: "transport \<Rightarrow> string" where
  "transport_text TransportStdio = ''stdio''"
| "transport_text TransportHTTP = ''http''"

record pcall =
  cc_server :: string
  cc_up_version :: string
  cc_up_era :: string
  cc_tool :: string
  cc_arguments :: string
  cc_agent :: agent_peer
  cc_transport :: transport
  cc_principal :: string
  cc_session_key :: string

record route =
  rt_read_only :: "bool option"
  rt_destructive :: "bool option"
  rt_closed :: bool

definition zero_route :: route where
  "zero_route = \<lparr>rt_read_only = None, rt_destructive = None, rt_closed = False\<rparr>"

type_synonym routes = "(string, route) gomap"

definition find_route :: "routes \<Rightarrow> string \<Rightarrow> string \<Rightarrow> route" where
  "find_route rs server tool = (case map_of rs (prefixName server tool) of None \<Rightarrow> zero_route | Some r \<Rightarrow> r)"

definition localPrincipal :: string where "localPrincipal = ''(local)''"

definition logPrincipal :: "string \<Rightarrow> string" where
  "logPrincipal p = (if p = [] then localPrincipal else p)"

definition logSessionID :: "(string \<Rightarrow> string) \<Rightarrow> string \<Rightarrow> string" where
  "logSessionID sha key = (if has_prefix key ''s'' \<and> trim_prefix key ''s'' \<noteq> [] then sha (trim_prefix key ''s'') else [])"

definition callInfo :: "(string \<Rightarrow> string) \<Rightarrow> routes \<Rightarrow> pcall \<Rightarrow> call_info" where
  "callInfo sha rs c =
     (let r = find_route rs (cc_server c) (cc_tool c) in
      \<lparr>ci_server = cc_server c, ci_tool = cc_tool c, ci_arguments = cc_arguments c,
       ci_read_only_hint = rt_read_only r, ci_destructive_hint = rt_destructive r,
       ci_agent_protocol = ag_version (cc_agent c), ci_agent_era = eraOf (ag_version (cc_agent c)),
       ci_upstream_protocol = cc_up_version c, ci_upstream_era = cc_up_era c,
       ci_transport = transport_text (cc_transport c), ci_principal = logPrincipal (cc_principal c),
       ci_session_id = logSessionID sha (cc_session_key c),
       ci_devices_touched = 0, ci_pending_holds = 0, ci_counted = None\<rparr>)"

definition counterKey :: "pcall \<Rightarrow> string" where
  "counterKey c = (if cc_transport c = TransportHTTP then ''principal:'' @ cc_principal c else ''process'')"

definition maxArgumentBytes :: nat where "maxArgumentBytes = 64 * 1024"

definition ruleInternalError :: string where "ruleInternalError = ''default:internal_error''"
definition unclassified :: string where "unclassified = ''EXEC_ARBITRARY''"
definition unclassifiedSource :: string where "unclassifiedSource = ''proxy''"
definition reasonTooLarge :: string where "reasonTooLarge = ''the arguments are larger than 64 KiB''"
definition reasonInternalError :: string where
  "reasonInternalError = ''fathomgate could not decide this call, so it was not run''"
definition reasonNotForwarded :: string where "reasonNotForwarded = ''the policy does not allow this call''"
definition parseTooLarge :: string where "parseTooLarge = ''too_large''"

definition refusalText :: "string \<Rightarrow> string \<Rightarrow> string \<Rightarrow> string \<Rightarrow> string \<Rightarrow> string \<Rightarrow> string" where
  "refusalText verb server tool rule cl reason =
     ''fathomgate '' @ verb @ '' '' @ prefixName server tool @ '': rule '' @ rule @ '' (class '' @ cl @ ''): '' @ reason"

definition refusalVerdict :: "call_info \<Rightarrow> string \<Rightarrow> string \<Rightarrow> string \<Rightarrow> verdict" where
  "refusalVerdict ci rule reason parse_error =
     \<lparr>vd_forward = False, vd_effect = ''deny'', vd_rule_id = rule, vd_class = unclassified,
      vd_class_source = unclassifiedSource, vd_targets = [],
      vd_error = refusalText ''denied'' (ci_server ci) (ci_tool ci) rule unclassified reason,
      vd_record =
        [(''server'', AStr (ci_server ci)), (''tool'', AStr (ci_tool ci)), (''class'', AStr unclassified),
         (''class_source'', AStr unclassifiedSource), (''targets'', AStrs []), (''roles'', AStrs []),
         (''unknown_target'', ABool False), (''decision'', AStr ''deny''), (''rule_id'', AStr rule),
         (''reason'', AStr reason), (''obligations'', AStrs []), (''forwarded'', ABool False),
         (''agent_protocol'', AStr (ci_agent_protocol ci)), (''agent_era'', AStr (ci_agent_era ci)),
         (''upstream_protocol'', AStr (ci_upstream_protocol ci)), (''upstream_era'', AStr (ci_upstream_era ci)),
         (''transport'', AStr (ci_transport ci)), (''principal'', AStr (ci_principal ci)),
         (''session_id'', AStr (ci_session_id ci))]
        @ (if parse_error \<noteq> [] then [(''parse_error'', AStr parse_error)] else []),
      vd_trace = []\<rparr>"

definition orUnknown :: "string \<Rightarrow> string" where
  "orUnknown rule = (if rule = [] then ruleInternalError else rule)"

definition orUnclassified :: "string \<Rightarrow> string" where
  "orUnclassified cl = (if cl = [] then unclassified else cl)"

record pdecision =
  pd_v :: verdict
  pd_args :: "string option"

text \<open>\<open>decideLocked\<close>: the decision and the counter after it.\<close>

definition decideLocked ::
  "(call_info \<Rightarrow> verdict option) \<Rightarrow> pcall \<Rightarrow> call_info \<Rightarrow> session_counter \<Rightarrow> pdecision \<times> session_counter" where
  "decideLocked dec c ci0 sc =
     (let ci = ci0\<lparr>ci_devices_touched := touchedCount sc, ci_counted := Some (counted sc)\<rparr> in
      case dec ci of
        None \<Rightarrow> (\<lparr>pd_v = refusalVerdict ci ruleInternalError reasonInternalError [], pd_args = None\<rparr>, sc)
      | Some v \<Rightarrow>
          if \<not> vd_forward v then
            (\<lparr>pd_v = (if vd_error v = [] then
                       v\<lparr>vd_error := refusalText ''denied'' (ci_server ci) (ci_tool ci) (orUnknown (vd_rule_id v))
                           (orUnclassified (vd_class v)) reasonNotForwarded\<rparr>
                     else v), pd_args = None\<rparr>, sc)
          else
            (case reencode (cc_arguments c) of
               Inl e \<Rightarrow> (\<lparr>pd_v = refusalVerdict ci RuleBadArguments reasonNotObject (parseCode e), pd_args = None\<rparr>, sc)
             | Inr args \<Rightarrow> (\<lparr>pd_v = v\<lparr>vd_error := []\<rparr>, pd_args = args\<rparr>, touch sc (vd_targets v))))"

datatype decide_error = WaitCancelled

text \<open>\<open>decide\<close>: \<open>ended\<close> says that the call's context ended while it waited for the key's lock. The
  counter's entry is made when the key is looked up.\<close>

definition proxy_decide ::
  "(call_info \<Rightarrow> verdict option) \<Rightarrow> (string \<Rightarrow> string) \<Rightarrow> routes \<Rightarrow> bool \<Rightarrow> pcall \<Rightarrow> counters
     \<Rightarrow> (decide_error + pdecision) \<times> counters" where
  "proxy_decide dec sha rs ended c cs =
     (let ci = callInfo sha rs c in
      if maxArgumentBytes < length (cc_arguments c) then
        (Inr \<lparr>pd_v = refusalVerdict ci RuleBadArguments reasonTooLarge parseTooLarge, pd_args = None\<rparr>, cs)
      else
        (let key = counterKey c; sc = counters_get cs key in
         if ended then (Inl WaitCancelled, cs(key \<mapsto> sc))
         else (case decideLocked dec c ci sc of (d, sc') \<Rightarrow> (Inr d, cs(key \<mapsto> sc')))))"

text \<open>\<open>decideAndRespond\<close>: a call that is not forwarded gets a tool error with the verdict's text.\<close>

definition decideAndRespond ::
  "(call_info \<Rightarrow> verdict option) \<Rightarrow> (string \<Rightarrow> string) \<Rightarrow> routes \<Rightarrow> bool \<Rightarrow> pcall \<Rightarrow> counters
     \<Rightarrow> (decide_error + pdecision \<times> string option) \<times> counters" where
  "decideAndRespond dec sha rs ended c cs =
     (case proxy_decide dec sha rs ended c cs of
        (Inl e, cs') \<Rightarrow> (Inl e, cs')
      | (Inr d, cs') \<Rightarrow> (Inr (d, if vd_forward (pd_v d) then None else Some (vd_error (pd_v d))), cs'))"

section \<open>Schemas and argument lists\<close>

definition narrow_properties :: "string list \<Rightarrow> (string \<times> json) list \<Rightarrow> (string \<times> json) list" where
  "narrow_properties named props = filter (\<lambda>(k, v). k \<in> set named) props"

fun keep_required :: "string list \<Rightarrow> json \<Rightarrow> bool" where
  "keep_required named (JStr s) = (s \<in> set named)"
| "keep_required named v = False"

definition offer_properties :: "(string \<times> json) list \<Rightarrow> string list \<Rightarrow> (string \<times> json) list \<times> string list" where
  "offer_properties m named =
     (case map_of m ''properties'' of
        Some (JObj props) \<Rightarrow> (put ''properties'' (JObj (narrow_properties named props)) m,
                             filter (\<lambda>k. k \<notin> set named) (go_keys props))
      | _ \<Rightarrow> (m, []))"

definition offer_required :: "(string \<times> json) list \<Rightarrow> string list \<Rightarrow> (string \<times> json) list \<Rightarrow> (string \<times> json) list" where
  "offer_required m named out =
     (case map_of m ''required'' of
        Some (JArr req) \<Rightarrow> put ''required'' (JArr (filter (keep_required named) req)) out
      | _ \<Rightarrow> out)"

definition narrowSchema :: "json \<Rightarrow> string list \<Rightarrow> json \<times> string list" where
  "narrowSchema schema named =
     (case schema of
        JObj m \<Rightarrow>
          (case offer_properties m named of (out, dropped) \<Rightarrow>
             (JObj (put ''additionalProperties'' (JBool False) (offer_required m named out)), sort dropped))
      | _ \<Rightarrow> (schema, []))"

definition argumentsClosed :: "routes \<Rightarrow> string \<Rightarrow> string \<Rightarrow> bool" where
  "argumentsClosed rs server tool = rt_closed (find_route rs server tool)"

text \<open>\<open>toolArguments\<close>: a panic in the gate's \<open>Arguments\<close> is closed with no names.\<close>

definition toolArguments :: "(string \<Rightarrow> string \<Rightarrow> (string list \<times> bool) option) \<Rightarrow> string \<Rightarrow> string \<Rightarrow> string list \<times> bool" where
  "toolArguments arguments server tool = (case arguments server tool of None \<Rightarrow> ([], True) | Some r \<Rightarrow> r)"

section \<open>Counting devices\<close>

definition fresh_targets :: "session_counter \<Rightarrow> string list \<Rightarrow> string list" where
  "fresh_targets sc ts = filter (\<lambda>t. \<not> counted sc t) ts"

lemma dedupe_distinct: "distinct ts \<Longrightarrow> dedupe ts = ts"
  by (simp add: dedupe_def dedup_from_distinct)

lemma touch1_sel:
  "set (ct_touched (touch1 t sc)) \<subseteq> insert t (set (ct_touched sc))" "set (ct_touched sc) \<subseteq> set (ct_touched (touch1 t sc))"
  "distinct (ct_touched sc) \<Longrightarrow> distinct (ct_touched (touch1 t sc))"
  "length (ct_touched sc) \<le> maxTouchedNames \<Longrightarrow> length (ct_touched (touch1 t sc)) \<le> maxTouchedNames"
  "touchedCount (touch1 t sc) = touchedCount sc + (if counted sc t then 0 else 1)"
  by (auto simp: touch1_def touchedCount_def counted_def)

lemma touch_fold_count:
  "distinct ts \<Longrightarrow> touchedCount (fold touch1 ts sc) = touchedCount sc + int (length (fresh_targets sc ts))"
proof (induction ts arbitrary: sc)
  case (Cons t ts)
  have "counted (touch1 t sc) x = counted sc x" if "x \<in> set ts" for x
    using that Cons.prems by (auto simp: touch1_def counted_def)
  then have "fresh_targets (touch1 t sc) ts = fresh_targets sc ts"
    by (auto simp: fresh_targets_def intro!: filter_cong)
  then show ?case using Cons.IH [of "touch1 t sc"] Cons.prems by (simp add: touch1_sel fresh_targets_def)
qed (simp add: fresh_targets_def)

lemma touch_fold_names:
  "set (ct_touched (fold touch1 ts sc)) \<subseteq> set ts \<union> set (ct_touched sc)"
  using touch1_sel(1) by (induction ts arbitrary: sc) (simp, fastforce)

lemma touch_fold_wf:
  "distinct (ct_touched sc) \<Longrightarrow> distinct (ct_touched (fold touch1 ts sc))"
  "length (ct_touched sc) \<le> maxTouchedNames \<Longrightarrow> length (ct_touched (fold touch1 ts sc)) \<le> maxTouchedNames"
  by (induction ts arbitrary: sc) (simp_all add: touch1_sel)

text \<open>The counter of a key against the set \<open>D\<close> of the devices its forwarded calls named.\<close>

definition counter_ok :: "session_counter \<Rightarrow> string set \<Rightarrow> bool" where
  "counter_ok sc D \<longleftrightarrow> distinct (ct_touched sc) \<and> length (ct_touched sc) \<le> maxTouchedNames
     \<and> set (ct_touched sc) \<subseteq> D \<and> finite D \<and> int (card D) \<le> touchedCount sc
     \<and> (ct_extra sc = 0 \<longrightarrow> D = set (ct_touched sc))"

lemma counter_ok_new: "counter_ok new_counter {}"
  by (simp add: counter_ok_def new_counter_def touchedCount_def)

lemma touch1_extra: "ct_extra (touch1 t sc) = 0 \<Longrightarrow> ct_extra sc = 0 \<and> set (ct_touched (touch1 t sc)) = insert t (set (ct_touched sc))"
  by (auto simp: touch1_def split: if_splits)

lemma touch_fold_extra:
  "ct_extra (fold touch1 ts sc) = 0 \<Longrightarrow> ct_extra sc = 0 \<and> set (ct_touched (fold touch1 ts sc)) = set ts \<union> set (ct_touched sc)"
proof (induction ts arbitrary: sc)
  case (Cons t ts)
  from Cons.IH [of "touch1 t sc"] Cons.prems touch1_extra [of t sc] show ?case by auto
qed simp

lemma counter_ok_touch:
  assumes "counter_ok sc D" "distinct ts"
  shows "counter_ok (touch sc ts) (D \<union> set ts)"
proof -
  have t: "touch sc ts = fold touch1 ts sc" by (simp add: touch_def dedupe_distinct [OF assms(2)])
  have "set ts - D \<subseteq> set (fresh_targets sc ts)" using assms(1) by (auto simp: counter_ok_def fresh_targets_def counted_def)
  then have "card (set ts - D) \<le> length (fresh_targets sc ts)"
    by (meson List.finite_set card_length card_mono le_trans)
  moreover have "card (D \<union> set ts) \<le> card D + card (set ts - D)"
    by (metis Un_Diff_cancel card_Un_le)
  ultimately have "int (card (D \<union> set ts)) \<le> touchedCount (touch sc ts)"
    using assms by (simp add: t touch_fold_count counter_ok_def)
  then show ?thesis using assms touch_fold_names [of ts sc] touch_fold_wf [of sc ts] touch_fold_extra [of ts sc]
    by (auto simp: counter_ok_def t)
qed

lemma devicesTouched_counter:
  assumes "distinct (ct_touched sc)" "distinct ts"
  shows "devicesTouched (ci\<lparr>ci_devices_touched := touchedCount sc, ci_counted := Some (counted sc)\<rparr>) ts + int (length ts)
    = touchedCount sc + int (length (fresh_targets sc ts))"
proof -
  have "length (filter (counted sc) ts) = card (set (filter (counted sc) ts))"
    using distinct_card [of "filter (counted sc) ts"] assms(2) by simp
  also have "\<dots> \<le> card (set (ct_touched sc))" by (rule card_mono) (auto simp: counted_def)
  finally have "length (filter (counted sc) ts) \<le> length (ct_touched sc)" using distinct_card [OF assms(1)] by simp
  moreover have "length ts = length (filter (counted sc) ts) + length (fresh_targets sc ts)"
    by (simp add: fresh_targets_def sum_length_filter_compl)
  ultimately show ?thesis by (simp add: devicesTouched_def touchedCount_def)
qed

section \<open>Runs of decisions\<close>

text \<open>A step decides one call of any key; the second component is a ghost: the devices named by the
  forwarded calls of each key.\<close>

definition forwarded_devices :: "decide_error + pdecision \<Rightarrow> string set" where
  "forwarded_devices r =
     (case r of Inl e \<Rightarrow> {} | Inr d \<Rightarrow> if vd_forward (pd_v d) then set (vd_targets (pd_v d)) else {})"

inductive gate_step ::
  "(call_info \<Rightarrow> verdict option) \<Rightarrow> (string \<Rightarrow> string) \<Rightarrow> routes \<Rightarrow> counters \<times> (string \<Rightarrow> string set)
     \<Rightarrow> counters \<times> (string \<Rightarrow> string set) \<Rightarrow> bool"
  for dec sha rs where
  decided: "proxy_decide dec sha rs ended c cs = (r, cs') \<Longrightarrow>
     gate_step dec sha rs (cs, F) (cs', F(counterKey c := F (counterKey c) \<union> forwarded_devices r))"

inductive_cases gate_stepE: "gate_step dec sha rs s t"

text \<open>What the counters rely on of a gate: a call it forwards names distinct targets, at most 256, and
  with the counter key's count it was given they stay within \<open>mx\<close> devices.\<close>

locale device_gate =
  fixes dec :: "call_info \<Rightarrow> verdict option" and mx :: int
  assumes targets_distinct: "dec ci = Some v \<Longrightarrow> vd_forward v \<Longrightarrow> distinct (vd_targets v)"
    and targets_few: "dec ci = Some v \<Longrightarrow> vd_forward v \<Longrightarrow> length (vd_targets v) \<le> 256"
    and within_cap: "dec ci = Some v \<Longrightarrow> vd_forward v \<Longrightarrow>
      devicesTouched ci (vd_targets v) + int (length (vd_targets v)) < 2 ^ 63 \<Longrightarrow>
      0 < mx \<Longrightarrow> devicesTouched ci (vd_targets v) + int (length (vd_targets v)) \<le> mx"
begin

lemma decideLocked_cases:
  assumes "decideLocked dec c ci0 sc = (d, sc')"
  obtains (refused) "\<not> vd_forward (pd_v d)" "sc' = sc"
    | (forwarded) v where "dec (ci0\<lparr>ci_devices_touched := touchedCount sc, ci_counted := Some (counted sc)\<rparr>) = Some v"
        "vd_forward v" "pd_v d = v\<lparr>vd_error := []\<rparr>" "sc' = touch sc (vd_targets v)"
  using assms
  by (auto simp: decideLocked_def Let_def refusalVerdict_def split: option.splits if_splits sum.splits)

lemma decideLocked_ok:
  assumes "counter_ok sc D" "decideLocked dec c ci0 sc = (d, sc')"
  shows "counter_ok sc' (D \<union> forwarded_devices (Inr d))"
  using assms(2)
proof (cases rule: decideLocked_cases)
  case refused
  then show ?thesis using assms(1) by (simp add: forwarded_devices_def)
next
  case (forwarded v)
  then show ?thesis using counter_ok_touch [OF assms(1) targets_distinct [of _ v]] by (simp add: forwarded_devices_def)
qed

lemma decideLocked_within:
  assumes "counter_ok sc D" "touchedCount sc \<le> mx" "0 < mx" "mx + 256 < 2 ^ 63" "decideLocked dec c ci0 sc = (d, sc')"
  shows "touchedCount sc' \<le> mx"
  using assms(5)
proof (cases rule: decideLocked_cases)
  case refused
  then show ?thesis using assms(2) by simp
next
  case (forwarded v)
  note d = targets_distinct [OF forwarded(1,2)]
  have "length (fresh_targets sc (vd_targets v)) \<le> 256"
    using targets_few [OF forwarded(1,2)] length_filter_le [of _ "vd_targets v"] unfolding fresh_targets_def by (rule le_trans [rotated])
  then have "touchedCount sc + int (length (fresh_targets sc (vd_targets v))) < 2 ^ 63" using assms(2,4) by linarith
  moreover have "distinct (ct_touched sc)" using assms(1) by (simp add: counter_ok_def)
  note devicesTouched_counter [OF this d, of ci0]
  ultimately have "touchedCount sc + int (length (fresh_targets sc (vd_targets v))) \<le> mx"
    using within_cap [OF forwarded(1,2) _ assms(3)] by simp
  then show ?thesis using forwarded(4) d by (simp add: touch_def dedupe_distinct touch_fold_count)
qed

lemma proxy_decide_counter:
  assumes "proxy_decide dec sha rs ended c cs = (r, cs')"
  shows "(\<forall>k. k \<noteq> counterKey c \<longrightarrow> counters_get cs' k = counters_get cs k)
    \<and> (counters_get cs' (counterKey c) = counters_get cs (counterKey c) \<and> forwarded_devices r = {}
       \<or> (\<exists>d. r = Inr d \<and> decideLocked dec c (callInfo sha rs c) (counters_get cs (counterKey c))
             = (d, counters_get cs' (counterKey c))))"
  using assms
  by (auto simp: proxy_decide_def Let_def counters_get_def forwarded_devices_def refusalVerdict_def split: if_splits prod.splits)

lemma gate_step_ok:
  assumes "gate_step dec sha rs s t" "\<forall>k. counter_ok (counters_get (fst s) k) (snd s k)"
  shows "\<forall>k. counter_ok (counters_get (fst t) k) (snd t k)"
  using assms
proof (induction rule: gate_step.induct)
  case (decided ended c cs r cs' F)
  show ?case
  proof
    fix k
    show "counter_ok (counters_get (fst (cs', F(counterKey c := F (counterKey c) \<union> forwarded_devices r))) k)
        (snd (cs', F(counterKey c := F (counterKey c) \<union> forwarded_devices r)) k)"
      using proxy_decide_counter [OF decided(1)] decided(2) decideLocked_ok by (cases "k = counterKey c") fastforce+
  qed
qed

lemma gate_step_within:
  assumes "gate_step dec sha rs s t" "\<forall>k. counter_ok (counters_get (fst s) k) (snd s k)"
    "\<forall>k. touchedCount (counters_get (fst s) k) \<le> mx" "0 < mx" "mx + 256 < 2 ^ 63"
  shows "\<forall>k. touchedCount (counters_get (fst t) k) \<le> mx"
  using assms
proof (induction rule: gate_step.induct)
  case (decided ended c cs r cs' F)
  show ?case
  proof
    fix k
    show "touchedCount (counters_get (fst (cs', F(counterKey c := F (counterKey c) \<union> forwarded_devices r))) k) \<le> mx"
      using proxy_decide_counter [OF decided(1)] decided(2-5) decideLocked_within by (cases "k = counterKey c") fastforce+
  qed
qed

lemma reachable_ok:
  "(gate_step dec sha rs)\<^sup>*\<^sup>* (Map.empty, \<lambda>_. {}) t \<Longrightarrow> \<forall>k. counter_ok (counters_get (fst t) k) (snd t k)"
proof (induction rule: rtranclp_induct)
  case base
  then show ?case by (simp add: counters_get_def counter_ok_new)
next
  case (step t u)
  then show ?case using gate_step_ok by blast
qed

lemma reachable_within:
  assumes "0 < mx" "mx + 256 < 2 ^ 63"
  shows "(gate_step dec sha rs)\<^sup>*\<^sup>* (Map.empty, \<lambda>_. {}) t \<Longrightarrow> \<forall>k. touchedCount (counters_get (fst t) k) \<le> mx"
proof (induction rule: rtranclp_induct)
  case base
  then show ?case using assms(1) by (simp add: counters_get_def new_counter_def touchedCount_def)
next
  case (step t u)
  then show ?case using gate_step_within [OF step(2) reachable_ok [OF step(1)] _ assms] by blast
qed

lemma devices_bounded:
  assumes "(gate_step dec sha rs)\<^sup>*\<^sup>* (Map.empty, \<lambda>_. {}) (cs, F)" "0 < mx" "mx + 256 < 2 ^ 63"
  shows "finite (F k) \<and> int (card (F k)) \<le> mx"
  using reachable_ok [OF assms(1)] reachable_within [OF assms(2,3,1)]
  by (auto simp: counter_ok_def dest!: spec [of _ k])

end

section \<open>The gate of the program\<close>

definition max_devices :: "gate \<Rightarrow> int" where
  "max_devices g = (case g_policy g of None \<Rightarrow> 0 | Some p \<Rightarrow> sl_max_devices (df_session (po_defaults p)))"

interpretation program_gate: device_gate "\<lambda>ci. Some (Decide num g ci)" "max_devices g"
proof (unfold_locales, goal_cases)
  case (1 ci v)
  then show ?case using Decide_forward_devices(1) by auto
next
  case (2 ci v)
  then show ?case using Decide_forward_devices(2) by auto
next
  case (3 ci v)
  then have f: "vd_forward (Decide num g ci)" and v: "v = Decide num g ci" by auto
  obtain p where p: "g_policy g = Some p" using Decide_forward_devices(4) [OF f] by auto
  show ?case using Decide_forward_devices(3) [OF f p] 3(3,4) p
    by (auto simp: v max_devices_def devices_full_def devices_total_def gate_request_def devicesTouched_def)
qed

section \<open>Properties\<close>

text \<open>Property C2 (invariant). Whatever calls are decided, of whatever keys, in whatever order, the forwarded calls
  of one counter key (a principal over HTTP, the process on stdio) never name more distinct
  devices than the policy's \<open>max_devices\<close>: the counter read and updated around each decision never
  undercounts, even past the 4096 names it remembers. The cap plus one call's targets stays below
  \<open>2 ^ 63\<close>, so that the Go sum does not wrap.\<close>

theorem key_devices_bounded:
  assumes "(gate_step (\<lambda>ci. Some (Decide num g ci)) sha rs)\<^sup>*\<^sup>* (Map.empty, \<lambda>_. {}) (cs, F)"
    and "0 < max_devices g" "max_devices g + 256 < 2 ^ 63"
  shows "finite (F k) \<and> int (card (F k)) \<le> max_devices g"
  using assms by (rule program_gate.devices_bounded)

definition demo_pcall :: pcall where
  "demo_pcall = \<lparr>cc_server = ''ssh'', cc_up_version = ''2025-11-25'', cc_up_era = ''stateful'', cc_tool = ''get_facts'',
     cc_arguments = ci_arguments demo_call, cc_agent = \<lparr>ag_session = None, ag_version = ''2025-11-25'', ag_can_elicit = False\<rparr>,
     cc_transport = TransportHTTP, cc_principal = ''alice'', cc_session_key = ''s1''\<rparr>"

definition demo_info :: call_info where
  "demo_info = (callInfo id [] demo_pcall)\<lparr>ci_devices_touched := touchedCount new_counter,
     ci_counted := Some (counted new_counter)\<rparr>"

lemma demo_info_sel [simp]:
  "ci_server demo_info = ''ssh''" "ci_tool demo_info = ''get_facts''" "ci_arguments demo_info = ci_arguments demo_call"
  "ci_devices_touched demo_info = 0" "ci_counted demo_info = Some (\<lambda>_. False)" "ci_pending_holds demo_info = 0"
  "\<not> raises demo_info"
  by (simp_all add: demo_info_def callInfo_def demo_pcall_def Let_def touchedCount_def new_counter_def counted_def
      raises_def find_route_def zero_route_def fun_eq_iff)

lemma demo_info_forward:
  "vd_forward (Decide (\<lambda>n. Some n) demo_gate demo_info) \<and> vd_targets (Decide (\<lambda>n. Some n) demo_gate demo_info) = [''leaf1'']"
proof -
  have l: "lookup_profile demo_gate demo_info = Some demo_gate_profile" "lookup_tool demo_gate demo_info = Some demo_read_spec"
    by (simp_all add: lookup_tool_def lookup_profile_def demo_gate_def demo_gate_profile_def)
  let ?d = "gd_classify (gd_start demo_info) (Some demo_gate_profile) (Some demo_read_spec) [(''host'', JStr ''leaf1'')]"
  have d: "gate_decide (\<lambda>n. Some n) demo_gate demo_info = decide_rules demo_gate (?d\<lparr>gd_targets := [''leaf1'']\<rparr>)"
    using demo_result by (simp add: gate_decide_def l demo_parse demo_caps decide_args_def demo_targets
        argumentFindings_def gate_result_def Let_def)
  have c: "gd_class ?d = ReadOperational" using demo_result by (simp add: gd_classify_def gate_result_def Let_def)
  have q: "gate_request demo_gate demo_info ReadOperational [''leaf1''] =
      demo_gate_request\<lparr>rq_session := \<lparr>se_devices_touched = 0, se_pending_holds = 0\<rparr>\<rparr>"
    by (simp add: gate_request_def demo_gate_request_def demo_gate_def gate_resolve_def Known_def
        demo_resolver_def devicesTouched_def zero_target_def)
  have "dc_effect (Evaluate (Some demo_policy) (demo_gate_request\<lparr>rq_session := \<lparr>se_devices_touched = 0, se_pending_holds = 0\<rparr>\<rparr>)) = Allow"
    "dc_obligations (Evaluate (Some demo_policy) (demo_gate_request\<lparr>rq_session := \<lparr>se_devices_touched = 0, se_pending_holds = 0\<rparr>\<rparr>)) = [''redact'']"
    by code_simp+
  then show ?thesis by (simp add: Decide_def verdict_forward_iff d c q forwardable_def)
qed

lemma demo_reencode: "\<exists>args. reencode (ci_arguments demo_call) = Inr args"
proof -
  have "decode_value Some (ci_arguments demo_call) = Some (JObj [(''host'', JStr ''leaf1'')], [])" by code_simp
  then show ?thesis using demo_text by (simp add: reencode_def Let_def)
qed

lemma demo_gate_step:
  "\<exists>cs. (gate_step (\<lambda>ci. Some (Decide (\<lambda>n. Some n) demo_gate ci)) id [])\<^sup>*\<^sup>* (Map.empty, \<lambda>_. {})
     (cs, (\<lambda>_. {})(''principal:alice'' := {''leaf1''}))"
proof -
  obtain args where a: "reencode (ci_arguments demo_call) = Inr args" using demo_reencode by blast
  obtain d where d: "decideLocked (\<lambda>ci. Some (Decide (\<lambda>n. Some n) demo_gate ci)) demo_pcall (callInfo id [] demo_pcall) new_counter
        = (d, touch new_counter [''leaf1''])" "vd_forward (pd_v d)" "vd_targets (pd_v d) = [''leaf1'']"
    using demo_info_forward a by (simp add: decideLocked_def Let_def flip: demo_info_def) (simp add: demo_pcall_def)
  have "length (ci_arguments demo_call) = 16" by (simp add: demo_call_def)
  then have "proxy_decide (\<lambda>ci. Some (Decide (\<lambda>n. Some n) demo_gate ci)) id [] False demo_pcall Map.empty
      = (Inr d, [''principal:alice'' \<mapsto> touch new_counter [''leaf1'']])"
    using d by (simp add: proxy_decide_def Let_def counters_get_def maxArgumentBytes_def counterKey_def)
        (simp add: demo_pcall_def)
  from gate_step.decided [OF this, of "\<lambda>_. {}"] d(2,3) show ?thesis
    by (intro exI r_into_rtranclp) (simp add: forwarded_devices_def counterKey_def demo_pcall_def)
qed

theorem key_devices_bounded_witness:
  "\<exists>F. F ''principal:alice'' = {''leaf1''} \<and> int (card (F ''principal:alice'' :: string set)) \<le> max_devices demo_gate"
proof -
  obtain cs where r: "(gate_step (\<lambda>ci. Some (Decide (\<lambda>n. Some n) demo_gate ci)) id [])\<^sup>*\<^sup>* (Map.empty, \<lambda>_. {})
     (cs, (\<lambda>_. {})(''principal:alice'' := {''leaf1''}))" using demo_gate_step by blast
  have "0 < max_devices demo_gate" "max_devices demo_gate + 256 < 2 ^ 63"
    by (simp_all add: max_devices_def demo_policy_def)
  from key_devices_bounded [OF r this, of "''principal:alice''"] show ?thesis
    by (intro exI [of _ "(\<lambda>_. {})(''principal:alice'' := {''leaf1''})"]) simp
qed

text \<open>Property C3 (error). The proxy fails closed around any gate: it forwards a call only when the gate returned a
  verdict that forwards, the arguments are at most 64 KiB and re-encode, and then sends the
  re-encoded arguments and counts the targets; a panic of the gate, oversized arguments and
  arguments it cannot re-encode are denied with their rule ids and a non-empty error, and leave every
  count as it was.\<close>

theorem proxy_fails_closed:
  assumes "proxy_decide dec sha rs ended c cs = (Inr d, cs')"
  defines "ci \<equiv> (callInfo sha rs c)\<lparr>ci_devices_touched := touchedCount (counters_get cs (counterKey c)),
     ci_counted := Some (counted (counters_get cs (counterKey c)))\<rparr>"
  shows "if vd_forward (pd_v d) then
      \<not> ended \<and> length (cc_arguments c) \<le> 65536 \<and> reencode (cc_arguments c) = Inr (pd_args d)
      \<and> (\<exists>v. dec ci = Some v \<and> vd_forward v \<and> pd_v d = v\<lparr>vd_error := []\<rparr>
           \<and> cs' = cs(counterKey c \<mapsto> touch (counters_get cs (counterKey c)) (vd_targets v)))
    else vd_error (pd_v d) \<noteq> [] \<and> pd_args d = None \<and> (\<forall>k. counters_get cs' k = counters_get cs k)
      \<and> (65536 < length (cc_arguments c) \<longrightarrow> vd_rule_id (pd_v d) = RuleBadArguments)
      \<and> (length (cc_arguments c) \<le> 65536 \<and> dec ci = None \<longrightarrow> vd_rule_id (pd_v d) = ruleInternalError)"
proof (cases "65536 < length (cc_arguments c)")
  case True
  then show ?thesis using assms(1)
    by (auto simp: proxy_decide_def Let_def maxArgumentBytes_def refusalVerdict_def refusalText_def)
next
  case False
  then obtain sc' where l: "decideLocked dec c (callInfo sha rs c) (counters_get cs (counterKey c)) = (d, sc')"
      and cs': "cs' = cs(counterKey c \<mapsto> sc')" and e: "\<not> ended"
    using assms(1) by (auto simp: proxy_decide_def Let_def maxArgumentBytes_def split: if_splits prod.splits)
  have same: "counters_get (cs(counterKey c \<mapsto> counters_get cs (counterKey c))) k = counters_get cs k" for k
    by (simp add: counters_get_def)
  show ?thesis
  proof (cases "dec ci")
    case None
    then show ?thesis using l False e cs' same
      by (auto simp: decideLocked_def Let_def ci_def refusalVerdict_def refusalText_def)
  next
    case (Some v)
    then show ?thesis using l False e cs' same
      by (auto simp: decideLocked_def Let_def ci_def refusalVerdict_def refusalText_def split: if_splits sum.splits)
  qed
qed

theorem proxy_fails_closed_witness:
  "\<exists>d cs'. proxy_decide (\<lambda>_. None) id [] False demo_pcall Map.empty = (Inr d, cs')
     \<and> \<not> vd_forward (pd_v d) \<and> vd_rule_id (pd_v d) = ruleInternalError \<and> vd_error (pd_v d) \<noteq> []"
proof -
  have n: "length (cc_arguments demo_pcall) = 16" by (simp add: demo_pcall_def demo_call_def)
  then obtain d cs' where p: "proxy_decide (\<lambda>_. None) id [] False demo_pcall Map.empty = (Inr d, cs')" "\<not> vd_forward (pd_v d)"
    by (simp add: proxy_decide_def decideLocked_def Let_def maxArgumentBytes_def refusalVerdict_def)
  from proxy_fails_closed [OF p(1)] n p show ?thesis by (intro exI [of _ d] exI [of _ cs']) simp
qed

section \<open>The narrowed schema\<close>

lemma map_of_narrow: "map_of (narrow_properties named props) k = (if k \<in> set named then map_of props k else None)"
  by (induction props) (auto simp: narrow_properties_def)

lemma offer_properties_other:
  "k \<noteq> ''properties'' \<Longrightarrow> map_of (fst (offer_properties m named)) k = map_of m k"
  by (simp add: offer_properties_def split: option.split json.split)

lemma offer_required_other:
  "k \<noteq> ''required'' \<Longrightarrow> map_of (offer_required m named out) k = map_of out k"
  by (simp add: offer_required_def split: option.split json.split)

lemma keep_required_iff: "keep_required named v \<longleftrightarrow> (\<exists>s \<in> set named. v = JStr s)"
  by (cases v) auto

text \<open>Property C35 (functional). The input schema an agent is shown for a tool with a closed argument list offers
  exactly the named properties with their own schemas, requires only named ones, forbids any
  other property, and is otherwise the upstream's schema; the names reported as dropped are, in
  order, the properties that were taken away.\<close>

theorem narrowSchema_spec:
  assumes "narrowSchema (JObj m) named = (schema, dropped)"
  shows "\<exists>out. schema = JObj out \<and> map_of out ''additionalProperties'' = Some (JBool False)
    \<and> (\<forall>props. map_of m ''properties'' = Some (JObj props) \<longrightarrow>
         (\<exists>kept. map_of out ''properties'' = Some (JObj kept)
            \<and> (\<forall>k. map_of kept k = (if k \<in> set named then map_of props k else None)))
         \<and> set dropped = set (go_keys props) - set named)
    \<and> sorted dropped
    \<and> (\<forall>req. map_of m ''required'' = Some (JArr req) \<longrightarrow>
         map_of out ''required'' = Some (JArr (filter (\<lambda>v. \<exists>s \<in> set named. v = JStr s) req)))
    \<and> (\<forall>k. k \<notin> {''properties'', ''required'', ''additionalProperties''} \<longrightarrow> map_of out k = map_of m k)"
proof -
  define out where "out = put ''additionalProperties'' (JBool False) (offer_required m named (fst (offer_properties m named)))"
  have e: "schema = JObj out" "dropped = sort (snd (offer_properties m named))"
    using assms by (auto simp: narrowSchema_def out_def split: prod.splits)
  have p: "map_of out ''properties'' = Some (JObj (narrow_properties named props)) \<and> set dropped = set (go_keys props) - set named"
    if "map_of m ''properties'' = Some (JObj props)" for props
    using e that by (auto simp: out_def offer_required_other offer_properties_def)
  have q: "map_of out ''required'' = Some (JArr (filter (\<lambda>v. \<exists>s \<in> set named. v = JStr s) req))"
    if "map_of m ''required'' = Some (JArr req)" for req
    using that by (simp add: out_def offer_required_def keep_required_iff cong: filter_cong)
  have o: "map_of out k = map_of m k" if "k \<notin> {''properties'', ''required'', ''additionalProperties''}" for k
    using that by (simp add: out_def offer_required_other offer_properties_other)
  show ?thesis
  proof (rule exI [of _ out], intro conjI allI impI)
    show "\<exists>kept. map_of out ''properties'' = Some (JObj kept)
        \<and> (\<forall>k. map_of kept k = (if k \<in> set named then map_of props k else None))"
      if "map_of m ''properties'' = Some (JObj props)" for props
      using p [OF that] map_of_narrow by blast
  qed (use e p q o in \<open>auto simp: out_def\<close>)
qed

theorem narrowSchema_spec_witness:
  "\<exists>out. fst (narrowSchema (JObj [(''type'', JStr ''object''),
        (''properties'', JObj [(''host'', JNull), (''user'', JNull)])]) [''host'']) = JObj out
     \<and> map_of out ''type'' = Some (JStr ''object'') \<and> map_of out ''additionalProperties'' = Some (JBool False)"
proof -
  obtain schema dropped where e: "narrowSchema (JObj [(''type'', JStr ''object''),
        (''properties'', JObj [(''host'', JNull), (''user'', JNull)])]) [''host''] = (schema, dropped)" by fastforce
  from narrowSchema_spec [OF e] show ?thesis
  proof (elim exE conjE)
    fix out assume o: "schema = JObj out" "map_of out ''additionalProperties'' = Some (JBool False)"
      "\<forall>k. k \<notin> {''properties'', ''required'', ''additionalProperties''} \<longrightarrow> map_of out k = map_of [(''type'', JStr ''object''),
        (''properties'', JObj [(''host'', JNull), (''user'', JNull)])] k"
    have "map_of out ''type'' = Some (JStr ''object'')" using spec [OF o(3), of "''type''"] by simp
    then show ?thesis using e o(1,2) by simp
  qed
qed

section \<open>The arguments the upstream receives\<close>

lemma renum_id: "(\<And>t. f t = t) \<Longrightarrow> renum f v = v"
proof (induction f v rule: renum.induct)
  case (3 f m)
  have "(case x of (k, v) \<Rightarrow> (k, renum f v)) = x" if "x \<in> set m" for x
    using 3(1) [OF that _ 3(2)] by (cases x) auto
  then show ?case by (simp add: map_idI)
qed (auto intro: map_idI)

lemma reencode_reads_back:
  assumes "parseArguments num raw = Inr a" "reencode raw = Inr args"
  shows "case args of None \<Rightarrow> a = [] | Some text \<Rightarrow> parseArguments num text = Inr (sort_args a)"
proof (cases "trim_space raw = [] \<or> trim_space raw = ''null''")
  case True
  then show ?thesis using assms by (auto simp: reencode_def parseArguments_def Let_def)
next
  case False
  then obtain m rest where d: "decode_value Some (trim_space raw) = Some (JObj m, rest)" and args: "args = Some (encode_json (JObj m))"
    using assms(2) by (auto simp: reencode_def Let_def split: option.splits prod.splits json.splits if_splits)
  have a: "a = renum_map (num_text num) m" "clean_args num m"
    using parseArguments_decode [OF assms(1) d] False by auto
  obtain v where v: "JObj m = renum (num_text Some) v" "clean_within Some 0 v"
    using parse_clean(1) [OF d [unfolded decode_value_def]] by auto
  have "renum (num_text Some) v = v" by (rule renum_id) (simp add: num_text_def)
  then have c: "clean Some (JObj m)" "json_depth (JObj m) \<le> maxNestingDepth" using v by (auto simp: clean_within_def)
  then have "clean num (JObj m)" using a(2) by (auto simp: clean_args_def)
  from parseArguments_encode [OF this c(2)] show ?thesis using a(1) args by simp
qed

text \<open>Property C4 (roundtrip). The upstream receives the object the gate checked: when the gate's decoder reads the
  agent's bytes as \<open>a\<close> and the proxy re-encodes them, decoding what it sends gives exactly \<open>a\<close>, key
  by key and value by value, with the keys of every object in sorted order; with no arguments
  it sends none.\<close>

theorem reencode_faithful:
  assumes "parseArguments num raw = Inr a" "reencode raw = Inr args"
  shows "case args of None \<Rightarrow> a = [] | Some text \<Rightarrow> parseArguments num text = Inr (sort_args a)"
  using assms by (rule reencode_reads_back)

theorem reencode_faithful_witness:
  "\<exists>args. reencode (ci_arguments demo_call) = Inr args
    \<and> (case args of None \<Rightarrow> [(''host'', JStr ''leaf1'')] = []
        | Some text \<Rightarrow> parseArguments (\<lambda>n. Some n) text = Inr (sort_args [(''host'', JStr ''leaf1'')]))"
proof -
  obtain args where a: "reencode (ci_arguments demo_call) = Inr args" using demo_reencode by blast
  show ?thesis using a reencode_faithful [OF demo_parse a] by blast
qed

end
