(* ===== verification/Proxy_Prompts.thy ===== *)
theory Proxy_Prompts
  imports Proxy_Gate "HOL-Library.AList" "HOL-Library.Word"
begin

text \<open>
  \<^verbatim>\<open>internal/proxy/input.go\<close>, the calls open on one upstream: who a server-initiated prompt belongs to, the
  ended calls that still block it (\<^verbatim>\<open>orphan\<close>), a call's prompt slot, and the limiter of the refusal log.
  A pointer to an \<^verbatim>\<open>inflight\<close> is a number handed out by a counter. Every operation holds \<^verbatim>\<open>upstream.mu\<close>, so
  each is one step. A Go map is an association list; where the code ranges over one, the order
  shows only in the list of reaped records, which is for the log. Times are
  nanoseconds of the Unix clock.
\<close>

section \<open>Refusals and calls\<close>

record prompt_refusal =
  rf_server :: string
  rf_tool :: string
  rf_kind :: string
  rf_reason :: string

definition newRefusal :: "string \<Rightarrow> string \<Rightarrow> string \<Rightarrow> string \<Rightarrow> prompt_refusal" where
  "newRefusal server tool kind reason = \<lparr>rf_server = server, rf_tool = tool, rf_kind = kind, rf_reason = reason\<rparr>"

definition refusal_text :: "prompt_refusal \<Rightarrow> string" where
  "refusal_text r =
     ''fathomgate refused an input request ('' @ rf_kind r @ '') from upstream '' @ rf_server r
     @ (if rf_tool r = [] then [] else '' during '' @ rf_tool r) @ '': '' @ rf_reason r"

record inflight =
  if_agent :: agent_peer
  if_tool :: string
  if_principal :: string
  if_key :: string
  if_refused :: "prompt_refusal option"
  if_note :: "prompt_refusal option"
  if_prompting :: bool
  if_prompts :: int

definition maxPromptsPerCall :: int where "maxPromptsPerCall = 10"
definition maxOrphansPerPrincipal :: int where "maxOrphansPerPrincipal = 256"

record orphan =
  or_principal :: string
  or_expires :: int
  or_overflow :: int

record up_calls =
  uc_calls :: "(nat, inflight) gomap"
  uc_next :: nat
  uc_orphans :: "(string, orphan) gomap"
  uc_orphansOf :: "(string, int) gomap"
  uc_overflow :: "(string, orphan) gomap"

definition new_up_calls :: up_calls where
  "new_up_calls = \<lparr>uc_calls = [], uc_next = 0, uc_orphans = [], uc_orphansOf = [], uc_overflow = []\<rparr>"

section \<open>Keys of agent sessions\<close>

definition localKeyPrefix :: string where "localKeyPrefix = ''l''"
definition requestKeyPrefix :: string where "requestKeyPrefix = ''r''"

text \<open>What \<^verbatim>\<open>localKey\<close> answers: the key \<^verbatim>\<open>Run\<close> recorded for the session, or the empty string. Waiting for a
  \<^verbatim>\<open>Run\<close> that is connecting decides only which table is read.\<close>

definition run_key :: "nat \<Rightarrow> string" where
  "run_key n = localKeyPrefix @ nat_text n"

definition localKey :: "(nat, string) gomap \<Rightarrow> nat \<Rightarrow> string" where
  "localKey locals ss = (case map_of locals ss of None \<Rightarrow> [] | Some key \<Rightarrow> key)"

text \<open>The counter is a \<^verbatim>\<open>uint64\<close>.\<close>

definition requestKey :: "64 word \<Rightarrow> string \<times> 64 word" where
  "requestKey n = (requestKeyPrefix @ nat_text (unat (n + 1)), n + 1)"

definition agentSessionKey :: "(nat \<Rightarrow> string) \<Rightarrow> (nat, string) gomap \<Rightarrow> pcall \<Rightarrow> 64 word \<Rightarrow> string \<times> 64 word" where
  "agentSessionKey ID locals c n =
     (case ag_session (cc_agent c) of
        None \<Rightarrow> requestKey n
      | Some ss \<Rightarrow>
          if ID ss \<noteq> [] \<and> \<not> agent_stateless (cc_agent c) then (''s'' @ ID ss, n)
          else if cc_principal c = [] \<and> localKey locals ss \<noteq> [] then (localKey locals ss, n)
          else requestKey n)"

section \<open>Calls and ended calls\<close>

definition begin_call :: "pcall \<Rightarrow> int \<Rightarrow> up_calls \<Rightarrow> nat \<times> up_calls" where
  "begin_call c prompts u =
     (uc_next u,
      u\<lparr>uc_calls := AList.update (uc_next u)
           \<lparr>if_agent = cc_agent c, if_tool = cc_tool c, if_principal = cc_principal c, if_key = cc_session_key c,
            if_refused = None, if_note = None, if_prompting = False, if_prompts = prompts\<rparr> (uc_calls u),
        uc_next := Suc (uc_next u)\<rparr>)"

text \<open>The zero \<^verbatim>\<open>time.Time\<close>, year one.\<close>

definition zero_time :: int where "zero_time = - 62135596800 * 1000000000"

definition later :: "int \<Rightarrow> int \<Rightarrow> int" where
  "later a b = (if b < a then a else b)"

definition count_of :: "(string, int) gomap \<Rightarrow> string \<Rightarrow> int" where
  "count_of m p = (case map_of m p of None \<Rightarrow> 0 | Some n \<Rightarrow> n)"

definition uncount :: "(string, int) gomap \<Rightarrow> string \<Rightarrow> (string, int) gomap" where
  "uncount m p = (let n = count_of m p - 1 in if n \<le> 0 then AList.delete p m else AList.update p n m)"

definition expired :: "int \<Rightarrow> orphan \<Rightarrow> bool" where
  "expired now r \<longleftrightarrow> \<not> now < or_expires r"

definition pruneOrphans :: "int \<Rightarrow> up_calls \<Rightarrow> orphan list \<times> up_calls" where
  "pruneOrphans now u =
     (let keyed = filter (\<lambda>(k, r). expired now r) (uc_orphans u);
          over = filter (\<lambda>(p, r). expired now r) (uc_overflow u)
      in (map snd keyed @ map snd over,
          u\<lparr>uc_orphans := filter (\<lambda>(k, r). \<not> expired now r) (uc_orphans u),
            uc_orphansOf := foldl (\<lambda>m (k, r). uncount m (or_principal r)) (uc_orphansOf u) keyed,
            uc_overflow := filter (\<lambda>(p, r). \<not> expired now r) (uc_overflow u)\<rparr>))"

definition prune :: "int \<Rightarrow> up_calls \<Rightarrow> orphan list \<times> up_calls" where
  "prune now u = pruneOrphans now u"

text \<open>The ended call is remembered: under its key, or past the quota in its principal's overflow record.\<close>

definition zero_orphan :: orphan where
  "zero_orphan = \<lparr>or_principal = [], or_expires = zero_time, or_overflow = 0\<rparr>"

definition record_ended :: "inflight \<Rightarrow> int \<Rightarrow> up_calls \<Rightarrow> bool \<times> up_calls" where
  "record_ended f expires u =
     (let key = if_key f; p = if_principal f in
      case (if key \<noteq> [] then map_of (uc_orphans u) key else None) of
        Some r \<Rightarrow>
          (False, u\<lparr>uc_orphans := AList.update key
             \<lparr>or_principal = or_principal r, or_expires = later (or_expires r) expires, or_overflow = 0\<rparr> (uc_orphans u)\<rparr>)
      | None \<Rightarrow>
          if key \<noteq> [] \<and> count_of (uc_orphansOf u) p < maxOrphansPerPrincipal then
            (False, u\<lparr>uc_orphans := AList.update key \<lparr>or_principal = p, or_expires = expires, or_overflow = 0\<rparr> (uc_orphans u),
                      uc_orphansOf := AList.update p (count_of (uc_orphansOf u) p + 1) (uc_orphansOf u)\<rparr>)
          else
            (let r = (case map_of (uc_overflow u) p of None \<Rightarrow> zero_orphan | Some r \<Rightarrow> r) in
             (map_of (uc_overflow u) p = None,
              u\<lparr>uc_overflow := AList.update p
                 \<lparr>or_principal = p, or_expires = later (or_expires r) expires, or_overflow = or_overflow r + 1\<rparr> (uc_overflow u)\<rparr>)))"

text \<open>\<open>end\<close> of the call \<open>f\<close> at address \<open>a\<close>: the reaped records, whether the principal just went over its quota.\<close>

definition end_call :: "nat \<Rightarrow> inflight \<Rightarrow> int \<Rightarrow> int \<Rightarrow> up_calls \<Rightarrow> orphan list \<times> bool \<times> up_calls" where
  "end_call a f now expires u =
     (case pruneOrphans now (u\<lparr>uc_calls := AList.delete a (uc_calls u)\<rparr>) of
        (reaped, u1) \<Rightarrow> if \<not> now < expires then (reaped, False, u1) else (reaped, record_ended f expires u1))"

section \<open>Attribution\<close>

datatype attribution_error = NotOneCall nat | EndedElsewhere

record attribution =
  at_sole :: "nat option"
  at_err :: "attribution_error option"
  at_endedCallsOf :: "string list"
  at_inFlightOf :: "string list"

definition principal_set :: "string list \<Rightarrow> string list" where
  "principal_set ps = sort (remdups (map logPrincipal ps))"

definition attribute :: "int \<Rightarrow> up_calls \<Rightarrow> attribution" where
  "attribute now u =
     (case uc_calls u of
        [(a, f)] \<Rightarrow>
          (let ended = map (\<lambda>(k, r). or_principal r) (filter (\<lambda>(k, r). \<not> expired now r \<and> k \<noteq> if_key f) (uc_orphans u))
                       @ map fst (filter (\<lambda>(p, r). \<not> expired now r) (uc_overflow u))
           in if ended \<noteq> [] then
                \<lparr>at_sole = Some a, at_err = Some EndedElsewhere, at_endedCallsOf = principal_set ended, at_inFlightOf = []\<rparr>
              else \<lparr>at_sole = Some a, at_err = None, at_endedCallsOf = [], at_inFlightOf = []\<rparr>)
      | cs \<Rightarrow>
          \<lparr>at_sole = None, at_err = Some (NotOneCall (length cs)), at_endedCallsOf = [],
           at_inFlightOf = principal_set (map (\<lambda>(a, f). if_principal f) cs)\<rparr>)"

definition errEndedElsewhere :: string where
  "errEndedElsewhere = ''it cannot be attributed to one call: another agent session's call on this upstream has ended recently and the upstream may still be working on it''"

fun attribution_text :: "attribution_error \<Rightarrow> string" where
  "attribution_text (NotOneCall n) = ''it cannot be attributed to one call ('' @ nat_text n @ '' in flight)''"
| "attribution_text EndedElsewhere = errEndedElsewhere"

section \<open>Prompt slots and refusals\<close>

definition errTooManyPrompts :: string where
  "errTooManyPrompts = ''more than '' @ nat_text (nat maxPromptsPerCall) @ '' prompts in one call''"

definition errStatelessClient :: string where
  "errStatelessClient = ''this client speaks the stateless era (2026-07-28) and cannot receive a server-initiated prompt; see ADR 0014''"

definition errNoFormElicitation :: string where
  "errNoFormElicitation = ''this client does not support form elicitation''"

definition promptable :: "inflight \<Rightarrow> string option" where
  "promptable f =
     (if agent_stateless (if_agent f) then Some errStatelessClient
      else if \<not> ag_can_elicit (if_agent f) then Some errNoFormElicitation
      else None)"

text \<open>A change of the call at an address.\<close>

definition upd_call :: "nat \<Rightarrow> (inflight \<Rightarrow> inflight) \<Rightarrow> up_calls \<Rightarrow> up_calls" where
  "upd_call a g u = u\<lparr>uc_calls := map (\<lambda>(b, f). (b, if b = a then g f else f)) (uc_calls u)\<rparr>"

definition startPrompt :: "nat \<Rightarrow> inflight \<Rightarrow> up_calls \<Rightarrow> string option \<times> up_calls" where
  "startPrompt a f u =
     (if if_prompting f then (Some ''another prompt from this upstream is still open for this call'', u)
      else if maxPromptsPerCall \<le> if_prompts f then (Some errTooManyPrompts, u)
      else (None, upd_call a (\<lambda>f. f\<lparr>if_prompting := True, if_prompts := if_prompts f + 1\<rparr>) u))"

definition endPrompt :: "nat \<Rightarrow> up_calls \<Rightarrow> up_calls" where
  "endPrompt a u = upd_call a (\<lambda>f. f\<lparr>if_prompting := False\<rparr>) u"

text \<open>What \<open>refuse\<close>, \<open>refuseUnattributed\<close> and \<open>refuseAsNote\<close> leave on the calls; a first entry is kept.\<close>

definition first_refusal :: "prompt_refusal \<Rightarrow> prompt_refusal option \<Rightarrow> prompt_refusal option" where
  "first_refusal r old = (case old of None \<Rightarrow> Some r | Some _ \<Rightarrow> old)"

definition set_refused :: "nat \<Rightarrow> prompt_refusal \<Rightarrow> up_calls \<Rightarrow> up_calls" where
  "set_refused a r u = upd_call a (\<lambda>f. f\<lparr>if_refused := first_refusal r (if_refused f)\<rparr>) u"

definition set_note :: "nat \<Rightarrow> prompt_refusal \<Rightarrow> up_calls \<Rightarrow> up_calls" where
  "set_note a r u = upd_call a (\<lambda>f. f\<lparr>if_note := first_refusal r (if_note f)\<rparr>) u"

definition set_notes :: "prompt_refusal \<Rightarrow> up_calls \<Rightarrow> up_calls" where
  "set_notes r u = u\<lparr>uc_calls := map (\<lambda>(b, f). (b, f\<lparr>if_note := first_refusal r (if_note f)\<rparr>)) (uc_calls u)\<rparr>"

definition refusalsFor :: "inflight \<Rightarrow> prompt_refusal option \<times> prompt_refusal option" where
  "refusalsFor f = (if_refused f, if_note f)"

section \<open>Runs\<close>

text \<open>A run of one upstream: its state, the latest clock value seen by a prune (concurrent calls read the
  clock before they take the lock, so values need not arrive in order), and the calls that have ended,
  each with its session key, its principal and how long it blocks.\<close>

record ended =
  en_key :: string
  en_principal :: string
  en_expires :: int

inductive up_reach :: "up_calls \<Rightarrow> int \<Rightarrow> ended list \<Rightarrow> bool" where
  up_new: "up_reach new_up_calls zero_time []"
| up_begin: "up_reach u t h \<Longrightarrow> prompts \<le> maxPromptsPerCall \<Longrightarrow> up_reach (snd (begin_call c prompts u)) t h"
| up_end: "up_reach u t h \<Longrightarrow> map_of (uc_calls u) a = Some f \<Longrightarrow>
    up_reach (snd (snd (end_call a f now expires u))) (max t now) (\<lparr>en_key = if_key f, en_principal = if_principal f, en_expires = expires\<rparr> # h)"
| up_prune: "up_reach u t h \<Longrightarrow> up_reach (snd (prune now u)) (max t now) h"
| up_start: "up_reach u t h \<Longrightarrow> map_of (uc_calls u) a = Some f \<Longrightarrow> up_reach (snd (startPrompt a f u)) t h"
| up_stop: "up_reach u t h \<Longrightarrow> up_reach (endPrompt a u) t h"
| up_refuse: "up_reach u t h \<Longrightarrow> up_reach (set_refused a r u) t h"
| up_note: "up_reach u t h \<Longrightarrow> up_reach (set_note a r u) t h"
| up_notes: "up_reach u t h \<Longrightarrow> up_reach (set_notes r u) t h"


section \<open>Tables\<close>

lemma update_fresh: "k \<notin> fst ` set al \<Longrightarrow> AList.update k v al = al @ [(k, v)]"
  by (induction al) auto

lemma length_filter_update:
  "map_of al k = Some r \<Longrightarrow> Q (k, v) = Q (k, r) \<Longrightarrow> length (filter Q (AList.update k v al)) = length (filter Q al)"
  by (induction al) (auto split: if_splits)

lemma filter_update_count:
  "length (filter Q (AList.update k v al)) \<le> Suc (length (filter Q al))"
  by (induction al) auto

lemma wf_map_update [simp]: "wf_map m \<Longrightarrow> wf_map (AList.update k v m)"
  by (simp add: wf_map_def distinct_update)

lemma wf_map_delete [simp]: "wf_map m \<Longrightarrow> wf_map (AList.delete k m)"
  by (simp add: wf_map_def distinct_delete)

lemma wf_map_filter [simp]: "wf_map m \<Longrightarrow> wf_map (filter P m)"
  by (simp add: wf_map_def distinct_map_filter)

lemma map_of_filter:
  assumes "wf_map m"
  shows "map_of (filter (\<lambda>(k, r). P r) m) k = Some r \<longleftrightarrow> map_of m k = Some r \<and> P r"
  using assms map_of_wf_map [of m k r] map_of_wf_map [of "filter (\<lambda>(k, r). P r) m" k r] by auto

lemma count_of_update [simp]: "count_of (AList.update p n m) q = (if q = p then n else count_of m q)"
  by (simp add: count_of_def update_conv')

lemma count_uncount: "0 \<le> count_of m p \<Longrightarrow> count_of (uncount m p) q = (if q = p then max 0 (count_of m p - 1) else count_of m q)"
  by (auto simp: uncount_def Let_def count_of_def delete_conv' update_conv')

lemma wf_map_uncount [simp]: "wf_map m \<Longrightarrow> wf_map (uncount m p)"
  by (simp add: uncount_def Let_def)

lemma count_uncount_all:
  "(\<And>q. 0 \<le> count_of m q) \<Longrightarrow>
    count_of (foldl (\<lambda>m (k, r). uncount m (or_principal r)) m rs) p = max 0 (count_of m p - int (length (filter (\<lambda>(k, r). or_principal r = p) rs)))"
proof (induction rs arbitrary: m)
  case (Cons kr rs)
  obtain k r where kr: "kr = (k, r)" by (cases kr)
  have "0 \<le> count_of (uncount m (or_principal r)) q" for q using Cons.prems by (simp add: count_uncount)
  from Cons.IH [OF this] show ?case using Cons.prems [of p] Cons.prems [of "or_principal r"] by (auto simp: kr count_uncount)
qed (simp add: max_def)

lemma wf_uncount_all [simp]: "wf_map m \<Longrightarrow> wf_map (foldl (\<lambda>m (k, r). uncount m (or_principal r)) m rs)"
  by (induction rs arbitrary: m) auto

lemma filter_two: "length (filter P xs) = length (filter P (filter Q xs)) + length (filter P (filter (\<lambda>x. \<not> Q x) xs))"
  by (induction xs) auto

lemma map_of_map_val: "map_of (map (\<lambda>(b, f). (b, g b f)) m) a = map_option (g a) (map_of m a)"
  by (induction m) auto

lemma ball_update: "\<forall>x \<in> set al. P x \<Longrightarrow> P (k, v) \<Longrightarrow> \<forall>x \<in> set (AList.update k v al). P x"
  by (induction al) auto

section \<open>The invariant\<close>

definition keyed_of :: "up_calls \<Rightarrow> string \<Rightarrow> nat" where
  "keyed_of u p = length (filter (\<lambda>(k, r). or_principal r = p) (uc_orphans u))"

text \<open>A live ended call is in the tables.\<close>

definition remembered :: "up_calls \<Rightarrow> ended \<Rightarrow> bool" where
  "remembered u e \<longleftrightarrow> (\<exists>r. map_of (uc_orphans u) (en_key e) = Some r \<and> en_expires e \<le> or_expires r)
     \<or> (\<exists>p r. map_of (uc_overflow u) p = Some r \<and> en_expires e \<le> or_expires r)"

definition tables_wf :: "up_calls \<Rightarrow> bool" where
  "tables_wf u \<longleftrightarrow> wf_map (uc_orphans u) \<and> wf_map (uc_orphansOf u) \<and> wf_map (uc_overflow u)"

definition counts_ok :: "up_calls \<Rightarrow> bool" where
  "counts_ok u \<longleftrightarrow> (\<forall>p. count_of (uc_orphansOf u) p = int (keyed_of u p) \<and> int (keyed_of u p) \<le> maxOrphansPerPrincipal)"

text \<open>Every record stands for an ended call.\<close>

definition justified :: "ended list \<Rightarrow> up_calls \<Rightarrow> bool" where
  "justified h u \<longleftrightarrow>
     (\<forall>(k, r) \<in> set (uc_orphans u). (\<exists>e \<in> set h. or_expires r \<le> en_expires e) \<and> or_principal r \<in> en_principal ` set h)
     \<and> (\<forall>(p, r) \<in> set (uc_overflow u). (or_expires r \<le> zero_time \<or> (\<exists>e \<in> set h. or_expires r \<le> en_expires e)) \<and> p \<in> en_principal ` set h)"

definition calls_wf :: "up_calls \<Rightarrow> bool" where
  "calls_wf u \<longleftrightarrow> wf_map (uc_calls u) \<and> (\<forall>(a, f) \<in> set (uc_calls u). a < uc_next u \<and> if_prompts f \<le> maxPromptsPerCall)"

definition up_inv :: "up_calls \<Rightarrow> int \<Rightarrow> ended list \<Rightarrow> bool" where
  "up_inv u t h \<longleftrightarrow> tables_wf u \<and> counts_ok u \<and> justified h u \<and> calls_wf u \<and> (\<forall>e \<in> set h. t < en_expires e \<longrightarrow> remembered u e)"

lemma prune_sel [simp]:
  "uc_calls (snd (pruneOrphans now u)) = uc_calls u" "uc_next (snd (pruneOrphans now u)) = uc_next u"
  "uc_orphans (snd (pruneOrphans now u)) = filter (\<lambda>(k, r). \<not> expired now r) (uc_orphans u)"
  "uc_overflow (snd (pruneOrphans now u)) = filter (\<lambda>(p, r). \<not> expired now r) (uc_overflow u)"
  by (simp_all add: pruneOrphans_def Let_def)

lemma count_diff: "c = max 0 (int k - int e) \<Longrightarrow> k = e + n \<Longrightarrow> int k \<le> m \<Longrightarrow> c = int n \<and> int n \<le> m"
  by simp

lemma prune_counts:
  assumes "counts_ok u"
  shows "counts_ok (snd (pruneOrphans now u))"
proof -
  let ?P = "\<lambda>p. \<lambda>(k, r). or_principal r = p"
  have "0 \<le> count_of (uc_orphansOf u) p" for p using assms by (simp add: counts_ok_def)
  from count_uncount_all [OF this] have c: "count_of (uc_orphansOf (snd (pruneOrphans now u))) p
      = max 0 (int (keyed_of u p) - int (length (filter (?P p) (filter (\<lambda>(k, r). expired now r) (uc_orphans u)))))" for p
    using assms by (simp add: pruneOrphans_def Let_def counts_ok_def del: filter_filter)
  have k: "keyed_of u p = length (filter (?P p) (filter (\<lambda>(k, r). expired now r) (uc_orphans u))) + keyed_of (snd (pruneOrphans now u)) p" for p
    unfolding keyed_of_def prune_sel by (subst filter_two [of _ _ "\<lambda>(k, r). expired now r"]) (simp add: case_prod_beta)
  have "int (keyed_of u p) \<le> maxOrphansPerPrincipal" for p using assms by (simp add: counts_ok_def)
  from count_diff [OF c k this] show ?thesis by (simp add: counts_ok_def)
qed

lemma prune_remembered:
  assumes "tables_wf u" "remembered u e" "now < en_expires e"
  shows "remembered (snd (pruneOrphans now u)) e"
proof -
  have w: "wf_map (uc_orphans u)" "wf_map (uc_overflow u)" using assms(1) by (simp_all add: tables_wf_def)
  have "\<not> expired now r" if "en_expires e \<le> or_expires r" for r using that assms(3) by (simp add: expired_def)
  then show ?thesis using assms(2) unfolding remembered_def prune_sel map_of_filter [OF w(1)] map_of_filter [OF w(2)] by blast
qed

lemma prune_inv:
  assumes "up_inv u t h"
  shows "up_inv (snd (pruneOrphans now u)) (max t now) h"
proof -
  have "tables_wf (snd (pruneOrphans now u))" using assms by (simp add: up_inv_def tables_wf_def pruneOrphans_def Let_def)
  moreover have "justified h (snd (pruneOrphans now u))" using assms by (auto simp: up_inv_def justified_def)
  moreover have "calls_wf (snd (pruneOrphans now u))" using assms by (simp add: up_inv_def calls_wf_def)
  ultimately show ?thesis using assms prune_counts [of u now] prune_remembered [of u _ now] by (simp add: up_inv_def)
qed


lemma later_ge: "a \<le> later a b" "b \<le> later a b" "later a b = a \<or> later a b = b"
  by (auto simp: later_def)

lemma record_ended_calls [simp]:
  "uc_calls (snd (record_ended f expires u)) = uc_calls u" "uc_next (snd (record_ended f expires u)) = uc_next u"
  by (simp_all add: record_ended_def Let_def split: option.split)

text \<open>The three ways an ended call is remembered.\<close>

lemma record_ended_cases:
  obtains (extend) r where "if_key f \<noteq> []" "map_of (uc_orphans u) (if_key f) = Some r"
      "snd (record_ended f expires u) = u\<lparr>uc_orphans := AList.update (if_key f)
         \<lparr>or_principal = or_principal r, or_expires = later (or_expires r) expires, or_overflow = 0\<rparr> (uc_orphans u)\<rparr>"
  | (keyed) "if_key f \<noteq> []" "map_of (uc_orphans u) (if_key f) = None" "count_of (uc_orphansOf u) (if_principal f) < maxOrphansPerPrincipal"
      "snd (record_ended f expires u) = u\<lparr>uc_orphans := AList.update (if_key f) \<lparr>or_principal = if_principal f, or_expires = expires, or_overflow = 0\<rparr> (uc_orphans u),
         uc_orphansOf := AList.update (if_principal f) (count_of (uc_orphansOf u) (if_principal f) + 1) (uc_orphansOf u)\<rparr>"
  | (over) r where "r = (case map_of (uc_overflow u) (if_principal f) of None \<Rightarrow> zero_orphan | Some r \<Rightarrow> r)"
      "snd (record_ended f expires u) = u\<lparr>uc_overflow := AList.update (if_principal f)
         \<lparr>or_principal = if_principal f, or_expires = later (or_expires r) expires, or_overflow = or_overflow r + 1\<rparr> (uc_overflow u)\<rparr>"
proof (cases "if_key f \<noteq> [] \<and> map_of (uc_orphans u) (if_key f) \<noteq> None")
  case True
  then obtain r where "if_key f \<noteq> []" "map_of (uc_orphans u) (if_key f) = Some r" by blast
  then show ?thesis by (intro extend) (simp_all add: record_ended_def Let_def)
next
  case no: False
  then have c: "(if if_key f \<noteq> [] then map_of (uc_orphans u) (if_key f) else None) = None" by auto
  show ?thesis
  proof (cases "if_key f \<noteq> [] \<and> count_of (uc_orphansOf u) (if_principal f) < maxOrphansPerPrincipal")
    case True
    with no show ?thesis by (intro keyed) (simp_all add: record_ended_def Let_def c)
  next
    case False
    then show ?thesis by (intro over [OF refl]) (auto simp: record_ended_def Let_def c)
  qed
qed

lemma record_ended_wf: "tables_wf u \<Longrightarrow> tables_wf (snd (record_ended f expires u))"
  by (cases rule: record_ended_cases [of f u expires]) (simp_all add: tables_wf_def)

lemma record_ended_counts:
  assumes "counts_ok u"
  shows "counts_ok (snd (record_ended f expires u))"
proof (cases rule: record_ended_cases [of f u expires])
  case (extend r)
  have "keyed_of (snd (record_ended f expires u)) p = keyed_of u p" for p
    unfolding keyed_of_def extend(3) by (simp add: length_filter_update [OF extend(2)])
  then show ?thesis using assms extend(3) by (simp add: counts_ok_def)
next
  case keyed
  have "if_key f \<notin> fst ` set (uc_orphans u)" using keyed(2) by (simp add: map_of_eq_None_iff)
  then have "keyed_of (snd (record_ended f expires u)) p = keyed_of u p + (if p = if_principal f then 1 else 0)" for p
    unfolding keyed_of_def keyed(4) by (simp add: update_fresh)
  then show ?thesis using assms keyed(3,4) by (simp add: counts_ok_def)
next
  case (over r)
  then show ?thesis using assms by (simp add: counts_ok_def keyed_of_def)
qed

lemma record_ended_remembers:
  assumes "remembered u e \<or> e = \<lparr>en_key = if_key f, en_principal = if_principal f, en_expires = expires\<rparr>"
  shows "remembered (snd (record_ended f expires u)) e"
proof (cases rule: record_ended_cases [of f u expires])
  case (extend r)
  then show ?thesis using assms later_ge(1) [of "or_expires r" expires] later_ge(2) [of expires "or_expires r"]
    by (auto simp: remembered_def update_conv' split: if_splits)
next
  case keyed
  then show ?thesis using assms by (auto simp: remembered_def update_conv')
next
  case (over r)
  let ?v = "\<lparr>or_principal = if_principal f, or_expires = later (or_expires r) expires, or_overflow = or_overflow r + 1\<rparr>"
  have o: "map_of (uc_overflow (snd (record_ended f expires u))) = (map_of (uc_overflow u))(if_principal f \<mapsto> ?v)" using over(2) by (simp add: update_conv')
  have "\<exists>p s. map_of (uc_overflow (snd (record_ended f expires u))) p = Some s \<and> en_expires e \<le> or_expires s"
    if "map_of (uc_overflow u) q = Some s" "en_expires e \<le> or_expires s" for q s
  proof (cases "q = if_principal f")
    case True
    then show ?thesis using that over(1) later_ge(1) [of "or_expires r" expires] by (intro exI [of _ q] exI [of _ ?v]) (simp add: o)
  next
    case False
    then show ?thesis using that by (auto simp: o)
  qed
  moreover have "\<exists>p s. map_of (uc_overflow (snd (record_ended f expires u))) p = Some s \<and> expires \<le> or_expires s"
    using later_ge(2) by (intro exI [of _ "if_principal f"] exI [of _ ?v]) (simp add: o)
  ultimately show ?thesis using assms over(2) unfolding remembered_def by auto
qed

lemma justified_more: "justified h u \<Longrightarrow> justified (e # h) u"
  unfolding justified_def by (auto simp: case_prod_beta)

lemma justified_counts: "justified h (u\<lparr>uc_orphans := x, uc_orphansOf := y\<rparr>) = justified h (u\<lparr>uc_orphans := x\<rparr>)"
  by (simp add: justified_def)

lemma justified_update:
  assumes "justified h u" "\<exists>e \<in> set h. or_expires v \<le> en_expires e" "or_principal v \<in> en_principal ` set h"
  shows "justified h (u\<lparr>uc_orphans := AList.update k v (uc_orphans u)\<rparr>)"
  using assms ball_update [of "uc_orphans u" "\<lambda>(k, r). (\<exists>e \<in> set h. or_expires r \<le> en_expires e) \<and> or_principal r \<in> en_principal ` set h" k v]
  by (simp add: justified_def)

lemma justified_update_over:
  assumes "justified h u" "or_expires v \<le> zero_time \<or> (\<exists>e \<in> set h. or_expires v \<le> en_expires e)" "p \<in> en_principal ` set h"
  shows "justified h (u\<lparr>uc_overflow := AList.update p v (uc_overflow u)\<rparr>)"
  using assms ball_update [of "uc_overflow u" "\<lambda>(p, r). (or_expires r \<le> zero_time \<or> (\<exists>e \<in> set h. or_expires r \<le> en_expires e)) \<and> p \<in> en_principal ` set h" p v]
  by (simp add: justified_def)

lemma record_ended_justified:
  assumes "justified h u"
  shows "justified (\<lparr>en_key = if_key f, en_principal = if_principal f, en_expires = expires\<rparr> # h) (snd (record_ended f expires u))"
    (is "justified (?e # h) _")
proof (cases rule: record_ended_cases [of f u expires])
  case (extend r)
  have "(if_key f, r) \<in> set (uc_orphans u)" using extend(2) by (rule map_of_SomeD)
  then have r: "\<exists>e \<in> set h. or_expires r \<le> en_expires e" "or_principal r \<in> en_principal ` set h" using assms by (auto simp: justified_def)
  then have "(\<exists>e \<in> set (?e # h). later (or_expires r) expires \<le> en_expires e)" using later_ge(3) [of "or_expires r" expires] by auto
  then show ?thesis using justified_more [OF assms, of ?e] r(2) unfolding extend(3)
    by (intro justified_update) auto
next
  case keyed
  show ?thesis using justified_more [OF assms, of ?e] unfolding keyed(4)
    by (simp add: justified_counts) (intro justified_update; simp)
next
  case (over r)
  have "or_expires r \<le> zero_time \<or> (\<exists>e \<in> set h. or_expires r \<le> en_expires e)"
    using assms over(1) map_of_SomeD [of "uc_overflow u" "if_principal f"] by (fastforce simp: justified_def zero_orphan_def split: option.splits)
  then have "later (or_expires r) expires \<le> zero_time \<or> (\<exists>e \<in> set (?e # h). later (or_expires r) expires \<le> en_expires e)"
    using later_ge(3) [of "or_expires r" expires] by auto
  then show ?thesis using justified_more [OF assms, of ?e] unfolding over(2) by (intro justified_update_over) auto
qed

lemma end_call_inv:
  assumes "up_inv u t h"
  shows "up_inv (snd (snd (end_call a f now expires u))) (max t now) (\<lparr>en_key = if_key f, en_principal = if_principal f, en_expires = expires\<rparr> # h)"
proof -
  let ?u = "u\<lparr>uc_calls := AList.delete a (uc_calls u)\<rparr>" and ?e = "\<lparr>en_key = if_key f, en_principal = if_principal f, en_expires = expires\<rparr>"
  let ?u1 = "snd (pruneOrphans now ?u)"
  have "calls_wf ?u" using assms by (auto simp: up_inv_def calls_wf_def) (auto simp: AList.delete_eq)
  then have "up_inv ?u t h" using assms by (simp add: up_inv_def tables_wf_def counts_ok_def keyed_of_def justified_def remembered_def)
  from prune_inv [OF this] have u1: "up_inv ?u1 (max t now) h" .
  show ?thesis
  proof (cases "now < expires")
    case False
    then have "snd (snd (end_call a f now expires u)) = ?u1" by (simp add: end_call_def split: prod.split)
    then show ?thesis using u1 False justified_more [of h ?u1 ?e] by (simp add: up_inv_def)
  next
    case True
    then have "snd (snd (end_call a f now expires u)) = snd (record_ended f expires ?u1)" by (simp add: end_call_def split: prod.split)
    moreover have "calls_wf (snd (record_ended f expires ?u1))" using u1 by (simp add: up_inv_def calls_wf_def)
    ultimately show ?thesis using u1 record_ended_wf record_ended_counts record_ended_justified record_ended_remembers by (auto simp: up_inv_def)
  qed
qed

lemma calls_inv:
  assumes "up_inv u t h" "calls_wf v" "uc_orphans v = uc_orphans u" "uc_orphansOf v = uc_orphansOf u" "uc_overflow v = uc_overflow u"
  shows "up_inv v t h"
  using assms by (simp add: up_inv_def tables_wf_def counts_ok_def keyed_of_def justified_def remembered_def)

lemma upd_call_wf:
  assumes "calls_wf u" "\<And>f. map_of (uc_calls u) a = Some f \<Longrightarrow> if_prompts (g f) \<le> maxPromptsPerCall"
  shows "calls_wf (upd_call a g u)"
proof -
  have "map fst (uc_calls (upd_call a g u)) = map fst (uc_calls u)" by (simp add: upd_call_def case_prod_beta comp_def)
  moreover have "map_of (uc_calls u) a = Some f" if "(a, f) \<in> set (uc_calls u)" for f using that assms(1) by (simp add: calls_wf_def wf_map_def)
  moreover have "\<forall>(b, f) \<in> set (uc_calls (upd_call a g u)). b < uc_next u \<and> if_prompts f \<le> maxPromptsPerCall"
    using assms calculation(2) by (auto simp: calls_wf_def upd_call_def)
  ultimately show ?thesis using assms(1) by (simp add: calls_wf_def wf_map_def) (simp add: upd_call_def)
qed

lemma upd_call_tables [simp]:
  "uc_orphans (upd_call a g u) = uc_orphans u" "uc_orphansOf (upd_call a g u) = uc_orphansOf u" "uc_overflow (upd_call a g u) = uc_overflow u"
  by (simp_all add: upd_call_def)

lemma calls_wf_prompts: "calls_wf u \<Longrightarrow> map_of (uc_calls u) a = Some f \<Longrightarrow> if_prompts f \<le> maxPromptsPerCall"
  by (auto simp: calls_wf_def dest!: map_of_SomeD)

lemma begin_call_wf: "calls_wf u \<Longrightarrow> prompts \<le> maxPromptsPerCall \<Longrightarrow> calls_wf (snd (begin_call c prompts u))"
  using ball_update [of "uc_calls u" "\<lambda>(a, f). a < Suc (uc_next u) \<and> if_prompts f \<le> maxPromptsPerCall" "uc_next u"
    "\<lparr>if_agent = cc_agent c, if_tool = cc_tool c, if_principal = cc_principal c, if_key = cc_session_key c,
      if_refused = None, if_note = None, if_prompting = False, if_prompts = prompts\<rparr>"]
  by (auto simp: calls_wf_def begin_call_def less_Suc_eq)

lemma startPrompt_wf:
  assumes "calls_wf u" "map_of (uc_calls u) a = Some f"
  shows "calls_wf (snd (startPrompt a f u))"
  using assms upd_call_wf [OF assms(1), of a "\<lambda>f. f\<lparr>if_prompting := True, if_prompts := if_prompts f + 1\<rparr>"] by (simp add: startPrompt_def)

lemma set_notes_wf: "calls_wf u \<Longrightarrow> calls_wf (set_notes r u)"
  by (auto simp: calls_wf_def set_notes_def wf_map_def case_prod_beta comp_def)

lemma up_reach_inv: "up_reach u t h \<Longrightarrow> up_inv u t h"
proof (induction rule: up_reach.induct)
  case up_new
  then show ?case by (simp add: up_inv_def new_up_calls_def tables_wf_def counts_ok_def keyed_of_def justified_def calls_wf_def wf_map_def count_of_def maxOrphansPerPrincipal_def)
next
  case (up_begin u t h prompts c)
  then have "calls_wf (snd (begin_call c prompts u))" by (simp add: begin_call_wf up_inv_def)
  then show ?case by (rule calls_inv [OF up_begin.IH]) (simp_all add: begin_call_def)
next
  case (up_end u t h a f now expires)
  then show ?case by (simp add: end_call_inv)
next
  case (up_prune u t h now)
  then show ?case by (simp add: prune_def prune_inv)
next
  case (up_start u t h a f)
  then have "calls_wf (snd (startPrompt a f u))" by (simp add: startPrompt_wf up_inv_def)
  then show ?case by (rule calls_inv [OF up_start.IH]) (simp_all add: startPrompt_def)
next
  case (up_stop u t h a)
  have "calls_wf (endPrompt a u)" unfolding endPrompt_def
    using up_stop.IH calls_wf_prompts by (auto simp: up_inv_def intro!: upd_call_wf)
  then show ?case by (rule calls_inv [OF up_stop.IH]) (simp_all add: endPrompt_def)
next
  case (up_refuse u t h a r)
  have "calls_wf (set_refused a r u)" unfolding set_refused_def
    using up_refuse.IH calls_wf_prompts by (auto simp: up_inv_def intro!: upd_call_wf)
  then show ?case by (rule calls_inv [OF up_refuse.IH]) (simp_all add: set_refused_def)
next
  case (up_note u t h a r)
  have "calls_wf (set_note a r u)" unfolding set_note_def
    using up_note.IH calls_wf_prompts by (auto simp: up_inv_def intro!: upd_call_wf)
  then show ?case by (rule calls_inv [OF up_note.IH]) (simp_all add: set_note_def)
next
  case (up_notes u t h r)
  have "calls_wf (set_notes r u)" using up_notes.IH by (simp add: set_notes_wf up_inv_def)
  then show ?case by (rule calls_inv [OF up_notes.IH]) (simp_all add: set_notes_def)
qed


section \<open>Properties\<close>

lemma attribute_one:
  assumes "at_err (attribute now u) = None"
  obtains a f where "uc_calls u = [(a, f)]" "at_sole (attribute now u) = Some a"
    "\<forall>(k, r) \<in> set (uc_orphans u). now < or_expires r \<longrightarrow> k = if_key f" "\<forall>(p, r) \<in> set (uc_overflow u). \<not> now < or_expires r"
proof -
  obtain a f where c: "uc_calls u = [(a, f)]"
  proof (cases "uc_calls u")
    case Nil
    then show ?thesis using assms by (simp add: attribute_def)
  next
    case (Cons x xs)
    then show ?thesis using assms that by (cases x; cases xs) (simp_all add: attribute_def)
  qed
  show ?thesis using assms c by (intro that [of a f]) (auto simp: attribute_def expired_def Let_def filter_empty_conv split: if_splits)
qed

text \<open>A prompt is never put to another agent session's human. When a server-initiated prompt is attributed to a
  call, that call is the only one in flight on the upstream, and every call that ended on it and may still be
  worked on, whoever made it and however many there were, was made by the same agent session, whatever the order in which
  calls begin and end, records are pruned and prompts are refused.\<close>

lemma attribution_owner:
  assumes "up_reach u t h" "at_err (attribute now u) = None"
  shows "\<exists>a f. uc_calls u = [(a, f)] \<and> at_sole (attribute now u) = Some a
    \<and> (\<forall>e \<in> set h. max t now < en_expires e \<longrightarrow> en_key e = if_key f)"
proof -
  obtain a f where c: "uc_calls u = [(a, f)]" "at_sole (attribute now u) = Some a"
    and k: "\<forall>(k, r) \<in> set (uc_orphans u). now < or_expires r \<longrightarrow> k = if_key f" "\<forall>(p, r) \<in> set (uc_overflow u). \<not> now < or_expires r"
    using attribute_one [OF assms(2)] .
  have "en_key e = if_key f" if e: "e \<in> set h" "max t now < en_expires e" for e
  proof -
    have "remembered u e" using up_reach_inv [OF assms(1)] e by (simp add: up_inv_def)
    then show ?thesis unfolding remembered_def
    proof (elim disjE exE conjE)
      fix r assume "map_of (uc_orphans u) (en_key e) = Some r" "en_expires e \<le> or_expires r"
      then show ?thesis using k(1) e(2) map_of_SomeD [of "uc_orphans u" "en_key e" r] by auto
    next
      fix p r assume "map_of (uc_overflow u) p = Some r" "en_expires e \<le> or_expires r"
      then show ?thesis using k(2) e(2) map_of_SomeD [of "uc_overflow u" p r] by auto
    qed
  qed
  then show ?thesis using c by blast
qed

lemma sum_keyed: "finite P \<Longrightarrow> \<forall>(k, r) \<in> set m. or_principal r \<in> P \<Longrightarrow>
    length m = (\<Sum>p \<in> P. length (filter (\<lambda>(k, r). or_principal r = p) m))"
proof (induction m)
  case (Cons kr m)
  obtain k r where kr: "kr = (k, r)" by (cases kr)
  have "(\<Sum>p \<in> P. length (filter (\<lambda>(k, r). or_principal r = p) (kr # m)))
      = (\<Sum>p \<in> P. (if p = or_principal r then 1 else 0) + length (filter (\<lambda>(k, r). or_principal r = p) m))"
    by (rule sum.cong) (auto simp: kr)
  also have "\<dots> = 1 + length m" using Cons kr by (simp add: sum.distrib)
  finally show ?case by simp
qed simp

text \<open>Property C0 (bounds). The memory of ended calls is bounded by who may call, not by how often: an upstream holds at most 256 keyed
  records and one overflow record for each principal that has ended a call on it, a call has put at
  most ten prompts to a human, and its counter of records per principal is exact.\<close>

theorem orphans_bounded:
  assumes "up_reach u t h"
  shows "length (uc_orphans u) + length (uc_overflow u) \<le> 257 * card (en_principal ` set h)
    \<and> (\<forall>p. count_of (uc_orphansOf u) p = int (length (filter (\<lambda>(k, r). or_principal r = p) (uc_orphans u))))
    \<and> (\<forall>(a, f) \<in> set (uc_calls u). if_prompts f \<le> 10)"
proof -
  let ?P = "en_principal ` set h"
  note inv = up_reach_inv [OF assms, unfolded up_inv_def]
  have "length (uc_orphans u) = (\<Sum>p \<in> ?P. keyed_of u p)"
    unfolding keyed_of_def using inv by (intro sum_keyed) (auto simp: justified_def)
  also have "\<dots> \<le> (\<Sum>p \<in> ?P. 256)"
  proof (rule sum_mono)
    fix p
    have "int (keyed_of u p) \<le> 256" using inv by (simp add: counts_ok_def maxOrphansPerPrincipal_def)
    then show "keyed_of u p \<le> 256" by simp
  qed
  finally have o: "length (uc_orphans u) \<le> 256 * card ?P" by simp
  have "length (uc_overflow u) = card (fst ` set (uc_overflow u))" using inv by (metis distinct_card length_map list.set_map tables_wf_def wf_map_def)
  also have "\<dots> \<le> card ?P" using inv by (intro card_mono) (auto simp: justified_def)
  finally have "length (uc_overflow u) \<le> card ?P" .
  then show ?thesis using o inv by (auto simp: counts_ok_def keyed_of_def calls_wf_def maxPromptsPerCall_def)
qed

text \<open>Property C0 (liveness). A block always lifts: once the clock has passed the expiry of every ended call, a prune empties the tables,
  and from then on a prompt is attributed to the call in flight whenever there is exactly one.\<close>

theorem prompt_block_lifts:
  assumes "up_reach u t h" "zero_time \<le> now" "\<forall>e \<in> set h. en_expires e \<le> now"
  shows "uc_orphans (snd (prune now u)) = [] \<and> uc_overflow (snd (prune now u)) = []
    \<and> (length (uc_calls u) = 1 \<longrightarrow> at_err (attribute now (snd (prune now u))) = None)"
proof -
  have j: "justified h u" using up_reach_inv [OF assms(1)] by (simp add: up_inv_def)
  have "expired now r" if "(k, r) \<in> set (uc_orphans u)" for k r
    using j that assms(3) unfolding justified_def expired_def by fastforce
  moreover have "expired now r" if "(p, r) \<in> set (uc_overflow u)" for p r
    using j that assms(2,3) unfolding justified_def expired_def by fastforce
  ultimately have e: "uc_orphans (snd (prune now u)) = []" "uc_overflow (snd (prune now u)) = []"
    by (auto simp: prune_def filter_empty_conv)
  moreover have "at_err (attribute now (snd (prune now u))) = None" if one: "length (uc_calls u) = 1"
  proof -
    obtain a f where "uc_calls u = [(a, f)]" using one by (cases "uc_calls u") auto
    then have "uc_calls (snd (prune now u)) = [(a, f)]" by (simp add: prune_def)
    then show ?thesis using e by (simp add: attribute_def)
  qed
  ultimately show ?thesis by blast
qed

section \<open>Session keys\<close>

text \<open>Who is behind a key.\<close>

datatype key_owner = ListenerSession string | LocalRun nat | SingleRequest "64 word"

fun owner_key :: "key_owner \<Rightarrow> string" where
  "owner_key (ListenerSession i) = ''s'' @ i"
| "owner_key (LocalRun n) = run_key n"
| "owner_key (SingleRequest n) = requestKeyPrefix @ nat_text (unat n)"

lemma nat_text_eq: "nat_text a = nat_text b \<longleftrightarrow> a = b"
  using decimal_value_nat_text by metis

lemma owner_key_inj: "owner_key a = owner_key b \<longleftrightarrow> a = b"
  by (cases a; cases b) (auto simp: run_key_def localKeyPrefix_def requestKeyPrefix_def nat_text_eq word_unat_eq_iff)

text \<open>Property C0 (functional). The key of a call names its owner and nobody else: a stateful session of the listener by its
  session id, a session of \<^verbatim>\<open>Run\<close> by its run, and any other call by a number of its own, which advances the counter; keys of
  different owners differ, so a stateless request never shares a key with an earlier one.\<close>

theorem agentSessionKey_owner:
  assumes "\<forall>(ss, key) \<in> set locals. \<exists>n. key = run_key n"
  shows "(\<exists>w. fst (agentSessionKey ID locals c n) = owner_key w
      \<and> (case w of
           ListenerSession i \<Rightarrow> snd (agentSessionKey ID locals c n) = n \<and> \<not> agent_stateless (cc_agent c) \<and> i \<noteq> [] \<and> (\<exists>ss. ag_session (cc_agent c) = Some ss \<and> i = ID ss)
         | LocalRun r \<Rightarrow> snd (agentSessionKey ID locals c n) = n \<and> cc_principal c = [] \<and> (\<exists>ss. ag_session (cc_agent c) = Some ss \<and> (ss, run_key r) \<in> set locals)
         | SingleRequest m \<Rightarrow> m = n + 1 \<and> snd (agentSessionKey ID locals c n) = n + 1))
    \<and> (\<forall>v w. owner_key v = owner_key w \<longleftrightarrow> v = w)"
proof -
  have req: "\<exists>w. fst (requestKey n) = owner_key w \<and> (case w of ListenerSession i \<Rightarrow> False | LocalRun r \<Rightarrow> False | SingleRequest m \<Rightarrow> m = n + 1 \<and> snd (requestKey n) = n + 1)"
    by (intro exI [of _ "SingleRequest (n + 1)"]) (simp add: requestKey_def)
  consider (listener) ss where "ag_session (cc_agent c) = Some ss" "ID ss \<noteq> [] \<and> \<not> agent_stateless (cc_agent c)"
    | (local) ss where "ag_session (cc_agent c) = Some ss" "\<not> (ID ss \<noteq> [] \<and> \<not> agent_stateless (cc_agent c))" "cc_principal c = [] \<and> localKey locals ss \<noteq> []"
    | (request) "agentSessionKey ID locals c n = requestKey n"
  proof (cases "ag_session (cc_agent c)")
    case None
    then show thesis using that(3) by (simp add: agentSessionKey_def)
  next
    case (Some ss)
    show thesis
    proof (cases "(ID ss \<noteq> [] \<and> \<not> agent_stateless (cc_agent c)) \<or> (cc_principal c = [] \<and> localKey locals ss \<noteq> [])")
      case True
      then show thesis using Some that(1,2) by blast
    next
      case False
      then have "agentSessionKey ID locals c n = requestKey n" using Some by (auto simp: agentSessionKey_def)
      then show thesis using that(3) by blast
    qed
  qed
  then show ?thesis
  proof cases
    case listener
    then show ?thesis using owner_key_inj by (intro conjI exI [of _ "ListenerSession (ID ss)"]) (simp_all add: agentSessionKey_def)
  next
    case local
    have "map_of locals ss = Some (localKey locals ss)" using local(3) by (auto simp: localKey_def split: option.splits)
    then have m: "(ss, localKey locals ss) \<in> set locals" by (rule map_of_SomeD)
    then obtain r where "localKey locals ss = run_key r" using assms by auto
    then show ?thesis using local m owner_key_inj by (intro conjI exI [of _ "LocalRun r"]) (auto simp: agentSessionKey_def)
  next
    case request
    then show ?thesis using req owner_key_inj by (auto split: key_owner.splits)
  qed
qed

section \<open>Witnesses\<close>

text \<open>Session \<open>1\<close> ends a call that blocks until \<open>100\<close> and begins another.\<close>

definition demo_keyed :: pcall where
  "demo_keyed = \<lparr>cc_server = ''junos'', cc_up_version = ''2025-11-25'', cc_up_era = ''stateful'', cc_tool = ''show'', cc_arguments = [],
     cc_agent = \<lparr>ag_session = Some 1, ag_version = ''2025-11-25'', ag_can_elicit = True\<rparr>, cc_transport = TransportHTTP,
     cc_principal = ''ops'', cc_session_key = ''s1''\<rparr>"

definition demo_inflight :: inflight where
  "demo_inflight = \<lparr>if_agent = cc_agent demo_keyed, if_tool = ''show'', if_principal = ''ops'', if_key = ''s1'',
     if_refused = None, if_note = None, if_prompting = False, if_prompts = 0\<rparr>"

definition demo_up :: up_calls where
  "demo_up = \<lparr>uc_calls = [(1, demo_inflight)], uc_next = 2,
     uc_orphans = [(''s1'', \<lparr>or_principal = ''ops'', or_expires = 100, or_overflow = 0\<rparr>)], uc_orphansOf = [(''ops'', 1)], uc_overflow = []\<rparr>"

definition demo_ended :: "ended list" where
  "demo_ended = [\<lparr>en_key = ''s1'', en_principal = ''ops'', en_expires = 100\<rparr>]"

lemma demo_up_reach: "up_reach demo_up 5 demo_ended"
proof -
  let ?u1 = "snd (begin_call demo_keyed 0 new_up_calls)"
  have "up_reach ?u1 zero_time []" by (rule up_begin [OF up_new]) (simp add: maxPromptsPerCall_def)
  moreover have "map_of (uc_calls ?u1) 0 = Some demo_inflight"
    by (simp add: begin_call_def new_up_calls_def demo_inflight_def demo_keyed_def)
  ultimately have "up_reach (snd (snd (end_call 0 demo_inflight 5 100 ?u1))) (max zero_time 5) demo_ended"
    using up_end [of ?u1 zero_time "[]" 0 demo_inflight 5 100] by (simp add: demo_ended_def demo_inflight_def)
  from up_begin [OF this, of 0 demo_keyed] show ?thesis
    by (simp add: begin_call_def new_up_calls_def demo_inflight_def demo_keyed_def end_call_def pruneOrphans_def record_ended_def
        count_of_def maxOrphansPerPrincipal_def maxPromptsPerCall_def zero_time_def demo_up_def Let_def numeral_2_eq_2)
qed

lemma demo_attribute: "attribute 50 demo_up = \<lparr>at_sole = Some 1, at_err = None, at_endedCallsOf = [], at_inFlightOf = []\<rparr>"
  by (simp add: attribute_def demo_up_def demo_inflight_def)

lemma demo_owner:
  "uc_calls demo_up = [(1, demo_inflight)] \<and> (\<forall>e \<in> set demo_ended. 50 < en_expires e \<and> en_key e = if_key demo_inflight)"
  using attribution_owner [OF demo_up_reach, of 50] by (simp add: demo_attribute demo_up_def demo_ended_def demo_inflight_def)

theorem orphans_bounded_witness:
  "length (uc_orphans demo_up) + length (uc_overflow demo_up) \<le> 257 * card (en_principal ` set demo_ended)
    \<and> count_of (uc_orphansOf demo_up) ''ops'' = 1"
  using orphans_bounded [OF demo_up_reach] by (simp add: demo_up_def)

theorem prompt_block_lifts_witness:
  "uc_orphans (snd (prune 100 demo_up)) = [] \<and> at_err (attribute 100 (snd (prune 100 demo_up))) = None"
  using prompt_block_lifts [OF demo_up_reach, of 100] by (simp add: zero_time_def demo_ended_def demo_up_def)

theorem agentSessionKey_owner_witness:
  "fst (agentSessionKey (\<lambda>_. ''1'') [] demo_keyed 0) = owner_key (ListenerSession ''1'')"
  using agentSessionKey_owner [of "[]" "\<lambda>_. ''1''" demo_keyed 0]
  by (auto simp: agentSessionKey_def demo_keyed_def agent_stateless_def statelessVersion_def run_key_def localKeyPrefix_def requestKeyPrefix_def split: key_owner.splits)


section \<open>The limiter of refusal lines\<close>

definition refusalLogInterval :: int where "refusalLogInterval = 10 * 1000000000"
definition maxRefusalLogKeys :: nat where "maxRefusalLogKeys = 1024"

record limiter_entry =
  le_at :: int
  le_suppressed :: int

type_synonym limiter = "(string, limiter_entry) gomap"

definition suppressed_sum :: "limiter \<Rightarrow> int" where
  "suppressed_sum l = sum_list (map (\<lambda>(k, e). le_suppressed e) l)"

text \<open>The sweep for a new key: entries older than the interval, or all of them; and the counts that are lost.\<close>

definition sweep :: "int \<Rightarrow> limiter \<Rightarrow> limiter \<times> int" where
  "sweep now l =
     (if length l < maxRefusalLogKeys then (l, 0)
      else
        let kept = filter (\<lambda>(k, e). now - le_at e < refusalLogInterval) l;
            lost = suppressed_sum (filter (\<lambda>(k, e). \<not> now - le_at e < refusalLogInterval) l)
        in if maxRefusalLogKeys \<le> length kept then ([], lost + suppressed_sum kept) else (kept, lost))"

record allowed =
  al_ok :: bool
  al_suppressed :: int
  al_lost :: int

definition allow :: "string \<Rightarrow> int \<Rightarrow> limiter \<Rightarrow> allowed \<times> limiter" where
  "allow key now l =
     (case map_of l key of
        Some e \<Rightarrow>
          if now - le_at e < refusalLogInterval then
            (\<lparr>al_ok = False, al_suppressed = 0, al_lost = 0\<rparr>, AList.update key (e\<lparr>le_suppressed := le_suppressed e + 1\<rparr>) l)
          else
            (\<lparr>al_ok = True, al_suppressed = le_suppressed e, al_lost = 0\<rparr>, AList.update key \<lparr>le_at = now, le_suppressed = 0\<rparr> l)
      | None \<Rightarrow>
          (case sweep now l of
             (l', lost) \<Rightarrow>
               (\<lparr>al_ok = True, al_suppressed = 0, al_lost = lost\<rparr>, AList.update key \<lparr>le_at = now, le_suppressed = 0\<rparr> l')))"

fun allow_all :: "(string \<times> int) list \<Rightarrow> limiter \<Rightarrow> allowed list \<times> limiter" where
  "allow_all [] l = ([], l)"
| "allow_all ((key, now) # qs) l = (case allow key now l of (a, l1) \<Rightarrow> case allow_all qs l1 of (as, l2) \<Rightarrow> (a # as, l2))"

text \<open>The lines held back, and those a written line accounts for.\<close>

definition held_back :: "allowed list \<Rightarrow> int" where
  "held_back as = int (length (filter (\<lambda>a. \<not> al_ok a) as))"

definition reported :: "allowed list \<Rightarrow> int" where
  "reported as = sum_list (map (\<lambda>a. al_suppressed a + al_lost a) as)"

lemma suppressed_sum_simps [simp]:
  "suppressed_sum [] = 0" "suppressed_sum ((k, e) # l) = le_suppressed e + suppressed_sum l" "suppressed_sum (l @ m) = suppressed_sum l + suppressed_sum m"
  by (simp_all add: suppressed_sum_def)

lemma suppressed_update: "map_of l k = Some e \<Longrightarrow> suppressed_sum (AList.update k v l) = suppressed_sum l - le_suppressed e + le_suppressed v"
  by (induction l) (auto split: if_splits)

lemma suppressed_split: "suppressed_sum (filter P l) + suppressed_sum (filter (\<lambda>x. \<not> P x) l) = suppressed_sum l"
  by (induction l) auto

lemma length_update: "map_of l k = Some e \<Longrightarrow> length (AList.update k v l) = length l"
  by (induction l) (auto split: if_splits)

lemma sweep_spec:
  assumes "sweep now l = (l', lost)"
  shows "suppressed_sum l' + lost = suppressed_sum l" "length l' < maxRefusalLogKeys" "fst ` set l' \<subseteq> fst ` set l"
proof -
  let ?P = "\<lambda>(k, e). now - le_at e < refusalLogInterval"
  have c: "filter (\<lambda>(k, e). \<not> now - le_at e < refusalLogInterval) l = filter (\<lambda>x. \<not> ?P x) l" by (rule filter_cong) auto
  show "suppressed_sum l' + lost = suppressed_sum l" using assms suppressed_split [of ?P l]
    unfolding sweep_def Let_def c by (auto split: if_splits)
  show "length l' < maxRefusalLogKeys" using assms by (auto simp: sweep_def Let_def maxRefusalLogKeys_def split: if_splits)
  show "fst ` set l' \<subseteq> fst ` set l" using assms by (auto simp: sweep_def Let_def split: if_splits)
qed

lemma allow_step:
  assumes "allow key now l = (a, l')" "length l \<le> maxRefusalLogKeys"
  shows "length l' \<le> maxRefusalLogKeys" "suppressed_sum l' + al_suppressed a + al_lost a = suppressed_sum l + (if al_ok a then 0 else 1)"
    "al_ok a \<longleftrightarrow> (\<forall>e. map_of l key = Some e \<longrightarrow> refusalLogInterval \<le> now - le_at e)"
proof -
  have "length l' \<le> maxRefusalLogKeys \<and> suppressed_sum l' + al_suppressed a + al_lost a = suppressed_sum l + (if al_ok a then 0 else 1)
      \<and> (al_ok a \<longleftrightarrow> (\<forall>e. map_of l key = Some e \<longrightarrow> refusalLogInterval \<le> now - le_at e))"
  proof (cases "map_of l key")
    case (Some e)
    then show ?thesis using assms by (auto simp: allow_def length_update suppressed_update split: if_splits)
  next
    case None
    obtain m lost where s: "sweep now l = (m, lost)" by fastforce
    have "key \<notin> fst ` set m" using None sweep_spec(3) [OF s] by (auto simp: map_of_eq_None_iff)
    then show ?thesis using None assms s sweep_spec(1,2) [OF s] by (auto simp: allow_def update_fresh)
  qed
  then show "length l' \<le> maxRefusalLogKeys" "suppressed_sum l' + al_suppressed a + al_lost a = suppressed_sum l + (if al_ok a then 0 else 1)"
    "al_ok a \<longleftrightarrow> (\<forall>e. map_of l key = Some e \<longrightarrow> refusalLogInterval \<le> now - le_at e)" by blast+
qed

lemma allow_all_counts:
  "length l \<le> maxRefusalLogKeys \<Longrightarrow> allow_all qs l = (as, l') \<Longrightarrow>
    length l' \<le> maxRefusalLogKeys \<and> suppressed_sum l' + reported as = suppressed_sum l + held_back as"
proof (induction qs arbitrary: l as)
  case Nil
  then show ?case by (simp add: reported_def held_back_def)
next
  case (Cons q qs)
  obtain key now a l1 as1 where q: "q = (key, now)" and a: "allow key now l = (a, l1)" and r: "allow_all qs l1 = (as1, l')" "as = a # as1"
    using Cons.prems(2) by (cases q) (auto split: prod.splits)
  note s = allow_step [OF a Cons.prems(1)]
  show ?case using Cons.IH [OF s(1) r(1)] s(2) r(2) by (auto simp: reported_def held_back_def split: if_splits)
qed

text \<open>Property C0 (invariant). No held-back line is forgotten: over any sequence of refusals, from an empty table, the lines held back are exactly
  those the written lines report (as suppressed or as lost in a sweep) and those the table still counts; the
  table never has more than 1024 keys; and a line is held back only when the last one for its key is
  less than ten seconds old.\<close>

theorem refusal_lines_accounted:
  assumes "allow_all qs [] = (as, l)"
  shows "held_back as = reported as + suppressed_sum l \<and> length l \<le> 1024
    \<and> (\<not> al_ok (fst (allow key now l)) \<longleftrightarrow> (\<exists>e. map_of l key = Some e \<and> now - le_at e < 10 * 1000000000))"
proof -
  have c: "length l \<le> maxRefusalLogKeys" "suppressed_sum l + reported as = held_back as"
    using allow_all_counts [of "[]" qs as l] assms by simp_all
  obtain a l' where "allow key now l = (a, l')" by fastforce
  from allow_step(3) [OF this c(1)] this show ?thesis using c by (auto simp: maxRefusalLogKeys_def refusalLogInterval_def not_le)
qed

theorem refusal_lines_accounted_witness:
  "held_back (fst (allow_all [(''k'', 0), (''k'', 1), (''k'', 10000000000)] [])) = 1
    \<and> reported (fst (allow_all [(''k'', 0), (''k'', 1), (''k'', 10000000000)] [])) = 1"
proof -
  let ?e = "allow_all [(''k'', 0), (''k'', 1), (''k'', 10000000000)] []"
  have "?e = ([\<lparr>al_ok = True, al_suppressed = 0, al_lost = 0\<rparr>, \<lparr>al_ok = False, al_suppressed = 0, al_lost = 0\<rparr>, \<lparr>al_ok = True, al_suppressed = 1, al_lost = 0\<rparr>],
      [(''k'', \<lparr>le_at = 10000000000, le_suppressed = 0\<rparr>)])"
    by (simp add: allow_def sweep_def refusalLogInterval_def maxRefusalLogKeys_def)
  from refusal_lines_accounted [OF this] this show ?thesis by (simp add: held_back_def)
qed

end
