(* ===== verification/Proxy_Elicit.thy ===== *)
theory Proxy_Elicit
  imports Proxy_Schema Proxy_Prompts
begin

text \<open>
  \<^verbatim>\<open>internal/proxy/input.go\<close>, the relay of an upstream's input requests: each request is checked and
  relabelled, a server-initiated prompt is attributed to a call and admitted or refused, the agent's answer is
  cleaned. The agent's answers are an argument.
\<close>

section \<open>Requests and answers\<close>

text \<open>The schema of a request is nil, cannot be encoded, or has a JSON text (\<open>Proxy_Schema\<close>).\<close>

record elicit_params =
  el_mode :: string
  el_message :: string
  el_url :: string
  el_id :: string
  el_schema :: "string option option"

datatype input_request = ReqSampling | ReqRoots | ReqElicit "elicit_params option" | ReqUnknown

definition inputKind :: "input_request \<Rightarrow> string" where
  "inputKind r =
     (case r of ReqSampling \<Rightarrow> ''sampling'' | ReqRoots \<Rightarrow> ''roots'' | ReqElicit _ \<Rightarrow> ''elicitation'' | ReqUnknown \<Rightarrow> ''unknown'')"

text \<open>The agent's copy; its mode is form.\<close>

record prompt =
  pm_message :: string
  pm_schema :: "json option"

definition maxInputRequests :: nat where "maxInputRequests = 16"
definition maxInputRequestID :: nat where "maxInputRequestID = 128"

definition errFormOnly :: string where "errFormOnly = ''only form elicitation is passed to the agent''"

definition label_reason :: string where
  "label_reason = ''the message reads as an origin label ('' @ quoted_label @ ''); only fathomgate labels prompts''"

definition relabelElicit ::
  "(string \<Rightarrow> string option) \<Rightarrow> (string \<Rightarrow> bool) \<Rightarrow> string \<Rightarrow> string \<Rightarrow> elicit_params option \<Rightarrow> prompt_refusal + prompt" where
  "relabelElicit num label server tool ep =
     (case ep of
        None \<Rightarrow> Inl (newRefusal server tool ''elicitation'' ''empty request'')
      | Some p \<Rightarrow>
          if (el_mode p \<noteq> [] \<and> el_mode p \<noteq> ''form'') \<or> el_url p \<noteq> [] \<or> el_id p \<noteq> [] then
            Inl (newRefusal server tool ''URL elicitation'' errFormOnly)
          else if label (el_message p) then Inl (newRefusal server tool ''elicitation'' label_reason)
          else
            (case relabelSchema num label server (el_schema p) of
               Inl e \<Rightarrow> Inl (newRefusal server tool ''elicitation'' (''requested schema: '' @ schema_text e))
             | Inr schema \<Rightarrow>
                 Inr \<lparr>pm_message = promptLabel server @ escapeControl (el_message p) maxPromptText, pm_schema = schema\<rparr>))"

definition bad_request_id :: "string \<Rightarrow> bool" where
  "bad_request_id i \<longleftrightarrow> i = [] \<or> maxInputRequestID < length i \<or> has_control i"

definition relabel_request ::
  "(string \<Rightarrow> string option) \<Rightarrow> (string \<Rightarrow> bool) \<Rightarrow> string \<Rightarrow> string \<Rightarrow> string \<times> input_request \<Rightarrow> prompt_refusal + string \<times> prompt" where
  "relabel_request num label server tool = (\<lambda>(i, r).
     if bad_request_id i then
       Inl (newRefusal server tool ''input_required'' ''an input request id is empty, too long or has control characters'')
     else
       (case r of
          ReqElicit ep \<Rightarrow> bind_result (relabelElicit num label server tool ep) (\<lambda>p. Inr (i, p))
        | _ \<Rightarrow> Inl (newRefusal server tool (inputKind r) errFormOnly)))"

text \<open>The requests in the order the map is ranged over, which decides only which refusal comes first.\<close>

definition relabelInputRequests ::
  "(string \<Rightarrow> string option) \<Rightarrow> (string \<Rightarrow> bool) \<Rightarrow> string \<Rightarrow> string \<Rightarrow> (string, input_request) gomap
     \<Rightarrow> prompt_refusal + (string, prompt) gomap" where
  "relabelInputRequests num label server tool reqs =
     (if maxInputRequests < length reqs then
        Inl (newRefusal server tool ''input_required'' (''more than '' @ nat_text maxInputRequests @ '' input requests''))
      else map_results (relabel_request num label server tool) reqs)"

text \<open>An answer and its content.\<close>

record elicit_result =
  er_action :: string
  er_content :: "json option"

definition clip :: "string \<Rightarrow> string" where
  "clip s = (if length s \<le> 200 then s else take 200 s @ ''...'')"

text \<open>\<open>quote\<close> is \<open>strconv.Quote\<close>, as \<^verbatim>\<open>%q\<close> prints it.\<close>

definition cleanElicitResult :: "(string \<Rightarrow> string) \<Rightarrow> elicit_result option \<Rightarrow> string + elicit_result" where
  "cleanElicitResult quote r =
     (case r of
        None \<Rightarrow> Inl ''empty elicitation result''
      | Some r \<Rightarrow>
          if er_action r = ''accept'' then Inr \<lparr>er_action = er_action r, er_content = er_content r\<rparr>
          else if er_action r = ''decline'' \<or> er_action r = ''cancel'' then Inr \<lparr>er_action = er_action r, er_content = None\<rparr>
          else Inl (''elicitation action '' @ quote (clip (er_action r)) @ '' is not accept, decline or cancel''))"

section \<open>A server-initiated prompt\<close>

definition errDiscoveredUpstream :: string where
  "errDiscoveredUpstream = ''this upstream was connected with server/discover (the stateless era), where input requests come as input_required results, so a server-initiated prompt from it is not relayed; see ADR 0008''"

definition errPromptsUnchecked :: string where
  "errPromptsUnchecked = ''a policy is enforced and fathomgate cannot check an answer against the server profile, so upstream prompts are not relayed''"

text \<open>What the handler reads of its upstream.\<close>

record upstream_side =
  us_name :: string
  us_handshake :: bool
  us_routes :: routes

text \<open>Up to the prompt slot: the prompt is refused, or admitted for a call.\<close>

datatype admission = Refuse prompt_refusal | Admit nat inflight prompt

definition refuse_call :: "nat \<Rightarrow> prompt_refusal \<Rightarrow> up_calls \<Rightarrow> admission \<times> up_calls" where
  "refuse_call a r u = (Refuse r, set_refused a r u)"

definition admit_prompt ::
  "(string \<Rightarrow> string option) \<Rightarrow> (string \<Rightarrow> bool) \<Rightarrow> upstream_side \<Rightarrow> elicit_params option \<Rightarrow> nat \<Rightarrow> inflight \<Rightarrow> up_calls
     \<Rightarrow> admission \<times> up_calls" where
  "admit_prompt num label us ep a f u =
     (let elicitation = (\<lambda>reason. newRefusal (us_name us) (if_tool f) ''elicitation'' reason) in
      if \<not> us_handshake us then refuse_call a (elicitation errDiscoveredUpstream) u
      else
        (case promptable f of
           Some e \<Rightarrow> refuse_call a (elicitation e) u
         | None \<Rightarrow>
             if argumentsClosed (us_routes us) (us_name us) (if_tool f) then refuse_call a (elicitation errPromptsUnchecked) u
             else
               (case relabelElicit num label (us_name us) (if_tool f) ep of
                  Inl r \<Rightarrow> refuse_call a r u
                | Inr p \<Rightarrow> (Admit a f p, u))))"

definition unattributed :: "upstream_side \<Rightarrow> attribution_error \<Rightarrow> up_calls \<Rightarrow> admission \<times> up_calls" where
  "unattributed us e u = (let r = newRefusal (us_name us) [] ''elicitation'' (attribution_text e) in (Refuse r, set_notes r u))"

text \<open>The refusal when the orphan rule fires but the call's agent could not be prompted anyway goes on the call's note.\<close>

definition attribution_refused :: "upstream_side \<Rightarrow> nat option \<Rightarrow> attribution_error \<Rightarrow> up_calls \<Rightarrow> admission \<times> up_calls" where
  "attribution_refused us sole e u =
     (case Option.bind sole (map_of (uc_calls u)) of
        None \<Rightarrow> unattributed us e u
      | Some f \<Rightarrow>
          (case promptable f of
             None \<Rightarrow> unattributed us e u
           | Some why \<Rightarrow>
               (let r = newRefusal (us_name us) (if_tool f) ''elicitation'' why in (Refuse r, set_note (the sole) r u))))"

text \<open>The address of the attributed call is in the table, so the branch without one is not taken.\<close>

definition upstreamElicitation ::
  "(string \<Rightarrow> string option) \<Rightarrow> (string \<Rightarrow> bool) \<Rightarrow> upstream_side \<Rightarrow> elicit_params option \<Rightarrow> int \<Rightarrow> up_calls \<Rightarrow> admission \<times> up_calls" where
  "upstreamElicitation num label us ep now u =
     (let u1 = snd (prune now u); at = attribute now u1 in
      case at_err at of
        Some e \<Rightarrow> attribution_refused us (at_sole at) e u1
      | None \<Rightarrow>
          (case Option.bind (at_sole at) (map_of (uc_calls u1)) of
             None \<Rightarrow> (Refuse (newRefusal (us_name us) [] ''elicitation'' []), u1)
           | Some f \<Rightarrow> admit_prompt num label us ep (the (at_sole at)) f u1))"

text \<open>Taking the slot of the call, which may have been taken since.\<close>

definition open_prompt :: "upstream_side \<Rightarrow> nat \<Rightarrow> inflight \<Rightarrow> up_calls \<Rightarrow> prompt_refusal option \<times> up_calls" where
  "open_prompt us a f u =
     (case startPrompt a f u of
        (Some e, u1) \<Rightarrow> (let r = newRefusal (us_name us) (if_tool f) ''elicitation'' e in (Some r, set_refused a r u1))
      | (None, u1) \<Rightarrow> (None, u1))"

text \<open>What the upstream gets for the agent's answer, with the slot released: the cleaned answer, or an error that says nothing of it.\<close>

definition not_answered :: string where "not_answered = ''fathomgate: the client did not answer the elicitation''"

definition close_prompt :: "(string \<Rightarrow> string) \<Rightarrow> (string + elicit_result option) \<Rightarrow> nat \<Rightarrow> up_calls \<Rightarrow> (string + elicit_result) \<times> up_calls" where
  "close_prompt quote answer a u =
     (case bind_result answer (cleanElicitResult quote) of
        Inl e \<Rightarrow> (Inl not_answered, endPrompt a u)
      | Inr r \<Rightarrow> (Inr r, endPrompt a u))"

section \<open>Input requests of a result\<close>

text \<open>The prompts of one result, put to a stateful agent one at a time in the order of their ids. \<open>answers\<close> is what the agent's
  session returns, \<open>cancelled\<close> whether the call's context has ended when it fails.\<close>

datatype asked = Answers "(string, elicit_result) gomap" | Stop string | Cancelled

definition relay_failed :: "string \<Rightarrow> string \<Rightarrow> string" where
  "relay_failed server tool =
     ''fathomgate could not relay an input request from upstream '' @ server @ '' during '' @ tool
     @ '' to the agent: the client did not answer it, or its answer did not fit the form''"

fun ask_all ::
  "(string \<Rightarrow> string) \<Rightarrow> string \<Rightarrow> string \<Rightarrow> (string \<Rightarrow> string + elicit_result option) \<Rightarrow> (string \<Rightarrow> bool) \<Rightarrow> nat \<Rightarrow> string list
     \<Rightarrow> (string, elicit_result) gomap \<Rightarrow> up_calls \<Rightarrow> asked \<times> up_calls" where
  "ask_all quote server tool answers cancelled a [] out u = (Answers out, u)"
| "ask_all quote server tool answers cancelled a (i # ids) out u =
     (case map_of (uc_calls u) a of
        None \<Rightarrow> (Cancelled, u)
      | Some f \<Rightarrow>
          (case startPrompt a f u of
             (Some e, u1) \<Rightarrow>
               (let r = newRefusal server tool ''input_required'' e in (Stop (refusal_text r), set_refused a r u1))
           | (None, u1) \<Rightarrow>
               (case bind_result (answers i) (cleanElicitResult quote) of
                  Inl e \<Rightarrow> (if cancelled i then Cancelled else Stop (relay_failed server tool), endPrompt a u1)
                | Inr r \<Rightarrow> ask_all quote server tool answers cancelled a ids (out @ [(i, r)]) (endPrompt a u1))))"

definition askAgent ::
  "(string \<Rightarrow> string) \<Rightarrow> string \<Rightarrow> string \<Rightarrow> (string \<Rightarrow> string + elicit_result option) \<Rightarrow> (string \<Rightarrow> bool) \<Rightarrow> nat
     \<Rightarrow> (string, prompt) gomap \<Rightarrow> up_calls \<Rightarrow> asked \<times> up_calls" where
  "askAgent quote server tool answers cancelled a reqs u = ask_all quote server tool answers cancelled a (sort (go_keys reqs)) [] u"


section \<open>Properties\<close>


lemma relabelElicit_ok:
  assumes "relabelElicit num (hasOriginLabel mark lower) server tool ep = Inr p" "printable server"
  shows "(\<exists>m. pm_message p = promptLabel server @ escapeControl m maxPromptText \<and> \<not> hasOriginLabel mark lower m)
    \<and> \<not> has_control (pm_message p) \<and> (\<forall>v. pm_schema p = Some v \<longrightarrow> schema_ok (hasOriginLabel mark lower) server v)"
proof -
  obtain q where q: "ep = Some q" "\<not> hasOriginLabel mark lower (el_message q)" "pm_message p = promptLabel server @ escapeControl (el_message q) maxPromptText"
    and s: "relabelSchema num (hasOriginLabel mark lower) server (el_schema q) = Inr (pm_schema p)"
    using assms(1) by (auto simp: relabelElicit_def split: option.splits if_splits sum.splits)
  have "schema_ok (hasOriginLabel mark lower) server v" if "pm_schema p = Some v" for v
    using relabelSchema_ok [of num _ server _ v] s that assms(2) by simp
  then show ?thesis using q no_control_append [OF server_label_printable [OF assms(2)]] escape_no_control by auto
qed

lemma admit_prompt_Admit:
  "admit_prompt num label us ep a f u = (Admit b g p, u') \<longleftrightarrow>
     us_handshake us \<and> promptable f = None \<and> \<not> argumentsClosed (us_routes us) (us_name us) (if_tool f)
     \<and> relabelElicit num label (us_name us) (if_tool f) ep = Inr p \<and> b = a \<and> g = f \<and> u' = u"
  by (auto simp: admit_prompt_def refuse_call_def Let_def split: option.splits sum.splits)

lemma attribution_refused_Refuse: "\<exists>r u'. attribution_refused us sole e u = (Refuse r, u')"
  by (auto simp: attribution_refused_def unattributed_def Let_def split: option.split)

text \<open>Property C0 (safety). What an upstream's own prompt must meet to reach a human: when the handler admits one, it is for the only call in
  flight, every call that ended on the upstream and still blocks was made by that call's agent session,
  the upstream was opened with the initialise handshake, the agent is stateful and declared form
  elicitation, the tool's argument list is not closed; and the prompt is the upstream's message,
  escaped, free of control characters and of origin labels, behind the upstream's label, with a
  rebuilt schema.\<close>

theorem upstream_prompt_admitted:
  assumes "up_reach u t h" "upstreamElicitation num (hasOriginLabel mark lower) us ep now u = (Admit a f p, u')" "printable (us_name us)"
  shows "uc_calls u = [(a, f)] \<and> (\<forall>e \<in> set h. max t now < en_expires e \<longrightarrow> en_key e = if_key f)
    \<and> us_handshake us \<and> \<not> agent_stateless (if_agent f) \<and> ag_can_elicit (if_agent f)
    \<and> \<not> argumentsClosed (us_routes us) (us_name us) (if_tool f)
    \<and> (\<exists>m. pm_message p = promptLabel (us_name us) @ escapeControl m maxPromptText \<and> \<not> hasOriginLabel mark lower m)
    \<and> \<not> has_control (pm_message p) \<and> (\<forall>v. pm_schema p = Some v \<longrightarrow> schema_ok (hasOriginLabel mark lower) (us_name us) v)"
proof -
  let ?u1 = "snd (prune now u)"
  have r: "up_reach ?u1 (max t now) h" using assms(1) by (rule up_prune)
  have e: "at_err (attribute now ?u1) = None"
    using assms(2) attribution_refused_Refuse by (auto simp: upstreamElicitation_def Let_def split: option.splits) (metis Pair_inject admission.distinct(1))
  from attribution_owner [OF r e] obtain b g where c: "uc_calls ?u1 = [(b, g)]" "at_sole (attribute now ?u1) = Some b"
    and k: "\<forall>e \<in> set h. max (max t now) now < en_expires e \<longrightarrow> en_key e = if_key g" by blast
  have "admit_prompt num (hasOriginLabel mark lower) us ep b g ?u1 = (Admit a f p, u')" using assms(2) e c by (simp add: upstreamElicitation_def Let_def)
  then have adm: "us_handshake us" "promptable f = None" "\<not> argumentsClosed (us_routes us) (us_name us) (if_tool f)"
      "relabelElicit num (hasOriginLabel mark lower) (us_name us) (if_tool f) ep = Inr p" "b = a" "g = f"
    by (simp_all add: admit_prompt_Admit)
  have "\<not> agent_stateless (if_agent f) \<and> ag_can_elicit (if_agent f)" using adm(2) by (auto simp: promptable_def split: if_splits)
  then show ?thesis using adm c k relabelElicit_ok [OF adm(4) assms(3)] by (simp add: prune_def)
qed

lemma cleanElicitResult_Inr:
  "cleanElicitResult quote r = Inr c \<Longrightarrow> er_action c \<in> {''accept'', ''decline'', ''cancel''} \<and> (er_action c \<noteq> ''accept'' \<longrightarrow> er_content c = None)"
  by (auto simp: cleanElicitResult_def split: option.splits if_splits)

lemma map_of_upd_call: "map_of (uc_calls (upd_call a g u)) b = (if b = a then map_option g (map_of (uc_calls u) b) else map_of (uc_calls u) b)"
  by (cases "map_of (uc_calls u) b") (auto simp: upd_call_def map_of_map_val)

lemma ask_all_Answers:
  assumes "ask_all quote server tool answers cancelled a ids out u = (Answers res, u')" "map_of (uc_calls u) a = Some f" "\<not> if_prompting f"
    "if_prompts f \<le> maxPromptsPerCall"
  shows "\<exists>new f'. res = out @ new \<and> go_keys new = ids
    \<and> (\<forall>(i, r) \<in> set new. er_action r \<in> {''accept'', ''decline'', ''cancel''} \<and> (er_action r \<noteq> ''accept'' \<longrightarrow> er_content r = None))
    \<and> map_of (uc_calls u') a = Some f' \<and> \<not> if_prompting f' \<and> if_prompts f' = if_prompts f + int (length ids) \<and> if_prompts f' \<le> maxPromptsPerCall"
  using assms
proof (induction ids arbitrary: out u f)
  case (Cons i ids)
  let ?u1 = "upd_call a (\<lambda>f. f\<lparr>if_prompting := True, if_prompts := if_prompts f + 1\<rparr>) u"
  have room: "\<not> maxPromptsPerCall \<le> if_prompts f" using Cons.prems by (auto simp: startPrompt_def Let_def)
  then have st: "startPrompt a f u = (None, ?u1)" using Cons.prems by (simp add: startPrompt_def)
  then obtain r where r: "bind_result (answers i) (cleanElicitResult quote) = Inr r"
    using Cons.prems by (cases "bind_result (answers i) (cleanElicitResult quote)") (auto split: if_splits)
  let ?f = "f\<lparr>if_prompting := False, if_prompts := if_prompts f + 1\<rparr>"
  have f: "map_of (uc_calls (endPrompt a ?u1)) a = Some ?f" using Cons.prems(2) by (simp add: endPrompt_def map_of_upd_call)
  have "ask_all quote server tool answers cancelled a ids (out @ [(i, r)]) (endPrompt a ?u1) = (Answers res, u')" using Cons.prems st r by simp
  from Cons.IH [OF this f] obtain new f' where n: "res = (out @ [(i, r)]) @ new" "go_keys new = ids"
    "\<forall>(i, r) \<in> set new. er_action r \<in> {''accept'', ''decline'', ''cancel''} \<and> (er_action r \<noteq> ''accept'' \<longrightarrow> er_content r = None)"
    "map_of (uc_calls u') a = Some f'" "\<not> if_prompting f'" "if_prompts f' = if_prompts ?f + int (length ids)" "if_prompts f' \<le> maxPromptsPerCall"
    using room by auto
  have "er_action r \<in> {''accept'', ''decline'', ''cancel''} \<and> (er_action r \<noteq> ''accept'' \<longrightarrow> er_content r = None)"
    using r cleanElicitResult_Inr by auto
  then show ?case using n by (intro exI [of _ "(i, r) # new"] exI [of _ f']) auto
qed auto

text \<open>Property C0 (functional). Prompts go to the human one at a time and at most ten per call: when the answers to a result's input
  requests are complete, there is one for each request, in the order of the ids, each an accept, or a
  decline or cancel without content; the call's prompt slot is free again, and its counter has grown by
  one for each prompt and has not passed the limit.\<close>

theorem asked_answers:
  assumes "askAgent quote server tool answers cancelled a reqs u = (Answers res, u')" "map_of (uc_calls u) a = Some f" "\<not> if_prompting f"
    "if_prompts f \<le> maxPromptsPerCall"
  shows "go_keys res = sort (go_keys reqs)
    \<and> (\<forall>(i, r) \<in> set res. er_action r \<in> {''accept'', ''decline'', ''cancel''} \<and> (er_action r \<noteq> ''accept'' \<longrightarrow> er_content r = None))
    \<and> (\<exists>f'. map_of (uc_calls u') a = Some f' \<and> \<not> if_prompting f' \<and> if_prompts f' = if_prompts f + int (length reqs) \<and> if_prompts f' \<le> 10)"
  using ask_all_Answers [of quote server tool answers cancelled a "sort (go_keys reqs)" "[]" u res u' f] assms
  by (simp add: askAgent_def maxPromptsPerCall_def)

section \<open>Witnesses\<close>

definition demo_elicit :: elicit_params where
  "demo_elicit = \<lparr>el_mode = ''form'', el_message = ''Hi'', el_url = [], el_id = [], el_schema = None\<rparr>"

definition demo_side :: upstream_side where
  "demo_side = \<lparr>us_name = ''junos'', us_handshake = True, us_routes = []\<rparr>"

lemma demo_prompt:
  "upstreamElicitation Some (hasOriginLabel (\<lambda>_. False) ascii_lower) demo_side (Some demo_elicit) 50 demo_up
    = (Admit 1 demo_inflight \<lparr>pm_message = ''[from junos] Hi'', pm_schema = None\<rparr>, demo_up)"
proof -
  have p: "snd (prune 50 demo_up) = demo_up"
    by (simp add: prune_def pruneOrphans_def demo_up_def expired_def)
  have e: "escapeControl ''Hi'' maxPromptText = ''Hi''"
    by (simp add: escapeControl_def runes_Cons escape_piece_def isControl_def is_format_def format_ranges_def rune_error_def maxPromptText_def)
  have "relabelElicit Some (hasOriginLabel (\<lambda>_. False) ascii_lower) ''junos'' ''show'' (Some demo_elicit) = Inr \<lparr>pm_message = ''[from junos] Hi'', pm_schema = None\<rparr>"
    by (simp add: relabelElicit_def demo_elicit_def plain_not_label relabelSchema_def e promptLabel_def)
  moreover have "promptable demo_inflight = None"
    by (simp add: promptable_def demo_inflight_def demo_keyed_def agent_stateless_def statelessVersion_def)
  moreover have "uc_calls demo_up = [(1, demo_inflight)]" "if_tool demo_inflight = ''show''" by (simp_all add: demo_up_def demo_inflight_def)
  ultimately show ?thesis
    by (simp add: upstreamElicitation_def p demo_attribute admit_prompt_def demo_side_def argumentsClosed_def find_route_def zero_route_def)
qed

theorem upstream_prompt_admitted_witness:
  "uc_calls demo_up = [(1, demo_inflight)] \<and> (\<forall>e \<in> set demo_ended. en_key e = if_key demo_inflight)
    \<and> (\<exists>m. ''[from junos] Hi'' = promptLabel ''junos'' @ escapeControl m maxPromptText \<and> \<not> hasOriginLabel (\<lambda>_. False) ascii_lower m)"
  using upstream_prompt_admitted [OF demo_up_reach demo_prompt] by (simp add: demo_side_def printable_def demo_ended_def)

theorem asked_answers_witness:
  "go_keys (case askAgent id ''junos'' ''show'' (\<lambda>_. Inr (Some \<lparr>er_action = ''accept'', er_content = None\<rparr>)) (\<lambda>_. False) 1 [(''a'', \<lparr>pm_message = [], pm_schema = None\<rparr>)] demo_up
      of (Answers res, _) \<Rightarrow> res | _ \<Rightarrow> []) = [''a'']"
proof -
  have c: "map_of (uc_calls demo_up) 1 = Some demo_inflight" "\<not> if_prompting demo_inflight" "if_prompts demo_inflight \<le> maxPromptsPerCall"
    by (simp_all add: demo_up_def demo_inflight_def maxPromptsPerCall_def)
  obtain u' where a: "askAgent id ''junos'' ''show'' (\<lambda>_. Inr (Some \<lparr>er_action = ''accept'', er_content = None\<rparr>)) (\<lambda>_. False) 1 [(''a'', \<lparr>pm_message = [], pm_schema = None\<rparr>)] demo_up
      = (Answers [(''a'', \<lparr>er_action = ''accept'', er_content = None\<rparr>)], u')"
    by (simp add: askAgent_def c(1) startPrompt_def cleanElicitResult_def demo_inflight_def maxPromptsPerCall_def del: One_nat_def)
  from asked_answers [OF a c] show ?thesis unfolding a by simp
qed

end
