(* ===== verification/Go_Base64.thy ===== *)
theory Go_Base64
  imports Go_Strings
begin

text \<open>
  \<^verbatim>\<open>encoding/base64\<close>'s standard encoding with padding, as the checkpoints' signatures use it. The decoder skips
  newlines and is not strict about the unused bits of the last digit, as \<open>StdEncoding\<close> is.
\<close>

text \<open>The alphabet: \<^verbatim>\<open>A-Z\<close>, \<^verbatim>\<open>a-z\<close>, \<^verbatim>\<open>0-9\<close>, \<^verbatim>\<open>+\<close> and \<^verbatim>\<open>/\<close>.\<close>

definition b64_char :: "nat \<Rightarrow> char" where
  "b64_char n =
     (if n < 26 then char_of (n + 65)
      else if n < 52 then char_of (n + 71)
      else if n < 62 then char_of (n - 4)
      else if n = 62 then char_of (43 :: nat)
      else char_of (47 :: nat))"

definition b64_value :: "char \<Rightarrow> nat option" where
  "b64_value c =
     (let b = byte c in
      if 65 \<le> b \<and> b \<le> 90 then Some (b - 65)
      else if 97 \<le> b \<and> b \<le> 122 then Some (b - 71)
      else if 48 \<le> b \<and> b \<le> 57 then Some (b + 4)
      else if b = 43 then Some 62
      else if b = 47 then Some 63
      else None)"

fun b64_encode :: "string \<Rightarrow> string" where
  "b64_encode [] = []"
| "b64_encode [a] =
     [b64_char (byte a div 4), b64_char (byte a mod 4 * 16), CHR ''='', CHR ''='']"
| "b64_encode [a, b] =
     [b64_char (byte a div 4), b64_char (byte a mod 4 * 16 + byte b div 16), b64_char (byte b mod 16 * 4), CHR ''='']"
| "b64_encode (a # b # c # s) =
     [b64_char (byte a div 4), b64_char (byte a mod 4 * 16 + byte b div 16),
      b64_char (byte b mod 16 * 4 + byte c div 64), b64_char (byte c mod 64)] @ b64_encode s"

text \<open>One quantum of four characters; padding is only in the last one.\<close>

fun b64_quanta :: "string \<Rightarrow> string option" where
  "b64_quanta [] = Some []"
| "b64_quanta (a # b # c # d # s) =
     (case (b64_value a, b64_value b) of
        (Some w, Some x) \<Rightarrow>
          if c = CHR ''='' then
            (if d = CHR ''='' \<and> s = [] then Some [char_of (w * 4 + x div 16)] else None)
          else
            (case b64_value c of
               None \<Rightarrow> None
             | Some y \<Rightarrow>
                 if d = CHR ''='' then
                   (if s = [] then Some [char_of (w * 4 + x div 16), char_of (x mod 16 * 16 + y div 4)] else None)
                 else
                   (case b64_value d of
                      None \<Rightarrow> None
                    | Some z \<Rightarrow>
                        map_option (append [char_of (w * 4 + x div 16), char_of (x mod 16 * 16 + y div 4),
                                            char_of (y mod 4 * 64 + z)]) (b64_quanta s)))
      | _ \<Rightarrow> None)"
| "b64_quanta s = None"

definition b64_decode :: "string \<Rightarrow> string option" where
  "b64_decode s = b64_quanta (filter (\<lambda>c. byte c \<noteq> 10 \<and> byte c \<noteq> 13) s)"

section \<open>Round trip\<close>

lemma b64_char_value:
  assumes "n < 64"
  shows "b64_value (b64_char n) = Some n" "b64_char n \<noteq> CHR ''=''" "byte (b64_char n) \<noteq> 10" "byte (b64_char n) \<noteq> 13"
    "byte (b64_char n) < 128"
proof -
  have e: "byte (CHR ''='') = (61 :: nat)" by simp
  consider "n < 26" | "26 \<le> n" "n < 52" | "52 \<le> n" "n < 62" | "n = 62" | "n = 63" using assms by linarith
  then have "b64_value (b64_char n) = Some n \<and> byte (b64_char n) \<noteq> (61 :: nat) \<and> byte (b64_char n) \<noteq> 10 \<and> byte (b64_char n) \<noteq> 13
      \<and> byte (b64_char n) < 128"
    by cases (auto simp: b64_char_def b64_value_def Let_def)
  then show "b64_value (b64_char n) = Some n" "b64_char n \<noteq> CHR ''=''" "byte (b64_char n) \<noteq> 10" "byte (b64_char n) \<noteq> 13"
    "byte (b64_char n) < 128" using e by metis+
qed

lemma byte_parts:
  "byte a div 4 < 64" "byte a div 16 < 16" "byte a div 64 < 4" "byte a mod 4 < 4" "byte a mod 16 < 16"
  using nat_of_char_less_256 [of a] by (simp_all add: div_less_iff_less_mult del: nat_of_char_less_256)

lemma b64_digits:
  "byte a div 4 < 64" "byte a mod 4 * 16 + byte b div 16 < 64" "byte a mod 4 * 16 < 64"
  "byte b mod 16 * 4 + byte c div 64 < 64" "byte b mod 16 * 4 < 64" "byte c mod 64 < 64"
proof -
  have dig: "x < 4 \<Longrightarrow> y < 16 \<Longrightarrow> x * 16 + y < 64" "y < 16 \<Longrightarrow> x < 4 \<Longrightarrow> y * 4 + x < 64" for x y :: nat by simp_all
  show "byte a div 4 < 64" "byte a mod 4 * 16 + byte b div 16 < 64" "byte b mod 16 * 4 + byte c div 64 < 64"
    by (intro byte_parts dig)+
  show "byte a mod 4 * 16 < 64" "byte b mod 16 * 4 < 64" "byte c mod 64 < 64"
    using dig(1) [OF byte_parts(4) [of a], of 0] dig(2) [OF byte_parts(5) [of b], of 0] by simp_all
qed

lemma shift_add: "(y :: nat) < m \<Longrightarrow> (x * m + y) div m = x" "y < m \<Longrightarrow> (x * m + y) mod m = y"
  by simp_all

lemma b64_last: "byte a mod 4 * 16 div 16 = byte a mod 4" "byte b mod 16 * 4 div 4 = byte b mod 16"
  by simp_all

lemma b64_quantum:
  "b64_quanta (b64_char w # b64_char x # b64_char y # b64_char z # s)
     = map_option (append [char_of (w * 4 + x div 16), char_of (x mod 16 * 16 + y div 4), char_of (y mod 4 * 64 + z)]) (b64_quanta s)"
  if "w < 64" "x < 64" "y < 64" "z < 64" for w x y z :: nat
  using that by (simp add: b64_char_value)

lemma b64_quanta_encode: "b64_quanta (b64_encode s) = Some s"
proof (induction s rule: b64_encode.induct)
  case (2 a)
  have "byte a div 4 * 4 + byte a mod 4 * 16 div 16 = byte a" by simp
  then show ?case by (simp add: b64_char_value b64_digits)
next
  case (3 a b)
  have "byte a div 4 * 4 + (byte a mod 4 * 16 + byte b div 16) div 16 = byte a"
    "(byte a mod 4 * 16 + byte b div 16) mod 16 * 16 + byte b mod 16 * 4 div 4 = byte b"
    using shift_add [OF byte_parts(2) [of b], of "byte a mod 4"] by (simp_all only: b64_last div_mult_mod_eq)
  then show ?case using b64_digits(1) [of a] b64_digits(2) [of a b] b64_digits(5) [of b] by (simp only: b64_encode.simps b64_quanta.simps b64_char_value prod.case option.case) simp
next
  case (4 a b c s)
  have e: "byte a div 4 * 4 + (byte a mod 4 * 16 + byte b div 16) div 16 = byte a"
    "(byte a mod 4 * 16 + byte b div 16) mod 16 * 16 + (byte b mod 16 * 4 + byte c div 64) div 4 = byte b"
    "(byte b mod 16 * 4 + byte c div 64) mod 4 * 64 + byte c mod 64 = byte c"
    using shift_add [OF byte_parts(2) [of b], of "byte a mod 4"] shift_add [OF byte_parts(3) [of c], of "byte b mod 16"]
    by (simp_all only: div_mult_mod_eq)
  show ?case unfolding b64_encode.simps append.simps b64_quantum [OF b64_digits(1,2,4,6)] e 4 by simp
qed simp

lemma b64_encode_bytes: "x \<in> set (b64_encode s) \<Longrightarrow> byte x \<noteq> 10 \<and> byte x \<noteq> 13 \<and> byte x < 128"
  by (induction s rule: b64_encode.induct) (auto simp: b64_char_value b64_digits)

theorem b64_roundtrip: "b64_decode (b64_encode s) = Some s"
proof -
  have "filter (\<lambda>c. byte c \<noteq> 10 \<and> byte c \<noteq> 13) (b64_encode s) = b64_encode s"
    using b64_encode_bytes by (auto simp: filter_id_conv)
  then show ?thesis by (simp add: b64_decode_def b64_quanta_encode)
qed

end
