(* ===== verification/Audit_Event.thy ===== *)
theory Audit_Event
  imports Json_Marshal Go_Base64 "HOL-Library.Word"
begin

text \<open>
  \<^verbatim>\<open>internal/audit\<close>, \<^verbatim>\<open>event.go\<close> and \<^verbatim>\<open>hash.go\<close>: the audit record, its JSON form, the canonical text that is
  hashed and signed, the chain hash and the signed checkpoints. SHA-256 in hex (\<open>sha\<close>) and
  Ed25519 (\<open>sign\<close>, \<open>verify\<close>) are arguments of the definitions that use them. A nil slice is \<open>None\<close>.
\<close>

section \<open>Records\<close>

definition GenesisHash :: string where
  "GenesisHash = replicate 64 (CHR ''0'')"

definition TypeEvent :: string where "TypeEvent = ''call''"

definition TypeCheckpoint :: string where "TypeCheckpoint = ''checkpoint''"

record approval_ref =
  ar_id :: string
  ar_approver :: string
  ar_channel :: string

record event =
  ev_type :: string
  ev_id :: string
  ev_seq :: "64 word"
  ev_ts :: string
  ev_principal :: string
  ev_session :: string
  ev_server :: string
  ev_tool :: string
  ev_class :: string
  ev_args :: string
  ev_targets :: "string list option"
  ev_roles :: "string list option"
  ev_decision :: string
  ev_rule :: string
  ev_reason :: string
  ev_obligations :: "string list option"
  ev_approval :: "approval_ref option"
  ev_status :: string
  ev_duration :: "64 word"
  ev_redactions :: "64 word"
  ev_prev :: string
  ev_hash :: string

record checkpoint =
  cp_type :: string
  cp_seq :: "64 word"
  cp_hash :: string
  cp_sig :: string

section \<open>To JSON\<close>

definition seq_text :: "64 word \<Rightarrow> string" where
  "seq_text w = nat_text (unat w)"

definition int64_text :: "64 word \<Rightarrow> string" where
  "int64_text w = int_text (sint w)"

definition strs_json :: "string list option \<Rightarrow> json" where
  "strs_json ss = (case ss of None \<Rightarrow> JNull | Some ss \<Rightarrow> JStrs ss)"

definition omit_empty :: "string \<Rightarrow> string \<Rightarrow> (string \<times> json) list" where
  "omit_empty k s = (if s = [] then [] else [(k, JStr s)])"

definition approval_json :: "approval_ref \<Rightarrow> json" where
  "approval_json a =
     JObj [(''id'', JStr (ar_id a)), (''approver'', JStr (ar_approver a)), (''channel'', JStr (ar_channel a))]"

definition event_json :: "event \<Rightarrow> json" where
  "event_json e =
     JObj ([(''type'', JStr (ev_type e)), (''event_id'', JStr (ev_id e)), (''seq'', JNum (seq_text (ev_seq e))),
       (''ts'', JStr (ev_ts e)), (''principal'', JStr (ev_principal e)), (''session_id'', JStr (ev_session e)),
       (''server'', JStr (ev_server e)), (''tool'', JStr (ev_tool e)), (''class'', JStr (ev_class e)),
       (''args_sha256'', JStr (ev_args e)), (''targets'', strs_json (ev_targets e)), (''roles'', strs_json (ev_roles e)),
       (''decision'', JStr (ev_decision e)), (''rule_id'', JStr (ev_rule e))]
       @ omit_empty ''reason'' (ev_reason e)
       @ [(''obligations'', strs_json (ev_obligations e))]
       @ (case ev_approval e of None \<Rightarrow> [] | Some a \<Rightarrow> [(''approval'', approval_json a)])
       @ [(''status'', JStr (ev_status e)), (''duration_ms'', JNum (int64_text (ev_duration e))),
          (''redactions'', JNum (int64_text (ev_redactions e))), (''prev_hash'', JStr (ev_prev e))]
       @ omit_empty ''hash'' (ev_hash e))"

definition checkpoint_json :: "checkpoint \<Rightarrow> json" where
  "checkpoint_json c =
     JObj ([(''type'', JStr (cp_type c)), (''seq'', JNum (seq_text (cp_seq c))), (''hash'', JStr (cp_hash c))]
       @ omit_empty ''sig'' (cp_sig c))"

section \<open>Canonical text\<close>

definition writeScalar :: "json \<Rightarrow> string" where
  "writeScalar v = encode_json v"

fun writeCanonical :: "json \<Rightarrow> string" where
  "writeCanonical (JObj m) =
     ''{'' @ join '','' (map snd (sort_key fst (map (\<lambda>(k, v). (k, writeScalar (JStr k) @ '':'' @ writeCanonical v)) m))) @ ''}''"
| "writeCanonical (JArr vs) = ''['' @ join '','' (map writeCanonical vs) @ '']''"
| "writeCanonical (JNum t) = t"
| "writeCanonical v = writeScalar v"

text \<open>\<open>Canonical\<close> of a struct whose JSON form is \<open>v\<close>: marshal, decode into an \<open>any\<close>, write sorted.\<close>

definition Canonical :: "json \<Rightarrow> string option" where
  "Canonical v =
     (case decode_value Some (marshal_json v) of
        None \<Rightarrow> None
      | Some (g, _) \<Rightarrow> Some (writeCanonical g))"

section \<open>Hashes and signatures\<close>

text \<open>The event with the fields \<open>HashEvent\<close> sets, and the hash.\<close>

definition hash_fields :: "event \<Rightarrow> string \<Rightarrow> event" where
  "hash_fields e prev =
     e\<lparr>ev_prev := prev, ev_hash := [], ev_type := (if ev_type e = [] then TypeEvent else ev_type e)\<rparr>"

definition HashEvent :: "(string \<Rightarrow> string) \<Rightarrow> event \<Rightarrow> string \<Rightarrow> event \<times> string option" where
  "HashEvent sha e prev =
     (let e' = hash_fields e prev
      in (e', map_option (\<lambda>c. sha (c @ prev)) (Canonical (event_json e'))))"

definition checkpointMessage :: "64 word \<Rightarrow> string \<Rightarrow> string option" where
  "checkpointMessage seq hash =
     Canonical (checkpoint_json \<lparr>cp_type = TypeCheckpoint, cp_seq = seq, cp_hash = hash, cp_sig = []\<rparr>)"

definition SignCheckpoint :: "('k \<Rightarrow> string \<Rightarrow> string) \<Rightarrow> 'k \<Rightarrow> 64 word \<Rightarrow> string \<Rightarrow> checkpoint option" where
  "SignCheckpoint sign priv seq hash =
     map_option (\<lambda>msg. \<lparr>cp_type = TypeCheckpoint, cp_seq = seq, cp_hash = hash, cp_sig = b64_encode (sign priv msg)\<rparr>)
       (checkpointMessage seq hash)"

datatype checkpoint_error = NoSignature | BadSignatureEncoding | CannotEncode | BadSignature

definition VerifyCheckpoint ::
  "('p \<Rightarrow> string \<Rightarrow> string \<Rightarrow> bool) \<Rightarrow> 'p \<Rightarrow> checkpoint \<Rightarrow> checkpoint_error option" where
  "VerifyCheckpoint verify pub c =
     (if cp_sig c = [] then Some NoSignature
      else
        (case b64_decode (cp_sig c) of
           None \<Rightarrow> Some BadSignatureEncoding
         | Some sig \<Rightarrow>
             (case checkpointMessage (cp_seq c) (cp_hash c) of
                None \<Rightarrow> Some CannotEncode
              | Some msg \<Rightarrow> if verify pub msg sig then None else Some BadSignature)))"

section \<open>From JSON\<close>

text \<open>Decoding into a struct: every member in order; a field is found by its name, else by its
  folded name; a null leaves a string or number as it is and clears a slice or pointer.\<close>

definition fold_rune :: "nat \<Rightarrow> nat" where
  "fold_rune r =
     (if 97 \<le> r \<and> r \<le> 122 then r - 32 else if r = 383 then 83 else if r = 8490 then 75 else r)"

definition fold_name :: "string \<Rightarrow> nat list" where
  "fold_name s = map (\<lambda>(r, w). fold_rune r) (runes s)"

definition field_of :: "string list \<Rightarrow> string \<Rightarrow> string option" where
  "field_of names k =
     (if k \<in> set names then Some k else find_first (\<lambda>n. fold_name n = fold_name k) names)"

fun decode_members ::
  "string list \<Rightarrow> bool \<Rightarrow> (string \<Rightarrow> json \<Rightarrow> 'a \<Rightarrow> 'a option) \<Rightarrow> (string \<times> json) list \<Rightarrow> 'a \<Rightarrow> 'a option" where
  "decode_members names strict set_field [] a = Some a"
| "decode_members names strict set_field ((k, v) # m) a =
     (case field_of names k of
        None \<Rightarrow> if strict then None else decode_members names strict set_field m a
      | Some f \<Rightarrow>
          (case set_field f v a of
             None \<Rightarrow> None
           | Some a' \<Rightarrow> decode_members names strict set_field m a'))"

definition decode_struct ::
  "string list \<Rightarrow> bool \<Rightarrow> (string \<Rightarrow> json \<Rightarrow> 'a \<Rightarrow> 'a option) \<Rightarrow> json \<Rightarrow> 'a \<Rightarrow> 'a option" where
  "decode_struct names strict set_field v a =
     (case v of
        JObj m \<Rightarrow> decode_members names strict set_field m a
      | JNull \<Rightarrow> Some a
      | _ \<Rightarrow> None)"

definition str_slot :: "string \<Rightarrow> json \<Rightarrow> string option" where
  "str_slot old v = (case v of JNull \<Rightarrow> Some old | JStr s \<Rightarrow> Some s | _ \<Rightarrow> None)"

text \<open>\<open>strconv.ParseUint\<close> and \<open>ParseInt\<close>, base 10 and 64 bits, of a number's literal.\<close>

definition parse_uint64 :: "string \<Rightarrow> (64 word) option" where
  "parse_uint64 t =
     (if t \<noteq> [] \<and> list_all is_decimal t \<and> decimal_value t < 2 ^ 64 then Some (word_of_nat (decimal_value t)) else None)"

definition parse_int64 :: "string \<Rightarrow> (64 word) option" where
  "parse_int64 t =
     (let (neg, ds) = (case t of [] \<Rightarrow> (False, []) | c # u \<Rightarrow> if c = CHR ''-'' then (True, u) else (False, t));
          n = int (decimal_value ds)
      in if ds = [] \<or> \<not> list_all is_decimal ds then None
         else if neg then (if n \<le> 2 ^ 63 then Some (word_of_int (- n)) else None)
         else (if n < 2 ^ 63 then Some (word_of_int n) else None))"

definition uint_slot :: "64 word \<Rightarrow> json \<Rightarrow> (64 word) option" where
  "uint_slot old v = (case v of JNull \<Rightarrow> Some old | JNum t \<Rightarrow> parse_uint64 t | _ \<Rightarrow> None)"

definition int_slot :: "64 word \<Rightarrow> json \<Rightarrow> (64 word) option" where
  "int_slot old v = (case v of JNull \<Rightarrow> Some old | JNum t \<Rightarrow> parse_int64 t | _ \<Rightarrow> None)"

text \<open>An array is decoded into the elements the slice has, and into zero strings past them.\<close>

fun str_elems :: "string list \<Rightarrow> json list \<Rightarrow> string list option" where
  "str_elems old [] = Some []"
| "str_elems old (v # vs) =
     (case str_slot (case old of [] \<Rightarrow> [] | s # _ \<Rightarrow> s) v of
        None \<Rightarrow> None
      | Some s \<Rightarrow> map_option (Cons s) (str_elems (tl old) vs))"

definition strs_slot :: "string list option \<Rightarrow> json \<Rightarrow> string list option option" where
  "strs_slot old v =
     (case v of
        JNull \<Rightarrow> Some None
      | JArr vs \<Rightarrow> map_option Some (str_elems (case old of None \<Rightarrow> [] | Some ss \<Rightarrow> ss) vs)
      | _ \<Rightarrow> None)"

definition approval_fields :: "string list" where
  "approval_fields = [''id'', ''approver'', ''channel'']"

definition set_approval :: "string \<Rightarrow> json \<Rightarrow> approval_ref \<Rightarrow> approval_ref option" where
  "set_approval f v a =
     (if f = ''id'' then map_option (\<lambda>s. a\<lparr>ar_id := s\<rparr>) (str_slot (ar_id a) v)
      else if f = ''approver'' then map_option (\<lambda>s. a\<lparr>ar_approver := s\<rparr>) (str_slot (ar_approver a) v)
      else map_option (\<lambda>s. a\<lparr>ar_channel := s\<rparr>) (str_slot (ar_channel a) v))"

definition zero_approval :: approval_ref where
  "zero_approval = \<lparr>ar_id = [], ar_approver = [], ar_channel = []\<rparr>"

definition approval_slot :: "approval_ref option \<Rightarrow> json \<Rightarrow> approval_ref option option" where
  "approval_slot old v =
     (if v = JNull then Some None
      else map_option Some
        (decode_struct approval_fields True set_approval v (case old of None \<Rightarrow> zero_approval | Some a \<Rightarrow> a)))"

definition event_fields :: "string list" where
  "event_fields =
     [''type'', ''event_id'', ''seq'', ''ts'', ''principal'', ''session_id'', ''server'', ''tool'', ''class'', ''args_sha256'',
      ''targets'', ''roles'', ''decision'', ''rule_id'', ''reason'', ''obligations'', ''approval'', ''status'', ''duration_ms'',
      ''redactions'', ''prev_hash'', ''hash'']"

definition set_event :: "string \<Rightarrow> json \<Rightarrow> event \<Rightarrow> event option" where
  "set_event f v e =
     (if f = ''type'' then map_option (\<lambda>s. e\<lparr>ev_type := s\<rparr>) (str_slot (ev_type e) v)
      else if f = ''event_id'' then map_option (\<lambda>s. e\<lparr>ev_id := s\<rparr>) (str_slot (ev_id e) v)
      else if f = ''seq'' then map_option (\<lambda>n. e\<lparr>ev_seq := n\<rparr>) (uint_slot (ev_seq e) v)
      else if f = ''ts'' then map_option (\<lambda>s. e\<lparr>ev_ts := s\<rparr>) (str_slot (ev_ts e) v)
      else if f = ''principal'' then map_option (\<lambda>s. e\<lparr>ev_principal := s\<rparr>) (str_slot (ev_principal e) v)
      else if f = ''session_id'' then map_option (\<lambda>s. e\<lparr>ev_session := s\<rparr>) (str_slot (ev_session e) v)
      else if f = ''server'' then map_option (\<lambda>s. e\<lparr>ev_server := s\<rparr>) (str_slot (ev_server e) v)
      else if f = ''tool'' then map_option (\<lambda>s. e\<lparr>ev_tool := s\<rparr>) (str_slot (ev_tool e) v)
      else if f = ''class'' then map_option (\<lambda>s. e\<lparr>ev_class := s\<rparr>) (str_slot (ev_class e) v)
      else if f = ''args_sha256'' then map_option (\<lambda>s. e\<lparr>ev_args := s\<rparr>) (str_slot (ev_args e) v)
      else if f = ''targets'' then map_option (\<lambda>ss. e\<lparr>ev_targets := ss\<rparr>) (strs_slot (ev_targets e) v)
      else if f = ''roles'' then map_option (\<lambda>ss. e\<lparr>ev_roles := ss\<rparr>) (strs_slot (ev_roles e) v)
      else if f = ''decision'' then map_option (\<lambda>s. e\<lparr>ev_decision := s\<rparr>) (str_slot (ev_decision e) v)
      else if f = ''rule_id'' then map_option (\<lambda>s. e\<lparr>ev_rule := s\<rparr>) (str_slot (ev_rule e) v)
      else if f = ''reason'' then map_option (\<lambda>s. e\<lparr>ev_reason := s\<rparr>) (str_slot (ev_reason e) v)
      else if f = ''obligations'' then map_option (\<lambda>ss. e\<lparr>ev_obligations := ss\<rparr>) (strs_slot (ev_obligations e) v)
      else if f = ''approval'' then map_option (\<lambda>a. e\<lparr>ev_approval := a\<rparr>) (approval_slot (ev_approval e) v)
      else if f = ''status'' then map_option (\<lambda>s. e\<lparr>ev_status := s\<rparr>) (str_slot (ev_status e) v)
      else if f = ''duration_ms'' then map_option (\<lambda>n. e\<lparr>ev_duration := n\<rparr>) (int_slot (ev_duration e) v)
      else if f = ''redactions'' then map_option (\<lambda>n. e\<lparr>ev_redactions := n\<rparr>) (int_slot (ev_redactions e) v)
      else if f = ''prev_hash'' then map_option (\<lambda>s. e\<lparr>ev_prev := s\<rparr>) (str_slot (ev_prev e) v)
      else map_option (\<lambda>s. e\<lparr>ev_hash := s\<rparr>) (str_slot (ev_hash e) v))"

definition zero_event :: event where
  "zero_event =
     \<lparr>ev_type = [], ev_id = [], ev_seq = 0, ev_ts = [], ev_principal = [], ev_session = [], ev_server = [], ev_tool = [],
      ev_class = [], ev_args = [], ev_targets = None, ev_roles = None, ev_decision = [], ev_rule = [], ev_reason = [],
      ev_obligations = None, ev_approval = None, ev_status = [], ev_duration = 0, ev_redactions = 0, ev_prev = [], ev_hash = []\<rparr>"

definition decode_event :: "json \<Rightarrow> event option" where
  "decode_event v = decode_struct event_fields True set_event v zero_event"

definition checkpoint_fields :: "string list" where
  "checkpoint_fields = [''type'', ''seq'', ''hash'', ''sig'']"

definition set_checkpoint :: "string \<Rightarrow> json \<Rightarrow> checkpoint \<Rightarrow> checkpoint option" where
  "set_checkpoint f v c =
     (if f = ''type'' then map_option (\<lambda>s. c\<lparr>cp_type := s\<rparr>) (str_slot (cp_type c) v)
      else if f = ''seq'' then map_option (\<lambda>n. c\<lparr>cp_seq := n\<rparr>) (uint_slot (cp_seq c) v)
      else if f = ''hash'' then map_option (\<lambda>s. c\<lparr>cp_hash := s\<rparr>) (str_slot (cp_hash c) v)
      else map_option (\<lambda>s. c\<lparr>cp_sig := s\<rparr>) (str_slot (cp_sig c) v))"

definition zero_checkpoint :: checkpoint where
  "zero_checkpoint = \<lparr>cp_type = [], cp_seq = 0, cp_hash = [], cp_sig = []\<rparr>"

definition decode_checkpoint :: "json \<Rightarrow> checkpoint option" where
  "decode_checkpoint v = decode_struct checkpoint_fields False set_checkpoint v zero_checkpoint"

text \<open>The head of a line: its type and sequence number.\<close>

definition set_head :: "string \<Rightarrow> json \<Rightarrow> string \<times> 64 word \<Rightarrow> (string \<times> 64 word) option" where
  "set_head f v h =
     (if f = ''type'' then map_option (\<lambda>s. (s, snd h)) (str_slot (fst h) v)
      else map_option (\<lambda>n. (fst h, n)) (uint_slot (snd h) v))"

definition decode_head :: "json \<Rightarrow> (string \<times> 64 word) option" where
  "decode_head v = decode_struct [''type'', ''seq''] False set_head v ([], 0)"

section \<open>Numbers\<close>

lemma nat_text_list_all [simp]: "list_all is_decimal (nat_text n)"
  using nat_text_digits by (auto simp: list_all_iff)

lemma nat_text_first: "0 < n \<Longrightarrow> hd (nat_text n) \<noteq> CHR ''0''"
proof (induction n rule: nat_text.induct)
  case (1 n)
  show ?case
  proof (cases "n < 10")
    case True
    have "byte (digit_char n) = 48 + n" using True by (simp add: digit_char_def)
    then have "digit_char n \<noteq> CHR ''0''" using 1(2) by auto
    then show ?thesis using True by (subst nat_text.simps) simp
  next
    case False
    then have "hd (nat_text (n div 10)) \<noteq> CHR ''0''" using 1(1) by simp
    then show ?thesis using False by (subst nat_text.simps) simp
  qed
qed

lemma nat_text_zero: "nat_text 0 = ''0''"
proof -
  have "char_of (48 :: nat) = CHR ''0''" by code_simp
  then show ?thesis by (subst nat_text.simps) (simp add: digit_char_def)
qed

lemma parse_int_part_nat: "parse_int_part (nat_text n) = Some (nat_text n, [])"
proof (cases "n = 0")
  case True
  then show ?thesis by (simp add: nat_text_zero parse_int_part_def)
next
  case False
  obtain c t where ct: "nat_text n = c # t" by (cases "nat_text n") (use nat_text_nonempty in blast)+
  have d: "list_all is_decimal (c # t)" using nat_text_list_all [of n] ct by simp
  have "c \<noteq> CHR ''0''" using nat_text_first [of n] False ct by simp
  moreover have "takeWhile is_decimal (c # t) = c # t" "dropWhile is_decimal (c # t) = []"
    using d by (auto simp: list_all_iff takeWhile_eq_all_conv dropWhile_eq_Nil_conv)
  ultimately show ?thesis using d ct by (simp add: parse_int_part_def digits_of_def)
qed

lemma nat_text_not_minus: "nat_text n = c # t \<Longrightarrow> c \<noteq> CHR ''-''"
  using nat_text_digits [of c n] by (auto simp: is_decimal_def)

lemma parse_number_nat: "parse_number (nat_text n) = Some (nat_text n, [])"
proof -
  obtain c t where ct: "nat_text n = c # t" by (cases "nat_text n") (use nat_text_nonempty in blast)+
  then have "c \<noteq> CHR ''-''" by (rule nat_text_not_minus)
  then show ?thesis using parse_int_part_nat [of n] ct by (simp add: parse_number_def parse_frac_def parse_exp_def)
qed

lemma parse_number_int: "parse_number (int_text i) = Some (int_text i, [])"
  using parse_number_nat [of "nat i"] parse_int_part_nat [of "nat (- i)"]
  by (simp add: int_text_def parse_number_def parse_frac_def parse_exp_def)

lemma int_text_bytes: "c \<in> set (int_text i) \<Longrightarrow> c = CHR ''-'' \<or> is_decimal c"
  by (auto simp: int_text_def nat_text_digits split: if_splits)

lemma sound_numbers [simp]:
  "sound_nums (JNum (seq_text w))" "sound_nums (JNum (int64_text w))"
  using parse_number_nat parse_number_int int_text_bytes nat_text_digits
  by (auto simp: seq_text_def int64_text_def)

lemma parse_uint64_text [simp]: "parse_uint64 (seq_text w) = Some w"
  using unsigned_less [of w] by (simp add: parse_uint64_def seq_text_def decimal_value_nat_text)

lemma parse_int64_text [simp]: "parse_int64 (int64_text w) = Some w"
proof -
  have r: "- (2 ^ 63) \<le> sint w" "sint w < 2 ^ 63" using sint_range_size [of w] by (simp_all add: word_size)
  show ?thesis
  proof (cases "sint w < 0")
    case True
    then show ?thesis using r by (simp add: parse_int64_def int64_text_def int_text_def decimal_value_nat_text)
  next
    case False
    obtain c t where ct: "nat_text (nat (sint w)) = c # t"
      by (cases "nat_text (nat (sint w))") (use nat_text_nonempty in blast)+
    then have "c \<noteq> CHR ''-''" by (rule nat_text_not_minus)
    moreover have "decimal_value (c # t) = nat (sint w)" "list_all is_decimal (c # t)"
      using decimal_value_nat_text [of "nat (sint w)"] nat_text_list_all [of "nat (sint w)"] unfolding ct by simp_all
    ultimately show ?thesis using r False ct by (simp add: parse_int64_def int64_text_def int_text_def)
  qed
qed

section \<open>Round trip of an event\<close>

definition sane_approval :: "approval_ref \<Rightarrow> approval_ref" where
  "sane_approval a =
     \<lparr>ar_id = to_valid (ar_id a), ar_approver = to_valid (ar_approver a), ar_channel = to_valid (ar_channel a)\<rparr>"

abbreviation sane_strs :: "string list option \<Rightarrow> string list option" where
  "sane_strs \<equiv> map_option (map to_valid)"

definition sane_event :: "event \<Rightarrow> event" where
  "sane_event e =
     \<lparr>ev_type = to_valid (ev_type e), ev_id = to_valid (ev_id e), ev_seq = ev_seq e, ev_ts = to_valid (ev_ts e),
      ev_principal = to_valid (ev_principal e), ev_session = to_valid (ev_session e), ev_server = to_valid (ev_server e),
      ev_tool = to_valid (ev_tool e), ev_class = to_valid (ev_class e), ev_args = to_valid (ev_args e),
      ev_targets = sane_strs (ev_targets e), ev_roles = sane_strs (ev_roles e), ev_decision = to_valid (ev_decision e),
      ev_rule = to_valid (ev_rule e), ev_reason = to_valid (ev_reason e), ev_obligations = sane_strs (ev_obligations e),
      ev_approval = map_option sane_approval (ev_approval e), ev_status = to_valid (ev_status e),
      ev_duration = ev_duration e, ev_redactions = ev_redactions e, ev_prev = to_valid (ev_prev e), ev_hash = to_valid (ev_hash e)\<rparr>"

definition sane_checkpoint :: "checkpoint \<Rightarrow> checkpoint" where
  "sane_checkpoint c = \<lparr>cp_type = to_valid (cp_type c), cp_seq = cp_seq c, cp_hash = to_valid (cp_hash c), cp_sig = to_valid (cp_sig c)\<rparr>"

lemma to_valid_Nil [simp]: "to_valid [] = []"
  by (simp add: to_valid_def)

lemma field_names_valid:
  "to_valid ''type'' = ''type''" "to_valid ''event_id'' = ''event_id''" "to_valid ''seq'' = ''seq''" "to_valid ''ts'' = ''ts''"
  "to_valid ''principal'' = ''principal''" "to_valid ''session_id'' = ''session_id''" "to_valid ''server'' = ''server''"
  "to_valid ''tool'' = ''tool''" "to_valid ''class'' = ''class''" "to_valid ''args_sha256'' = ''args_sha256''"
  "to_valid ''targets'' = ''targets''" "to_valid ''roles'' = ''roles''" "to_valid ''decision'' = ''decision''"
  "to_valid ''rule_id'' = ''rule_id''" "to_valid ''reason'' = ''reason''" "to_valid ''obligations'' = ''obligations''"
  "to_valid ''approval'' = ''approval''" "to_valid ''status'' = ''status''" "to_valid ''duration_ms'' = ''duration_ms''"
  "to_valid ''redactions'' = ''redactions''" "to_valid ''prev_hash'' = ''prev_hash''" "to_valid ''hash'' = ''hash''"
  "to_valid ''id'' = ''id''" "to_valid ''approver'' = ''approver''" "to_valid ''channel'' = ''channel''" "to_valid ''sig'' = ''sig''"
  by (simp_all add: to_valid_ascii)

lemma str_slot_str [simp]: "str_slot old (JStr s) = Some s"
  by (simp add: str_slot_def)

lemma str_elems_strs [simp]: "str_elems old (map (\<lambda>s. JStr (to_valid s)) ss) = Some (map to_valid ss)"
  by (induction ss arbitrary: old) simp_all

lemma strs_slot_json [simp]: "strs_slot None (sane (strs_json ss)) = Some (sane_strs ss)"
  by (cases ss) (simp_all add: strs_json_def strs_slot_def)

lemma num_slots [simp]:
  "uint_slot old (JNum (seq_text w)) = Some w" "int_slot old (JNum (int64_text w)) = Some w"
  by (simp_all add: uint_slot_def int_slot_def)

lemma decode_members_append:
  "decode_members names strict f (m @ m') a
     = (case decode_members names strict f m a of None \<Rightarrow> None | Some a' \<Rightarrow> decode_members names strict f m' a')"
  by (induction names strict f m a rule: decode_members.induct) (auto split: option.splits)

lemma decode_members_known:
  "k \<in> set names \<Longrightarrow> decode_members names strict f ((k, v) # m) a
     = (case f k v a of None \<Rightarrow> None | Some a' \<Rightarrow> decode_members names strict f m a')"
  by (simp add: field_of_def)

lemma approval_back:
  "approval_slot None (sane (approval_json a)) = Some (Some (sane_approval a))"
  by (simp add: approval_slot_def approval_json_def decode_struct_def field_names_valid approval_fields_def field_of_def
      set_approval_def sane_approval_def zero_approval_def)

lemma decode_omit:
  "k \<in> set names \<Longrightarrow> decode_members names strict f (map (\<lambda>(k, v). (to_valid k, sane v)) (omit_empty k s) @ m) a
     = (if s = [] then decode_members names strict f m a
        else case f k (JStr (to_valid s)) a of None \<Rightarrow> None | Some a' \<Rightarrow> decode_members names strict f m a')"
  if "to_valid k = k"
  using that by (simp add: omit_empty_def field_of_def)

lemma set_event_simps:
  "set_event ''type'' v e = map_option (\<lambda>x. e\<lparr>ev_type := x\<rparr>) (str_slot (ev_type e) v)"
  "set_event ''event_id'' v e = map_option (\<lambda>x. e\<lparr>ev_id := x\<rparr>) (str_slot (ev_id e) v)"
  "set_event ''seq'' v e = map_option (\<lambda>x. e\<lparr>ev_seq := x\<rparr>) (uint_slot (ev_seq e) v)"
  "set_event ''ts'' v e = map_option (\<lambda>x. e\<lparr>ev_ts := x\<rparr>) (str_slot (ev_ts e) v)"
  "set_event ''principal'' v e = map_option (\<lambda>x. e\<lparr>ev_principal := x\<rparr>) (str_slot (ev_principal e) v)"
  "set_event ''session_id'' v e = map_option (\<lambda>x. e\<lparr>ev_session := x\<rparr>) (str_slot (ev_session e) v)"
  "set_event ''server'' v e = map_option (\<lambda>x. e\<lparr>ev_server := x\<rparr>) (str_slot (ev_server e) v)"
  "set_event ''tool'' v e = map_option (\<lambda>x. e\<lparr>ev_tool := x\<rparr>) (str_slot (ev_tool e) v)"
  "set_event ''class'' v e = map_option (\<lambda>x. e\<lparr>ev_class := x\<rparr>) (str_slot (ev_class e) v)"
  "set_event ''args_sha256'' v e = map_option (\<lambda>x. e\<lparr>ev_args := x\<rparr>) (str_slot (ev_args e) v)"
  "set_event ''targets'' v e = map_option (\<lambda>x. e\<lparr>ev_targets := x\<rparr>) (strs_slot (ev_targets e) v)"
  "set_event ''roles'' v e = map_option (\<lambda>x. e\<lparr>ev_roles := x\<rparr>) (strs_slot (ev_roles e) v)"
  "set_event ''decision'' v e = map_option (\<lambda>x. e\<lparr>ev_decision := x\<rparr>) (str_slot (ev_decision e) v)"
  "set_event ''rule_id'' v e = map_option (\<lambda>x. e\<lparr>ev_rule := x\<rparr>) (str_slot (ev_rule e) v)"
  "set_event ''reason'' v e = map_option (\<lambda>x. e\<lparr>ev_reason := x\<rparr>) (str_slot (ev_reason e) v)"
  "set_event ''obligations'' v e = map_option (\<lambda>x. e\<lparr>ev_obligations := x\<rparr>) (strs_slot (ev_obligations e) v)"
  "set_event ''approval'' v e = map_option (\<lambda>x. e\<lparr>ev_approval := x\<rparr>) (approval_slot (ev_approval e) v)"
  "set_event ''status'' v e = map_option (\<lambda>x. e\<lparr>ev_status := x\<rparr>) (str_slot (ev_status e) v)"
  "set_event ''duration_ms'' v e = map_option (\<lambda>x. e\<lparr>ev_duration := x\<rparr>) (int_slot (ev_duration e) v)"
  "set_event ''redactions'' v e = map_option (\<lambda>x. e\<lparr>ev_redactions := x\<rparr>) (int_slot (ev_redactions e) v)"
  "set_event ''prev_hash'' v e = map_option (\<lambda>x. e\<lparr>ev_prev := x\<rparr>) (str_slot (ev_prev e) v)"
  "set_event ''hash'' v e = map_option (\<lambda>x. e\<lparr>ev_hash := x\<rparr>) (str_slot (ev_hash e) v)"
  by (simp_all add: set_event_def)

lemma event_fields_mem:
  "''type'' \<in> set event_fields"
  "''event_id'' \<in> set event_fields"
  "''seq'' \<in> set event_fields"
  "''ts'' \<in> set event_fields"
  "''principal'' \<in> set event_fields"
  "''session_id'' \<in> set event_fields"
  "''server'' \<in> set event_fields"
  "''tool'' \<in> set event_fields"
  "''class'' \<in> set event_fields"
  "''args_sha256'' \<in> set event_fields"
  "''targets'' \<in> set event_fields"
  "''roles'' \<in> set event_fields"
  "''decision'' \<in> set event_fields"
  "''rule_id'' \<in> set event_fields"
  "''reason'' \<in> set event_fields"
  "''obligations'' \<in> set event_fields"
  "''approval'' \<in> set event_fields"
  "''status'' \<in> set event_fields"
  "''duration_ms'' \<in> set event_fields"
  "''redactions'' \<in> set event_fields"
  "''prev_hash'' \<in> set event_fields"
  "''hash'' \<in> set event_fields"
  by (simp_all add: event_fields_def)

lemma decode_event_json: "decode_event (sane (event_json e)) = Some (sane_event e)"
proof (cases "ev_approval e")
  case None
  then show ?thesis
    unfolding decode_event_def decode_struct_def event_json_def
    by (simp add: field_names_valid decode_members_known event_fields_mem set_event_simps decode_omit
        decode_omit [where m = "[]", simplified] zero_event_def sane_event_def del: decode_members.simps(2))
next
  case (Some a)
  then show ?thesis
    unfolding decode_event_def decode_struct_def event_json_def
    by (simp add: field_names_valid decode_members_known event_fields_mem set_event_simps decode_omit approval_back
        decode_omit [where m = "[]", simplified] zero_event_def sane_event_def del: decode_members.simps(2))
qed

section \<open>The canonical text\<close>

lemma writeCanonical_encode: "writeCanonical v = encode_json v"
proof (induction v rule: writeCanonical.induct)
  case (1 m)
  have "map (\<lambda>(k, v). (k, writeScalar (JStr k) @ '':'' @ writeCanonical v)) m
      = map (\<lambda>(k, v). (k, encode_string k @ '':'' @ encode_json v)) m"
    using 1 by (auto simp: writeScalar_def)
  then show ?case by (simp only: writeCanonical.simps encode_json.simps)
next
  case (2 vs)
  then have "map writeCanonical vs = map encode_json vs" by auto
  then show ?case by (simp only: writeCanonical.simps encode_json.simps)
qed (simp_all add: writeScalar_def)

lemma Canonical_sane:
  assumes "sound_nums v" "mdepth v \<le> maxNestingDepth" "distinct_keys (sane v)" "self_ending v"
  shows "Canonical v = Some (encode_json (sane v))"
  using decode_value_marshal [of v "[]"] assms by (simp add: Canonical_def writeCanonical_encode)

text \<open>The JSON form of the log's structs is one the round trips apply to.\<close>

definition plain_struct :: "json \<Rightarrow> bool" where
  "plain_struct v \<longleftrightarrow> sound_nums v \<and> mdepth v \<le> maxNestingDepth \<and> distinct_keys (sane v) \<and> self_ending v"

lemma strs_json_plain [simp]:
  "sound_nums (strs_json ss)" "mdepth (strs_json ss) \<le> Suc 0" "distinct_keys (sane (strs_json ss))"
  by (cases ss; simp add: strs_json_def)+

lemma approval_json_plain [simp]:
  "sound_nums (approval_json a)" "mdepth (approval_json a) \<le> Suc 0" "distinct_keys (sane (approval_json a))"
  by (simp_all add: approval_json_def field_names_valid)

lemma mdepth_obj_le: "\<forall>(k, v) \<in> set m. mdepth v \<le> d \<Longrightarrow> mdepth (JObj m) \<le> Suc d"
proof -
  assume "\<forall>(k, v) \<in> set m. mdepth v \<le> d"
  then have "\<forall>x \<in> set (map (\<lambda>(k, v). mdepth v) m). x \<le> d" by auto
  from fold_max_bound [OF this] show ?thesis by simp
qed

lemma event_json_plain: "plain_struct (event_json e)"
proof -
  have "mdepth (event_json e) \<le> Suc (Suc 0)"
    unfolding event_json_def by (rule mdepth_obj_le) (auto simp: omit_empty_def split: option.splits if_splits)
  moreover have "sound_nums (event_json e)"
    using sound_numbers by (auto simp: event_json_def omit_empty_def split: option.splits simp del: sound_nums.simps(1))
  moreover have "distinct_keys (sane (event_json e))"
    by (cases "ev_approval e"; cases "ev_reason e = []"; cases "ev_hash e = []")
      (simp_all add: event_json_def omit_empty_def field_names_valid)
  moreover have "self_ending (event_json e)" by (simp add: event_json_def)
  ultimately show ?thesis by (simp add: plain_struct_def maxNestingDepth_def)
qed

lemma checkpoint_json_plain: "plain_struct (checkpoint_json c)"
proof -
  have "mdepth (checkpoint_json c) \<le> Suc 0"
    unfolding checkpoint_json_def by (rule mdepth_obj_le) (auto simp: omit_empty_def split: if_splits)
  moreover have "sound_nums (checkpoint_json c)"
    using sound_numbers by (auto simp: checkpoint_json_def omit_empty_def simp del: sound_nums.simps(1))
  moreover have "distinct_keys (sane (checkpoint_json c))"
    by (cases "cp_sig c = []") (simp_all add: checkpoint_json_def omit_empty_def field_names_valid)
  moreover have "self_ending (checkpoint_json c)" by (simp add: checkpoint_json_def)
  ultimately show ?thesis by (simp add: plain_struct_def maxNestingDepth_def)
qed

lemma Canonical_plain: "plain_struct v \<Longrightarrow> Canonical v = Some (encode_json (sane v))"
  by (simp add: plain_struct_def Canonical_sane)

lemma HashEvent_value:
  "HashEvent sha e prev = (hash_fields e prev, Some (sha (encode_json (sane (event_json (hash_fields e prev))) @ prev)))"
  by (simp add: HashEvent_def Let_def Canonical_plain event_json_plain)

text \<open>Equal canonical texts come from equal structs.\<close>

fun field :: "json \<Rightarrow> string \<Rightarrow> json option" where
  "field (JObj m) k = map_of m k"
| "field v k = None"

lemma field_canon:
  assumes "distinct (go_keys m)"
  shows "field (canon id (JObj m)) k = map_option (canon id) (field (JObj m) k)"
proof -
  let ?c = "map (\<lambda>(k, v). (k, canon id v)) m"
  have "map fst ?c = map fst m" by (induction m) auto
  then have d: "distinct (map fst ?c)" using assms by (simp only:)
  then have "distinct (map fst (sort_key fst ?c))" unfolding distinct_map [of fst] by (simp only: distinct_sort set_sort)
  then have "map_of (sort_key fst ?c) = map_of ?c" using d by (subst map_of_inject_set) auto
  then show ?thesis by (simp add: map_of_map)
qed

lemma canonical_fields:
  assumes "plain_struct (JObj m)" "plain_struct (JObj m')" "encode_json (sane (JObj m)) = encode_json (sane (JObj m'))"
  shows "map_option (canon id) (field (sane (JObj m)) k) = map_option (canon id) (field (sane (JObj m')) k)"
proof -
  have "canon id (sane (JObj m)) = canon id (sane (JObj m'))"
    using assms by (intro encode_json_inj) (auto simp: plain_struct_def sane_clean sane_depth simp del: sane.simps)
  moreover have "field (canon id (sane (JObj n))) k = map_option (canon id) (field (sane (JObj n)) k)"
    if "plain_struct (JObj n)" for n
    using that unfolding sane.simps by (intro field_canon) (simp add: plain_struct_def)
  ultimately show ?thesis using assms(1,2) by metis
qed

lemma event_lookup:
  "field (sane (event_json e)) ''type'' = Some (JStr (to_valid (ev_type e)))"
  "field (sane (event_json e)) ''event_id'' = Some (JStr (to_valid (ev_id e)))"
  "field (sane (event_json e)) ''seq'' = Some (JNum (seq_text (ev_seq e)))"
  "field (sane (event_json e)) ''ts'' = Some (JStr (to_valid (ev_ts e)))"
  "field (sane (event_json e)) ''principal'' = Some (JStr (to_valid (ev_principal e)))"
  "field (sane (event_json e)) ''session_id'' = Some (JStr (to_valid (ev_session e)))"
  "field (sane (event_json e)) ''server'' = Some (JStr (to_valid (ev_server e)))"
  "field (sane (event_json e)) ''tool'' = Some (JStr (to_valid (ev_tool e)))"
  "field (sane (event_json e)) ''class'' = Some (JStr (to_valid (ev_class e)))"
  "field (sane (event_json e)) ''args_sha256'' = Some (JStr (to_valid (ev_args e)))"
  "field (sane (event_json e)) ''targets'' = Some (sane (strs_json (ev_targets e)))"
  "field (sane (event_json e)) ''roles'' = Some (sane (strs_json (ev_roles e)))"
  "field (sane (event_json e)) ''decision'' = Some (JStr (to_valid (ev_decision e)))"
  "field (sane (event_json e)) ''rule_id'' = Some (JStr (to_valid (ev_rule e)))"
  "field (sane (event_json e)) ''reason'' = (if ev_reason e = [] then None else Some (JStr (to_valid (ev_reason e))))"
  "field (sane (event_json e)) ''obligations'' = Some (sane (strs_json (ev_obligations e)))"
  "field (sane (event_json e)) ''approval'' = map_option (\<lambda>a. sane (approval_json a)) (ev_approval e)"
  "field (sane (event_json e)) ''status'' = Some (JStr (to_valid (ev_status e)))"
  "field (sane (event_json e)) ''duration_ms'' = Some (JNum (int64_text (ev_duration e)))"
  "field (sane (event_json e)) ''redactions'' = Some (JNum (int64_text (ev_redactions e)))"
  "field (sane (event_json e)) ''prev_hash'' = Some (JStr (to_valid (ev_prev e)))"
  "field (sane (event_json e)) ''hash'' = (if ev_hash e = [] then None else Some (JStr (to_valid (ev_hash e))))"
  by (cases "ev_approval e"; simp add: event_json_def omit_empty_def field_names_valid)+

lemma canon_strs: "canon id (sane (strs_json ss)) = sane (strs_json ss)"
  by (cases ss) (simp_all add: strs_json_def)

lemma strs_inj: "sane (strs_json ss) = sane (strs_json ss') \<Longrightarrow> sane_strs ss = sane_strs ss'"
  using strs_slot_json [of ss] strs_slot_json [of ss'] by simp

lemma num_texts_inj:
  shows "seq_text w = seq_text w' \<Longrightarrow> w = w'" and "int64_text w = int64_text w' \<Longrightarrow> w = w'"
  by (metis parse_uint64_text option.inject, metis parse_int64_text option.inject)

lemma to_valid_eq_Nil: "to_valid s = [] \<longleftrightarrow> s = []"
  by (cases s) (simp_all add: to_valid_def runes_Cons)

lemma approval_inj:
  assumes "canon id (sane (approval_json a)) = canon id (sane (approval_json b))"
  shows "sane_approval a = sane_approval b"
  using assms by (simp add: approval_json_def field_names_valid sane_approval_def)

lemma approvals_inj:
  assumes "map_option (canon id) (map_option (\<lambda>a. sane (approval_json a)) x) = map_option (canon id) (map_option (\<lambda>a. sane (approval_json a)) y)"
  shows "map_option sane_approval x = map_option sane_approval y"
  proof (cases x)
  case (Some a)
  then obtain b where y: "y = Some b" and c: "canon id (sane (approval_json a)) = canon id (sane (approval_json b))"
    using assms by (cases y) (simp_all del: sane.simps canon.simps)
  show ?thesis using approval_inj [OF c] Some y by simp
qed (use assms in \<open>cases y; simp\<close>)

lemma event_canonical_inj:
  assumes "encode_json (sane (event_json e)) = encode_json (sane (event_json e'))"
  shows "sane_event e = sane_event e'"
proof -
  obtain m m' where m: "event_json e = JObj m" "event_json e' = JObj m'" by (simp add: event_json_def)
  have f: "map_option (canon id) (field (sane (event_json e)) k) = map_option (canon id) (field (sane (event_json e')) k)" for k
    using canonical_fields [of m m' k] assms event_json_plain [of e] event_json_plain [of e'] m by simp
  have o: "to_valid (ev_reason e) = to_valid (ev_reason e')" "to_valid (ev_hash e) = to_valid (ev_hash e')"
    using f [of "''reason''"] f [of "''hash''"] unfolding event_lookup by (auto split: if_splits)
  have a: "map_option sane_approval (ev_approval e) = map_option sane_approval (ev_approval e')"
    by (rule approvals_inj [OF f [of "''approval''", unfolded event_lookup]])
  have s: "sane_strs (ev_targets e) = sane_strs (ev_targets e')" "sane_strs (ev_roles e) = sane_strs (ev_roles e')"
      "sane_strs (ev_obligations e) = sane_strs (ev_obligations e')"
    using f [of "''targets''"] f [of "''roles''"] f [of "''obligations''"] unfolding event_lookup
    by (auto simp: canon_strs dest: strs_inj)
  have n: "ev_seq e = ev_seq e'" "ev_duration e = ev_duration e'" "ev_redactions e = ev_redactions e'"
    using f [of "''seq''"] f [of "''duration_ms''"] f [of "''redactions''"] unfolding event_lookup
    by (auto dest: num_texts_inj)
  show ?thesis unfolding sane_event_def o a s n
    using f [of "''type''"] f [of "''event_id''"] f [of "''ts''"] f [of "''principal''"] f [of "''session_id''"]
      f [of "''server''"] f [of "''tool''"] f [of "''class''"] f [of "''args_sha256''"] f [of "''decision''"]
      f [of "''rule_id''"] f [of "''status''"] f [of "''prev_hash''"]
    unfolding event_lookup by simp
qed

section \<open>What a decoder returns\<close>

fun all_valid :: "json \<Rightarrow> bool" where
  "all_valid (JStr s) \<longleftrightarrow> valid_text s"
| "all_valid (JStrs ss) \<longleftrightarrow> False"
| "all_valid (JArr vs) \<longleftrightarrow> (\<forall>v \<in> set vs. all_valid v)"
| "all_valid (JObj m) \<longleftrightarrow> (\<forall>(k, v) \<in> set m. all_valid v)"
| "all_valid v \<longleftrightarrow> True"

lemma parse_scalar_valid: "parse_scalar Some s = Some (v, r) \<Longrightarrow> all_valid v"
  by (auto simp: parse_scalar_def split: if_splits option.splits)

lemma raw_valid:
  "raw_value n k s = Some (v, r) \<Longrightarrow> all_valid v"
  "raw_elems n k s = Some (vs, r) \<Longrightarrow> \<forall>v \<in> set vs. all_valid v"
  "raw_members n k s = Some (m, r) \<Longrightarrow> \<forall>(key, v) \<in> set m. all_valid v"
proof (induction n k s and n k s and n k s arbitrary: v r and vs r and m r rule: raw_value_raw_elems_raw_members.induct)
  case (2 n k s)
  then obtain c t where c: "skip_space s = c # t" by (auto split: list.splits)
  show ?case using 2(1,2) [OF c] 2(3) c
    by (auto dest: parse_string_valid parse_scalar_valid split: if_splits list.splits)
next
  case (4 n k s)
  obtain v' r' where v: "raw_value n k s = Some (v', r')" using 4(3) by (auto split: option.splits)
  show ?case using 4(1) [OF v] 4(2) [OF v] 4(3) v by (auto split: list.splits if_splits)
next
  case (6 n k s)
  obtain q t where q: "skip_space s = q # t" "byte q = 34" using 6(3) by (auto split: list.splits if_splits)
  obtain key u where p: "parse_string t = Some (key, u)" using 6(3) q by (auto split: option.splits)
  obtain c w where c: "skip_space u = c # w" "c = CHR '':''" using 6(3) q p by (auto split: list.splits if_splits)
  obtain v x where v: "raw_value n k w = Some (v, x)" using 6(3) q p c by (auto split: option.splits)
  have a: "all_valid v" using 6(1) [OF q(1) _ p _ c(1) _ v] q(2) c(2) by simp
  show ?case
  proof (cases "skip_space x")
    case (Cons d y)
    have "\<forall>(key, v) \<in> set m'. all_valid v" if "raw_members n k y = Some (m', r')" "d = CHR '',''" for m' r'
      using 6(2) [OF q(1) _ p _ c(1) _ v _ Cons _ _ that(1)] q(2) c(2) that(2) by simp
    then show ?thesis using q p c v a 6(3) Cons by (fastforce split: if_splits)
  qed (use q p c v 6(3) in simp)
qed simp_all

lemma unmarshal_valid: "unmarshal_raw s = Some v \<Longrightarrow> all_valid v"
  by (auto simp: unmarshal_raw_def decode_raw_def split: option.splits if_splits dest: raw_valid(1))

text \<open>The strings of a decoded event are valid, so \<open>sane_event\<close> leaves it as it is.\<close>

definition valid_approval :: "approval_ref \<Rightarrow> bool" where
  "valid_approval a \<longleftrightarrow> to_valid (ar_id a) = ar_id a \<and> to_valid (ar_approver a) = ar_approver a \<and> to_valid (ar_channel a) = ar_channel a"

definition valid_event :: "event \<Rightarrow> bool" where
  "valid_event e \<longleftrightarrow>
     to_valid (ev_type e) = ev_type e
     \<and> to_valid (ev_id e) = ev_id e
     \<and> to_valid (ev_ts e) = ev_ts e
     \<and> to_valid (ev_principal e) = ev_principal e
     \<and> to_valid (ev_session e) = ev_session e
     \<and> to_valid (ev_server e) = ev_server e
     \<and> to_valid (ev_tool e) = ev_tool e
     \<and> to_valid (ev_class e) = ev_class e
     \<and> to_valid (ev_args e) = ev_args e
     \<and> to_valid (ev_decision e) = ev_decision e
     \<and> to_valid (ev_rule e) = ev_rule e
     \<and> to_valid (ev_reason e) = ev_reason e
     \<and> to_valid (ev_status e) = ev_status e
     \<and> to_valid (ev_prev e) = ev_prev e
     \<and> to_valid (ev_hash e) = ev_hash e
     \<and> sane_strs (ev_targets e) = ev_targets e \<and> sane_strs (ev_roles e) = ev_roles e
     \<and> sane_strs (ev_obligations e) = ev_obligations e \<and> map_option sane_approval (ev_approval e) = ev_approval e"

lemma valid_approval_sane: "valid_approval a \<longleftrightarrow> sane_approval a = a"
  by (cases a) (simp add: valid_approval_def sane_approval_def)

lemma valid_event_sane: "valid_event e \<Longrightarrow> sane_event e = e"
  by (cases e) (simp add: valid_event_def sane_event_def)

lemma str_slot_valid: "str_slot old v = Some s \<Longrightarrow> to_valid old = old \<Longrightarrow> all_valid v \<Longrightarrow> to_valid s = s"
  by (cases v) (auto simp: str_slot_def to_valid_id)

lemma str_elems_valid:
  "str_elems old vs = Some ss \<Longrightarrow> map to_valid old = old \<Longrightarrow> \<forall>v \<in> set vs. all_valid v \<Longrightarrow> map to_valid ss = ss"
proof (induction old vs arbitrary: ss rule: str_elems.induct)
  case (2 old v vs)
  have o: "to_valid (case old of [] \<Rightarrow> [] | s # _ \<Rightarrow> s) = (case old of [] \<Rightarrow> [] | s # _ \<Rightarrow> s)" "map to_valid (tl old) = tl old"
    using 2(3) by (cases old; simp)+
  then show ?case using 2(1,2,4) str_slot_valid by (auto split: option.splits)
qed simp

lemma strs_slot_valid:
  "strs_slot old v = Some ss \<Longrightarrow> sane_strs old = old \<Longrightarrow> all_valid v \<Longrightarrow> sane_strs ss = ss"
  by (cases v; cases old) (auto simp: strs_slot_def dest: str_elems_valid)

lemma decode_members_inv:
  assumes "\<And>f v a a'. P a \<Longrightarrow> all_valid v \<Longrightarrow> set_field f v a = Some a' \<Longrightarrow> P a'"
  shows "decode_members names strict set_field m a = Some a' \<Longrightarrow> P a \<Longrightarrow> \<forall>(k, v) \<in> set m. all_valid v \<Longrightarrow> P a'"
proof (induction m arbitrary: a)
  case (Cons kv m)
  obtain k v where kv: "kv = (k, v)" by (cases kv)
  then show ?case using Cons assms [of a v] by (auto split: option.splits if_splits)
qed simp

lemma decode_struct_inv:
  assumes "decode_struct names strict set_field v a = Some a'" "P a" "all_valid v"
    "\<And>f v a a'. P a \<Longrightarrow> all_valid v \<Longrightarrow> set_field f v a = Some a' \<Longrightarrow> P a'"
  shows "P a'"
proof (cases v)
  case (JObj m)
  have m: "decode_members names strict set_field m a = Some a'" "\<forall>(k, v) \<in> set m. all_valid v"
    using assms(1,3) JObj by (simp_all add: decode_struct_def)
  show ?thesis by (rule decode_members_inv [of P set_field, OF assms(4) m(1) assms(2) m(2)])
qed (use assms(1,2) in \<open>simp_all add: decode_struct_def\<close>)

lemma set_approval_valid: "valid_approval a \<Longrightarrow> all_valid v \<Longrightarrow> set_approval f v a = Some a' \<Longrightarrow> valid_approval a'"
  by (auto simp: valid_approval_def set_approval_def dest: str_slot_valid split: if_splits)

lemma approval_slot_valid:
  assumes "approval_slot old v = Some x" "map_option sane_approval old = old" "all_valid v"
  shows "map_option sane_approval x = x"
proof (cases "v = JNull")
  case False
  then obtain a where x: "x = Some a"
    and d: "decode_struct approval_fields True set_approval v (case old of None \<Rightarrow> zero_approval | Some a \<Rightarrow> a) = Some a"
    using assms(1) by (auto simp: approval_slot_def)
  have "valid_approval (case old of None \<Rightarrow> zero_approval | Some a \<Rightarrow> a)"
    using assms(2) by (cases old) (auto simp: valid_approval_sane [symmetric] valid_approval_def zero_approval_def)
  from decode_struct_inv [where P = valid_approval, OF d this assms(3) set_approval_valid]
  show ?thesis by (simp add: x valid_approval_sane [symmetric])
qed (use assms in \<open>simp add: approval_slot_def\<close>)

lemma set_event_valid:
  assumes "valid_event e" "all_valid v" "set_event f v e = Some e'"
  shows "valid_event e'"
  using assms unfolding valid_event_def set_event_def
  by (auto dest: str_slot_valid strs_slot_valid approval_slot_valid split: if_splits)

lemma zero_event_valid: "valid_event zero_event"
  by (simp add: valid_event_def zero_event_def)

lemma decode_event_valid: "decode_event v = Some e \<Longrightarrow> all_valid v \<Longrightarrow> valid_event e"
  unfolding decode_event_def
  by (erule decode_struct_inv [where P = valid_event, OF _ zero_event_valid _ set_event_valid])

end
