(* ===== verification/Proxy_State.thy ===== *)
theory Proxy_State
  imports Proxy_Elicit Audit_Event
begin

text \<open>
  \<^verbatim>\<open>internal/proxy/state.go\<close> and the MRTR retry of \<^verbatim>\<open>internal/proxy/input.go\<close> (\<open>resume\<close>): the sealed requestState a
  stateless agent carries between rounds. AES-GCM is a pair of arguments: \<open>enc nonce plain aad\<close>
  returns the ciphertext with its tag, \<open>dec\<close> the plaintext or \<open>None\<close>. SHA-256 (\<open>sha\<close>, the 32 bytes) is an argument too.
  Times are nanoseconds.
\<close>

section \<open>Base64 for URLs, without padding\<close>

definition to_url :: "char \<Rightarrow> char" where
  "to_url c = (if byte c = 43 then CHR ''-'' else if byte c = 47 then CHR ''_'' else c)"

definition from_url :: "char \<Rightarrow> char" where
  "from_url c = (if byte c = 45 then CHR ''+'' else if byte c = 95 then CHR ''/'' else c)"

definition rawurl_encode :: "string \<Rightarrow> string" where
  "rawurl_encode s = map to_url (filter (\<lambda>c. byte c \<noteq> 61) (b64_encode s))"

definition rawurl_decode :: "string \<Rightarrow> string option" where
  "rawurl_decode s =
     (let t = filter (\<lambda>c. byte c \<noteq> 10 \<and> byte c \<noteq> 13) s in
      if list_ex (\<lambda>c. byte c \<in> {43, 47, 61}) t \<or> length t mod 4 = 1 then None
      else b64_quanta (map from_url t @ replicate ((4 - length t mod 4) mod 4) (CHR ''='')))"

section \<open>The state and its binding\<close>

definition statePrefix :: string where "statePrefix = ''fg4.''"
definition maxRequestState :: nat where "maxRequestState = 64 * 1024"
definition maxSealedState :: nat where "maxSealedState = 96 * 1024"
definition stateTTL :: int where "stateTTL = 30 * 60 * 1000000000"
definition maxInputRounds :: int where "maxInputRounds = 10"

definition nonceSize :: nat where "nonceSize = 12"
definition tagSize :: nat where "tagSize = 16"

record sealed_state =
  st_server :: string
  st_tool :: string
  st_args :: string
  st_ids :: "string list option"
  st_up :: string
  st_round :: "64 word"
  st_prompts :: "64 word"
  st_exp :: "64 word"

definition retiredStatePrefixes :: "string list" where
  "retiredStatePrefixes = [''ng1.'', ''ng2.'', ''ng3.'']"

datatype state_error = StateMalformed | StateAuth | StateRetired | StateExpired | StateTooLarge | StateOtherTool | StateOtherArgs

fun state_text :: "state_error \<Rightarrow> string" where
  "state_text StateMalformed = ''requestState was not issued by fathomgate''"
| "state_text StateAuth = ''requestState does not verify''"
| "state_text StateRetired = ''requestState was issued by an earlier fathomgate process; call the tool again without it''"
| "state_text StateExpired = ''requestState has expired; call the tool again without it''"
| "state_text StateTooLarge = ''the sealed requestState would exceed the size fathomgate accepts''"
| "state_text StateOtherTool = ''requestState was issued for another tool''"
| "state_text StateOtherArgs = ''arguments differ from the call that asked for input''"

record state_binding =
  sb_transport :: transport
  sb_principal :: string

definition aad :: "state_binding \<Rightarrow> string" where
  "aad b = statePrefix @ transport_text (sb_transport b) @ [CHR 0x00] @ sb_principal b @ [CHR 0x00]"

definition state_json :: "sealed_state \<Rightarrow> json" where
  "state_json st =
     JObj ([(''s'', JStr (st_server st)), (''t'', JStr (st_tool st)), (''a'', JStr (st_args st)), (''i'', strs_json (st_ids st))]
       @ omit_empty ''u'' (st_up st)
       @ [(''r'', JNum (int64_text (st_round st))), (''p'', JNum (int64_text (st_prompts st))), (''e'', JNum (int64_text (st_exp st)))])"

definition state_fields :: "string list" where
  "state_fields = [''s'', ''t'', ''a'', ''i'', ''u'', ''r'', ''p'', ''e'']"

definition set_state :: "string \<Rightarrow> json \<Rightarrow> sealed_state \<Rightarrow> sealed_state option" where
  "set_state f v st =
     (if f = ''s'' then map_option (\<lambda>s. st\<lparr>st_server := s\<rparr>) (str_slot (st_server st) v)
      else if f = ''t'' then map_option (\<lambda>s. st\<lparr>st_tool := s\<rparr>) (str_slot (st_tool st) v)
      else if f = ''a'' then map_option (\<lambda>s. st\<lparr>st_args := s\<rparr>) (str_slot (st_args st) v)
      else if f = ''i'' then map_option (\<lambda>ss. st\<lparr>st_ids := ss\<rparr>) (strs_slot (st_ids st) v)
      else if f = ''u'' then map_option (\<lambda>s. st\<lparr>st_up := s\<rparr>) (str_slot (st_up st) v)
      else if f = ''r'' then map_option (\<lambda>n. st\<lparr>st_round := n\<rparr>) (int_slot (st_round st) v)
      else if f = ''p'' then map_option (\<lambda>n. st\<lparr>st_prompts := n\<rparr>) (int_slot (st_prompts st) v)
      else map_option (\<lambda>n. st\<lparr>st_exp := n\<rparr>) (int_slot (st_exp st) v))"

definition zero_state :: sealed_state where
  "zero_state =
     \<lparr>st_server = [], st_tool = [], st_args = [], st_ids = None, st_up = [], st_round = 0, st_prompts = 0, st_exp = 0\<rparr>"

section \<open>Sealing and opening\<close>

type_synonym aead_seal = "string \<Rightarrow> string \<Rightarrow> string \<Rightarrow> string"
type_synonym aead_open = "string \<Rightarrow> string \<Rightarrow> string \<Rightarrow> string option"

definition unix :: "int \<Rightarrow> int" where
  "unix now = now div 1000000000"

definition state_plain :: "int \<Rightarrow> sealed_state \<Rightarrow> string" where
  "state_plain now st = marshal_json (state_json (st\<lparr>st_exp := word_of_int (unix (now + stateTTL))\<rparr>))"

definition seal_state :: "aead_seal \<Rightarrow> int \<Rightarrow> string \<Rightarrow> sealed_state \<Rightarrow> state_binding \<Rightarrow> state_error + string" where
  "seal_state enc now nonce st b =
     (let sealed = nonce @ enc nonce (state_plain now st) (aad b);
          out = statePrefix @ rawurl_encode sealed
      in if maxSealedState < length out then Inl StateTooLarge else Inr out)"

definition open_state :: "aead_open \<Rightarrow> int \<Rightarrow> string \<Rightarrow> state_binding \<Rightarrow> state_error + sealed_state" where
  "open_state dec now state b =
     (if maxSealedState < length state then Inl StateMalformed
      else if \<not> has_prefix state statePrefix then
        (if list_ex (has_prefix state) retiredStatePrefixes then Inl StateRetired else Inl StateMalformed)
      else
        (case rawurl_decode (trim_prefix state statePrefix) of
           None \<Rightarrow> Inl StateMalformed
         | Some sealed \<Rightarrow>
             if length sealed < nonceSize + tagSize then Inl StateMalformed
             else
               (case dec (take nonceSize sealed) (drop nonceSize sealed) (aad b) of
                  None \<Rightarrow> Inl StateAuth
                | Some plain \<Rightarrow>
                    (case unmarshal_raw plain of
                       None \<Rightarrow> Inl StateMalformed
                     | Some v \<Rightarrow>
                         (case decode_struct state_fields False set_state v zero_state of
                            None \<Rightarrow> Inl StateMalformed
                          | Some st \<Rightarrow> if sint (st_exp st) < unix now then Inl StateExpired else Inr st)))))"

section \<open>Arguments\<close>

text \<open>\<open>json.Compact\<close> of a valid text: white space outside strings is dropped.\<close>

fun compact :: "bool \<Rightarrow> string \<Rightarrow> string" where
  "compact inside [] = []"
| "compact False (c # s) = (if json_space c then compact False s else c # compact (byte c = 34) s)"
| "compact True [c] = [c]"
| "compact True (c # d # s) =
     (if byte c = 92 then c # d # compact True s else c # compact (byte c \<noteq> 34) (d # s))"

definition compact_args :: "string \<Rightarrow> string" where
  "compact_args raw =
     (let raw = (if raw = [] \<or> raw = ''null'' then ''{}'' else raw)
      in if json_valid raw then compact False raw else raw)"

definition argsDigest :: "(string \<Rightarrow> string) \<Rightarrow> string \<Rightarrow> string" where
  "argsDigest sha raw = rawurl_encode (sha (compact_args raw))"

section \<open>A retry\<close>

datatype input_response = RespElicit "elicit_result option" | RespOther

record resumed =
  rs_responses :: "(string, elicit_result) gomap"
  rs_up :: string
  rs_round :: "64 word"
  rs_prompts :: "64 word"

definition reasonInvalidRequestState :: string where "reasonInvalidRequestState = ''invalid_request_state''"
definition reasonInvalidInputResponse :: string where "reasonInvalidInputResponse = ''invalid_input_responses''"

text \<open>The error of a retry that is not forwarded.\<close>

record retry_error =
  rt_tool :: string
  rt_reason :: string
  rt_detail :: string

definition codeInvalidParams :: int where "codeInvalidParams = -32602"

definition invalidRetry :: "string \<Rightarrow> string \<Rightarrow> string \<Rightarrow> retry_error" where
  "invalidRetry prefixed reason detail = \<lparr>rt_tool = clip prefixed, rt_reason = reason, rt_detail = detail\<rparr>"

definition retry_message :: "retry_error \<Rightarrow> string" where
  "retry_message e = rt_reason e @ '': '' @ rt_tool e @ '': '' @ rt_detail e"

text \<open>The answers in the order the map is ranged over: those to outstanding ids are cleaned, others ignored.\<close>

fun take_answers :: "(string \<Rightarrow> string) \<Rightarrow> string list \<Rightarrow> (string, input_response) gomap \<Rightarrow> string + (string, elicit_result) gomap" where
  "take_answers quote ids [] = Inr []"
| "take_answers quote ids ((i, r) # rs) =
     (if i \<notin> set ids then take_answers quote ids rs
      else
        (case r of
           RespOther \<Rightarrow> Inl (''response '' @ quote (clip i) @ '' is not an elicitation result'')
         | RespElicit er \<Rightarrow>
             (case cleanElicitResult quote er of
                Inl e \<Rightarrow> Inl e
              | Inr c \<Rightarrow> (case take_answers quote ids rs of Inl e \<Rightarrow> Inl e | Inr cs \<Rightarrow> Inr ((i, c) # cs)))))"

definition call_binding :: "pcall \<Rightarrow> state_binding" where
  "call_binding c = \<lparr>sb_transport = cc_transport c, sb_principal = cc_principal c\<rparr>"

definition resume ::
  "aead_open \<Rightarrow> (string \<Rightarrow> string) \<Rightarrow> (string \<Rightarrow> string) \<Rightarrow> int \<Rightarrow> pcall \<Rightarrow> string \<Rightarrow> (string, input_response) gomap
     \<Rightarrow> retry_error + resumed" where
  "resume dec sha quote now c state responses =
     (let name = prefixName (cc_server c) (cc_tool c) in
      case open_state dec now state (call_binding c) of
        Inl e \<Rightarrow> Inl (invalidRetry name reasonInvalidRequestState (state_text e))
      | Inr st \<Rightarrow>
          if st_server st \<noteq> cc_server c \<or> st_tool st \<noteq> cc_tool c then
            Inl (invalidRetry name reasonInvalidRequestState (''requestState was issued for '' @ clip (prefixName (st_server st) (st_tool st))))
          else if st_args st \<noteq> argsDigest sha (cc_arguments c) then
            Inl (invalidRetry name reasonInvalidRequestState (state_text StateOtherArgs))
          else
            (case take_answers quote (case st_ids st of None \<Rightarrow> [] | Some ids \<Rightarrow> ids) responses of
               Inl e \<Rightarrow> Inl (invalidRetry name reasonInvalidInputResponse e)
             | Inr rs \<Rightarrow> Inr \<lparr>rs_responses = rs, rs_up = st_up st, rs_round = st_round st, rs_prompts = st_prompts st\<rparr>))"

text \<open>What \<open>warnState\<close> logs of a refused state: its reason, and the key it is limited by.\<close>

definition warnState_key :: "pcall \<Rightarrow> state_error \<Rightarrow> string" where
  "warnState_key c e =
     ''state'' @ [CHR 0x00] @ cc_server c @ [CHR 0x00] @ transport_text (cc_transport c) @ [CHR 0x00] @ cc_principal c @ [CHR 0x00] @ state_text e"


section \<open>Base64 round trip\<close>

text \<open>The digits of an encoding, and its padding.\<close>

lemma b64_shape:
  "\<exists>ns. b64_encode s = map b64_char ns @ replicate ((4 - length ns mod 4) mod 4) (CHR ''='') \<and> list_all (\<lambda>n. n < 64) ns \<and> length ns mod 4 \<noteq> 1"
proof (induction s rule: b64_encode.induct)
  case 1
  show ?case by (intro exI [of _ "[]"]) simp
next
  case (2 a)
  show ?case using b64_digits(1) [of a] b64_digits(3) [of a]
    by (intro exI [of _ "[byte a div 4, byte a mod 4 * 16]"]) (simp add: numeral_2_eq_2)
next
  case (3 a b)
  show ?case using b64_digits(1) [of a] b64_digits(2) [of a b] b64_digits(5) [of b]
    by (intro exI [of _ "[byte a div 4, byte a mod 4 * 16 + byte b div 16, byte b mod 16 * 4]"]) simp
next
  case (4 a b c s)
  then obtain ns where ns: "b64_encode s = map b64_char ns @ replicate ((4 - length ns mod 4) mod 4) (CHR ''='')" "list_all (\<lambda>n. n < 64) ns" "length ns mod 4 \<noteq> 1"
    by blast
  let ?q = "[byte a div 4, byte a mod 4 * 16 + byte b div 16, byte b mod 16 * 4 + byte c div 64, byte c mod 64]"
  have m: "length (?q @ ns) mod 4 = length ns mod 4" by simp
  show ?case
  proof (intro exI [of _ "?q @ ns"] conjI)
    show "b64_encode (a # b # c # s) = map b64_char (?q @ ns) @ replicate ((4 - length (?q @ ns) mod 4) mod 4) (CHR ''='')"
      unfolding m by (simp only: b64_encode.simps ns(1) map_append list.map append.simps append_assoc)
    show "list_all (\<lambda>n. n < 64) (?q @ ns)" using b64_digits(1) [of a] b64_digits(2) [of a b] b64_digits(4) [of b c] b64_digits(6) [of c] ns(2) by simp
    show "length (?q @ ns) mod 4 \<noteq> 1" unfolding m by (rule ns(3))
  qed
qed

lemma to_url_char:
  assumes "n < 64"
  shows "byte (to_url (b64_char n)) \<notin> {10, 13, 43, 47, 61}" "from_url (to_url (b64_char n)) = b64_char n"
proof -
  have c: "char_of (43 :: nat) = CHR ''+''" "char_of (47 :: nat) = CHR ''/''" by (simp_all add: char_of_def bit_Suc_0_iff)
  consider "n < 26" | "26 \<le> n" "n < 52" | "52 \<le> n" "n < 62" | "n = 62" | "n = 63" using assms by linarith
  then have "byte (to_url (b64_char n)) \<notin> {10, 13, 43, 47, 61} \<and> from_url (to_url (b64_char n)) = b64_char n"
    by cases (auto simp: b64_char_def to_url_def from_url_def c)
  then show "byte (to_url (b64_char n)) \<notin> {10, 13, 43, 47, 61}" "from_url (to_url (b64_char n)) = b64_char n" by blast+
qed

lemma rawurl_roundtrip: "rawurl_decode (rawurl_encode s) = Some s"
proof -
  obtain ns where e: "b64_encode s = map b64_char ns @ replicate ((4 - length ns mod 4) mod 4) (CHR ''='')"
    and ns: "list_all (\<lambda>n. n < 64) ns" "length ns mod 4 \<noteq> 1" using b64_shape by blast
  have "byte (b64_char n) \<noteq> 61" if "n \<in> set ns" for n using ns(1) that by (auto simp: list_all_iff b64_char_def)
  then have "filter (\<lambda>c. byte c \<noteq> 61) (b64_encode s) = map b64_char ns" by (auto simp: e filter_id_conv)
  then have t: "rawurl_encode s = map (\<lambda>n. to_url (b64_char n)) ns" by (simp add: rawurl_encode_def)
  have b: "byte (to_url (b64_char n)) \<notin> {10, 13, 43, 47, 61}" "from_url (to_url (b64_char n)) = b64_char n" if "n \<in> set ns" for n
    using to_url_char [of n] ns(1) that by (auto simp: list_all_iff)
  then have f: "filter (\<lambda>c. byte c \<noteq> 10 \<and> byte c \<noteq> 13) (rawurl_encode s) = rawurl_encode s" by (auto simp: t filter_id_conv)
  have "map from_url (rawurl_encode s) = map b64_char ns" using b(2) by (simp add: t)
  then have q: "map from_url (rawurl_encode s) @ replicate ((4 - length (rawurl_encode s) mod 4) mod 4) (CHR ''='') = b64_encode s" by (simp add: e t)
  have "\<not> list_ex (\<lambda>c. byte c \<in> {43, 47, 61}) (rawurl_encode s)" using b(1) by (auto simp: t list_ex_iff)
  moreover have "length (rawurl_encode s) mod 4 \<noteq> 1" using ns(2) by (simp add: t)
  ultimately show ?thesis unfolding rawurl_decode_def Let_def f q by (simp add: b64_quanta_encode)
qed

lemma rawurl_inj: "rawurl_encode a = rawurl_encode b \<longleftrightarrow> a = b"
  by (metis option.inject rawurl_roundtrip)

section \<open>The content of a state\<close>

text \<open>The state as JSON gives it back: bytes that are not UTF-8 become U+FFFD.\<close>

definition sane_state :: "sealed_state \<Rightarrow> sealed_state" where
  "sane_state st =
     st\<lparr>st_server := to_valid (st_server st), st_tool := to_valid (st_tool st), st_args := to_valid (st_args st),
        st_ids := sane_strs (st_ids st), st_up := to_valid (st_up st)\<rparr>"

lemma state_names_valid: "to_valid ''s'' = ''s''" "to_valid ''t'' = ''t''" "to_valid ''a'' = ''a''" "to_valid ''i'' = ''i''" "to_valid ''u'' = ''u''"
  "to_valid ''r'' = ''r''" "to_valid ''p'' = ''p''" "to_valid ''e'' = ''e''"
  by (simp_all add: to_valid_ascii)

lemma state_fields_mem: "''s'' \<in> set state_fields" "''t'' \<in> set state_fields" "''a'' \<in> set state_fields" "''i'' \<in> set state_fields"
  "''u'' \<in> set state_fields" "''r'' \<in> set state_fields" "''p'' \<in> set state_fields" "''e'' \<in> set state_fields"
  by (simp_all add: state_fields_def)

lemma set_state_simps:
  "set_state ''s'' v st = map_option (\<lambda>s. st\<lparr>st_server := s\<rparr>) (str_slot (st_server st) v)"
  "set_state ''t'' v st = map_option (\<lambda>s. st\<lparr>st_tool := s\<rparr>) (str_slot (st_tool st) v)"
  "set_state ''a'' v st = map_option (\<lambda>s. st\<lparr>st_args := s\<rparr>) (str_slot (st_args st) v)"
  "set_state ''i'' v st = map_option (\<lambda>ss. st\<lparr>st_ids := ss\<rparr>) (strs_slot (st_ids st) v)"
  "set_state ''u'' v st = map_option (\<lambda>s. st\<lparr>st_up := s\<rparr>) (str_slot (st_up st) v)"
  "set_state ''r'' v st = map_option (\<lambda>n. st\<lparr>st_round := n\<rparr>) (int_slot (st_round st) v)"
  "set_state ''p'' v st = map_option (\<lambda>n. st\<lparr>st_prompts := n\<rparr>) (int_slot (st_prompts st) v)"
  "set_state ''e'' v st = map_option (\<lambda>n. st\<lparr>st_exp := n\<rparr>) (int_slot (st_exp st) v)"
  by (simp_all add: set_state_def)

lemma decode_state_json: "decode_struct state_fields False set_state (sane (state_json st)) zero_state = Some (sane_state st)"
  unfolding decode_struct_def state_json_def
  by (simp add: state_names_valid decode_members_known state_fields_mem decode_omit set_state_simps
      decode_omit [where m = "[]", simplified] zero_state_def sane_state_def del: decode_members.simps(2))

lemma state_json_sound: "sound_nums (state_json st)" "mdepth (state_json st) \<le> maxNestingDepth"
proof -
  have "mdepth (state_json st) \<le> Suc (Suc 0)"
    unfolding state_json_def by (rule mdepth_obj_le) (auto simp: omit_empty_def split: if_splits)
  then show "mdepth (state_json st) \<le> maxNestingDepth" by (simp add: maxNestingDepth_def)
  show "sound_nums (state_json st)"
    using sound_numbers by (auto simp: state_json_def omit_empty_def split: if_splits simp del: sound_nums.simps(1))
qed

lemma open_plain:
  "unmarshal_raw (state_plain now st) = Some (sane (state_json (st\<lparr>st_exp := word_of_int (unix (now + stateTTL))\<rparr>)))"
  unfolding state_plain_def by (intro unmarshal_marshal state_json_sound)

lemma sint_unix:
  assumes "0 \<le> now" "now < 2 ^ 62"
  shows "sint (word_of_int (unix (now + stateTTL)) :: 64 word) = unix (now + stateTTL)"
proof -
  have "0 \<le> unix (now + stateTTL)" "unix (now + stateTTL) < 2 ^ 63"
    using assms by (simp_all add: unix_def stateTTL_def)
  then show ?thesis by (simp add: sint_sbintrunc' signed_take_bit_int_eq_self)
qed

lemma aad_inj: "aad b = aad b' \<Longrightarrow> b = b'"
  by (cases b; cases b'; cases "sb_transport b"; cases "sb_transport b'") (auto simp: aad_def)


section \<open>What opens\<close>

text \<open>The contract of an AEAD: what it seals opens under the same nonce and the same additional data, and the tag has its size.\<close>

definition aead_correct :: "aead_seal \<Rightarrow> aead_open \<Rightarrow> bool" where
  "aead_correct enc dec \<longleftrightarrow> (\<forall>n p a. dec n (enc n p a) a = Some p \<and> length (enc n p a) = length p + tagSize)"

lemma aead_correctD:
  assumes "aead_correct enc dec"
  shows "dec n (enc n p a) a = Some p" "length (enc n p a) = length p + tagSize"
  using assms by (simp_all add: aead_correct_def)

text \<open>What the bytes of a state that verified say.\<close>

definition read_state :: "int \<Rightarrow> string \<Rightarrow> state_error + sealed_state" where
  "read_state now plain =
     (case unmarshal_raw plain of
        None \<Rightarrow> Inl StateMalformed
      | Some v \<Rightarrow>
          (case decode_struct state_fields False set_state v zero_state of
             None \<Rightarrow> Inl StateMalformed
           | Some st \<Rightarrow> if sint (st_exp st) < unix now then Inl StateExpired else Inr st))"

abbreviation stamped :: "int \<Rightarrow> sealed_state \<Rightarrow> sealed_state" where
  "stamped now st \<equiv> sane_state (st\<lparr>st_exp := word_of_int (unix (now + stateTTL))\<rparr>)"

lemma st_exp_sane: "st_exp (sane_state st) = st_exp st" by (simp add: sane_state_def)

lemma read_plain:
  assumes "0 \<le> now0" "now0 < 2 ^ 62"
  shows "read_state now (state_plain now0 st)
      = (if unix (now0 + stateTTL) < unix now then Inl StateExpired else Inr (stamped now0 st))"
  by (simp add: read_state_def open_plain decode_state_json st_exp_sane sint_unix [OF assms])

lemma open_state_dec:
  assumes "open_state dec now state b = Inr st"
  shows "\<exists>n c p. dec n c (aad b) = Some p \<and> read_state now p = Inr st"
proof -
  obtain sealed p where "dec (take nonceSize sealed) (drop nonceSize sealed) (aad b) = Some p" "read_state now p = Inr st"
    using assms unfolding open_state_def read_state_def by (simp split: if_splits option.splits)
  then show ?thesis by blast
qed

lemma open_state_sealed:
  assumes "aead_correct enc dec" "length nonce = nonceSize" "seal_state enc now nonce st b = Inr out"
  shows "open_state dec now' out b = read_state now' (state_plain now st)"
proof -
  let ?c = "enc nonce (state_plain now st) (aad b)"
  have o: "out = statePrefix @ rawurl_encode (nonce @ ?c)" "length out \<le> maxSealedState"
    using assms(3) by (auto simp: seal_state_def Let_def split: if_splits)
  have pre: "has_prefix out statePrefix" "trim_prefix out statePrefix = rawurl_encode (nonce @ ?c)"
    by (simp_all add: o(1) trim_prefix_def)
  have l: "\<not> length (nonce @ ?c) < nonceSize + tagSize" by (simp add: assms(2) aead_correctD(2) [OF assms(1)])
  have nl: "\<not> maxSealedState < length out" using o(2) by simp
  show ?thesis
    unfolding open_state_def read_state_def
    by (simp add: nl pre rawurl_roundtrip l aead_correctD(1) [OF assms(1)] assms(2) del: length_append)
qed

text \<open>
  Property C0 (roundtrip). A requestState that \<open>seal\<close> returned opens again under its own binding: up to its expiry to the
  very state that was sealed (its strings as JSON can carry them, its expiry stamped), and after its expiry to the error that says so;
  and it is never longer than \<open>open\<close> accepts.
\<close>

theorem open_seal_roundtrip:
  assumes "aead_correct enc dec" "length nonce = nonceSize" "0 \<le> now" "now < 2 ^ 62"
    and "seal_state enc now nonce st b = Inr out"
  shows "length out \<le> maxSealedState
       \<and> open_state dec now' out b
          = (if unix (now + stateTTL) < unix now' then Inl StateExpired
             else Inr (sane_state (st\<lparr>st_exp := word_of_int (unix (now + stateTTL))\<rparr>)))"
proof
  show "length out \<le> maxSealedState" using assms(5) by (auto simp: seal_state_def Let_def split: if_splits)
  show "open_state dec now' out b
          = (if unix (now + stateTTL) < unix now' then Inl StateExpired
             else Inr (sane_state (st\<lparr>st_exp := word_of_int (unix (now + stateTTL))\<rparr>)))"
    using open_state_sealed [OF assms(1,2,5)] read_plain [OF assms(3,4)] by simp
qed

section \<open>What a retry may do\<close>

lemma take_answers_sound:
  assumes "take_answers quote ids rs = Inr out" "(i, c) \<in> set out"
  shows "i \<in> set ids \<and> (\<exists>er. (i, RespElicit er) \<in> set rs \<and> cleanElicitResult quote er = Inr c)"
  using assms
proof (induction quote ids rs arbitrary: out rule: take_answers.induct)
  case (1 quote ids)
  then show ?case by simp
next
  case (2 quote ids j r rs)
  show ?case
  proof (cases "j \<in> set ids")
    case False
    then show ?thesis using 2(1) 2(3,4) by auto
  next
    case True
    then obtain er c' cs where r: "r = RespElicit er" "cleanElicitResult quote er = Inr c'" "take_answers quote ids rs = Inr cs" "out = (j, c') # cs"
      using 2(3) by (auto split: input_response.splits sum.splits)
    show ?thesis
    proof (cases "(i, c) = (j, c')")
      case True
      then show ?thesis using r \<open>j \<in> set ids\<close> by auto
    next
      case False
      then have "(i, c) \<in> set cs" using 2(4) r(4) by auto
      then show ?thesis using 2(2) [of er c' cs] True r by auto
    qed
  qed
qed

text \<open>
  The integrity of an AEAD, for the states a proxy issued: whatever opens under some additional data is the plaintext of a state
  issued under that additional data.
\<close>

type_synonym issued = "(state_binding \<times> int \<times> sealed_state) set"

definition unforgeable :: "aead_open \<Rightarrow> issued \<Rightarrow> bool" where
  "unforgeable dec made \<longleftrightarrow>
     (\<forall>n c a p. dec n c a = Some p \<longrightarrow> (\<exists>(b, now, st) \<in> made. 0 \<le> now \<and> now < 2 ^ 62 \<and> a = aad b \<and> p = state_plain now st))"

lemma open_only_issued:
  assumes "unforgeable dec made" "open_state dec now state b = Inr st"
  shows "\<exists>now0 st0. (b, now0, st0) \<in> made \<and> st = stamped now0 st0 \<and> unix now \<le> unix (now0 + stateTTL)"
proof -
  obtain n c p where d: "dec n c (aad b) = Some p" "read_state now p = Inr st" using open_state_dec [OF assms(2)] by blast
  then obtain b' now0 st0 where i: "(b', now0, st0) \<in> made" "0 \<le> now0" "now0 < 2 ^ 62" "aad b = aad b'" "p = state_plain now0 st0"
    using assms(1) unfolding unforgeable_def by fast
  have "b = b'" using aad_inj i(4) by blast
  moreover have "unix now \<le> unix (now0 + stateTTL)" "st = stamped now0 st0"
    using d(2) i(5) read_plain [OF i(2,3)] by (auto split: if_splits)
  ultimately show ?thesis using i(1) by blast
qed

lemma resume_inv:
  assumes "resume dec sha quote now c state responses = Inr rs"
  shows "\<exists>st. open_state dec now state (call_binding c) = Inr st \<and> st_server st = cc_server c \<and> st_tool st = cc_tool c
       \<and> st_args st = argsDigest sha (cc_arguments c)
       \<and> take_answers quote (case st_ids st of None \<Rightarrow> [] | Some ids \<Rightarrow> ids) responses = Inr (rs_responses rs)
       \<and> rs_up rs = st_up st \<and> rs_round rs = st_round st \<and> rs_prompts rs = st_prompts st"
  using assms unfolding resume_def Let_def by (auto split: sum.splits if_splits)

text \<open>
  Property C0 (safety). A retry that \<open>resume\<close> lets through presents a state this process issued, to the same transport and
  principal and within its half hour, for the same server, tool and arguments; it goes on with that state's upstream state, round and
  prompt count; and the answers it takes upstream are only answers to prompts that state left outstanding, each one cleaned.
\<close>

theorem resume_only_issued:
  assumes "unforgeable dec made"
    and "resume dec sha quote now c state responses = Inr rs"
  shows "\<exists>now0 st. (\<lparr>sb_transport = cc_transport c, sb_principal = cc_principal c\<rparr>, now0, st) \<in> made
       \<and> unix now \<le> unix (now0 + stateTTL)
       \<and> to_valid (st_server st) = cc_server c \<and> to_valid (st_tool st) = cc_tool c
       \<and> to_valid (st_args st) = argsDigest sha (cc_arguments c)
       \<and> rs_up rs = to_valid (st_up st) \<and> rs_round rs = st_round st \<and> rs_prompts rs = st_prompts st
       \<and> (\<forall>(i, r) \<in> set (rs_responses rs).
            (\<exists>ids. sane_strs (st_ids st) = Some ids \<and> i \<in> set ids)
            \<and> (\<exists>er. (i, RespElicit er) \<in> set responses \<and> cleanElicitResult quote er = Inr r))"
proof -
  obtain st where o: "open_state dec now state (call_binding c) = Inr st" "st_server st = cc_server c" "st_tool st = cc_tool c"
    "st_args st = argsDigest sha (cc_arguments c)"
    "take_answers quote (case st_ids st of None \<Rightarrow> [] | Some ids \<Rightarrow> ids) responses = Inr (rs_responses rs)"
    "rs_up rs = st_up st" "rs_round rs = st_round st" "rs_prompts rs = st_prompts st"
    using resume_inv [OF assms(2)] by blast
  obtain now0 st0 where i: "(call_binding c, now0, st0) \<in> made" "st = stamped now0 st0" "unix now \<le> unix (now0 + stateTTL)"
    using open_only_issued [OF assms(1) o(1)] by blast
  have ids: "st_ids st = sane_strs (st_ids st0)" by (simp add: i(2) sane_state_def)
  have a: "\<forall>(i, r) \<in> set (rs_responses rs). (\<exists>ids. sane_strs (st_ids st0) = Some ids \<and> i \<in> set ids)
            \<and> (\<exists>er. (i, RespElicit er) \<in> set responses \<and> cleanElicitResult quote er = Inr r)"
  proof (intro ballI, clarify)
    fix i r assume m: "(i, r) \<in> set (rs_responses rs)"
    show "(\<exists>ids. sane_strs (st_ids st0) = Some ids \<and> i \<in> set ids)
        \<and> (\<exists>er. (i, RespElicit er) \<in> set responses \<and> cleanElicitResult quote er = Inr r)"
      using take_answers_sound [OF o(5) m] unfolding ids by (cases "sane_strs (st_ids st0)") auto
  qed
  show ?thesis
    using i o(2-4,6-8) a by (intro exI [of _ now0] exI [of _ st0]) (simp add: sane_state_def call_binding_def)
qed

section \<open>Witnesses\<close>

definition demo_state_pcall :: pcall where
  "demo_state_pcall =
     \<lparr>cc_server = ''nc'', cc_up_version = ''2026-07-28'', cc_up_era = ''stateless'', cc_tool = ''apply'', cc_arguments = ''{}'',
      cc_agent = \<lparr>ag_session = None, ag_version = ''2026-07-28'', ag_can_elicit = True\<rparr>, cc_transport = TransportHTTP,
      cc_principal = ''ops'', cc_session_key = ''r1''\<rparr>"

definition demo_sealed :: sealed_state where
  "demo_sealed =
     \<lparr>st_server = ''nc'', st_tool = ''apply'', st_args = rawurl_encode ''digest'', st_ids = Some [''q1''], st_up = ''up'',
      st_round = 1, st_prompts = 1, st_exp = 0\<rparr>"

text \<open>A toy pair: the tag is sixteen zero bytes; and one that opens a single state under a single binding.\<close>

definition demo_enc :: aead_seal where "demo_enc = (\<lambda>n p a. p @ replicate tagSize CHR 0x00)"
definition demo_dec :: aead_open where "demo_dec = (\<lambda>n c a. Some (take (length c - tagSize) c))"

definition demo_once :: aead_open where
  "demo_once = (\<lambda>n c a. if a = aad (call_binding demo_state_pcall) then Some (state_plain 0 demo_sealed) else None)"

lemma demo_correct: "aead_correct demo_enc demo_dec"
  by (simp add: aead_correct_def demo_enc_def demo_dec_def tagSize_def)

lemma demo_seal_length:
  "length (statePrefix @ rawurl_encode (replicate 12 CHR ''n'' @ demo_enc (replicate 12 CHR ''n'') (state_plain 0 demo_sealed) (aad (call_binding demo_state_pcall)))) \<le> 400"
  by code_simp

lemma demo_seal: "\<exists>out. seal_state demo_enc 0 (replicate 12 CHR ''n'') demo_sealed (call_binding demo_state_pcall) = Inr out"
proof -
  have "\<not> maxSealedState < length (statePrefix @ rawurl_encode (replicate 12 CHR ''n'' @ demo_enc (replicate 12 CHR ''n'') (state_plain 0 demo_sealed) (aad (call_binding demo_state_pcall))))"
    using demo_seal_length unfolding maxSealedState_def by linarith
  then show ?thesis unfolding seal_state_def Let_def by simp
qed

theorem open_seal_roundtrip_witness:
  "\<exists>out. seal_state demo_enc 0 (replicate 12 CHR ''n'') demo_sealed (call_binding demo_state_pcall) = Inr out
     \<and> open_state demo_dec 5 out (call_binding demo_state_pcall) = Inr (sane_state (demo_sealed\<lparr>st_exp := word_of_int (unix (0 + stateTTL))\<rparr>))"
proof -
  obtain out where o: "seal_state demo_enc 0 (replicate 12 CHR ''n'') demo_sealed (call_binding demo_state_pcall) = Inr out" using demo_seal by blast
  have "\<not> unix (0 + stateTTL) < unix 5" by (simp add: unix_def stateTTL_def)
  then show ?thesis using open_seal_roundtrip [OF demo_correct _ _ _ o, of 5] o by (simp add: nonceSize_def)
qed

definition demo_token :: string where
  "demo_token = statePrefix @ rawurl_encode (replicate 28 CHR ''x'')"

lemma demo_made: "unforgeable demo_once {(call_binding demo_state_pcall, 0, demo_sealed)}"
  by (simp add: unforgeable_def demo_once_def)

lemma demo_digest: "rawurl_encode ''digest'' = ''ZGlnZXN0''" by code_simp

lemma demo_valid: "to_valid ''nc'' = ''nc''" "to_valid ''apply'' = ''apply''" "to_valid ''up'' = ''up''" "to_valid ''q1'' = ''q1''"
  "to_valid (rawurl_encode ''digest'') = rawurl_encode ''digest''"
  by (simp_all add: to_valid_ascii demo_digest)

lemma demo_opens: "open_state demo_once 0 demo_token (call_binding demo_state_pcall) = read_state 0 (state_plain 0 demo_sealed)"
proof -
  have "has_prefix demo_token statePrefix" "trim_prefix demo_token statePrefix = rawurl_encode (replicate 28 CHR ''x'')"
    by (simp_all add: demo_token_def trim_prefix_def)
  moreover have "length demo_token \<le> 60" by code_simp
  then have "\<not> maxSealedState < length demo_token" unfolding maxSealedState_def by linarith
  ultimately show ?thesis
    unfolding open_state_def read_state_def
    by (simp add: rawurl_roundtrip nonceSize_def tagSize_def demo_once_def)
qed

lemma demo_read: "read_state 0 (state_plain 0 demo_sealed) = Inr (stamped 0 demo_sealed)"
proof -
  have "\<not> unix (0 + stateTTL) < unix 0" by (simp add: unix_def stateTTL_def)
  then show ?thesis using read_plain [of 0 0 demo_sealed] by simp
qed

lemma demo_resumes:
  "resume demo_once (\<lambda>s. ''digest'') (\<lambda>s. s) 0 demo_state_pcall demo_token
       [(''q1'', RespElicit (Some \<lparr>er_action = ''decline'', er_content = Some JNull\<rparr>)), (''q9'', RespOther)]
     = Inr \<lparr>rs_responses = [(''q1'', \<lparr>er_action = ''decline'', er_content = None\<rparr>)], rs_up = ''up'', rs_round = 1, rs_prompts = 1\<rparr>"
proof -
  have c: "cc_server demo_state_pcall = ''nc''" "cc_tool demo_state_pcall = ''apply''" by (simp_all add: demo_state_pcall_def)
  have "st_server (stamped 0 demo_sealed) = ''nc''" "st_tool (stamped 0 demo_sealed) = ''apply''"
    "st_args (stamped 0 demo_sealed) = rawurl_encode ''digest''" "st_ids (stamped 0 demo_sealed) = Some [''q1'']"
    "st_up (stamped 0 demo_sealed) = ''up''" "st_round (stamped 0 demo_sealed) = 1" "st_prompts (stamped 0 demo_sealed) = 1"
    by (simp_all add: sane_state_def demo_sealed_def demo_valid)
  then show ?thesis
    by (simp add: resume_def Let_def demo_opens demo_read c argsDigest_def cleanElicitResult_def)
qed

theorem resume_only_issued_witness:
  "\<exists>rs. resume demo_once (\<lambda>s. ''digest'') (\<lambda>s. s) 0 demo_state_pcall demo_token
       [(''q1'', RespElicit (Some \<lparr>er_action = ''decline'', er_content = Some JNull\<rparr>)), (''q9'', RespOther)] = Inr rs
     \<and> rs_up rs = to_valid (st_up demo_sealed) \<and> map fst (rs_responses rs) = [''q1'']"
proof (intro exI conjI)
  show "resume demo_once (\<lambda>s. ''digest'') (\<lambda>s. s) 0 demo_state_pcall demo_token
       [(''q1'', RespElicit (Some \<lparr>er_action = ''decline'', er_content = Some JNull\<rparr>)), (''q9'', RespOther)]
     = Inr \<lparr>rs_responses = [(''q1'', \<lparr>er_action = ''decline'', er_content = None\<rparr>)], rs_up = ''up'', rs_round = 1, rs_prompts = 1\<rparr>"
    by (rule demo_resumes)
  show "rs_up \<lparr>rs_responses = [(''q1'', \<lparr>er_action = ''decline'', er_content = None\<rparr>)], rs_up = ''up'', rs_round = 1, rs_prompts = 1\<rparr>
      = to_valid (st_up demo_sealed)"
    using resume_only_issued [OF demo_made demo_resumes] by simp
qed simp

end
