(* ===== verification/Audit_Log.thy ===== *)
theory Audit_Log
  imports Audit_Event
begin

text \<open>
  \<^verbatim>\<open>internal/audit\<close>, \<^verbatim>\<open>verify.go\<close> and \<^verbatim>\<open>writer.go\<close>: replaying a log and appending to it. A log file is its bytes.
  What the operating system decides is an argument: what opening the file gives, whether it can
  be restricted to its owner, the clock's text, the random identifier and how much of a write
  reaches the file. The writer's lock makes an \<open>Append\<close> one step.
\<close>

section \<open>Replaying a log\<close>

definition short :: "string \<Rightarrow> string" where
  "short h =
     (if length h > 12 then take 12 h @ [CHR 0xE2, CHR 0x80, CHR 0xA6]
      else if h = [] then ''(empty)''
      else h)"

datatype line_problem =
    NotJSON
  | BadCheckpoint
  | CheckpointSeq "64 word" "64 word"
  | CheckpointHash string string
  | CheckpointInvalid checkpoint_error
  | BadEvent
  | EventSeq "64 word" "64 word"
  | PrevHash string string
  | CannotHash
  | HashMismatch string string
  | UnknownType string

record report =
  rp_events :: nat
  rp_checkpoints :: nat
  rp_seq :: "64 word"
  rp_hash :: string
  rp_ok :: bool
  rp_broken :: "64 word"
  rp_problem :: "(nat \<times> line_problem) option"
  rp_sigs :: bool

definition verify_checkpoint_line ::
  "('p \<Rightarrow> string \<Rightarrow> string \<Rightarrow> bool) \<Rightarrow> 'p option \<Rightarrow> checkpoint \<Rightarrow> report \<Rightarrow> report \<times> line_problem option" where
  "verify_checkpoint_line verify pub cp rep =
     (let rep1 = rep\<lparr>rp_broken := cp_seq cp\<rparr> in
      if cp_seq cp \<noteq> rp_seq rep then (rep1, Some (CheckpointSeq (cp_seq cp) (rp_seq rep)))
      else if cp_hash cp \<noteq> rp_hash rep then (rep1, Some (CheckpointHash (short (cp_hash cp)) (short (rp_hash rep))))
      else
        (case (case pub of None \<Rightarrow> None | Some p \<Rightarrow> VerifyCheckpoint verify p cp) of
           Some err \<Rightarrow> (rep1, Some (CheckpointInvalid err))
         | None \<Rightarrow> (rep1\<lparr>rp_checkpoints := rp_checkpoints rep + 1, rp_broken := 0\<rparr>, None)))"

definition verify_event_line :: "(string \<Rightarrow> string) \<Rightarrow> event \<Rightarrow> report \<Rightarrow> report \<times> line_problem option" where
  "verify_event_line sha ev rep =
     (let rep1 = rep\<lparr>rp_broken := ev_seq ev\<rparr> in
      if ev_seq ev \<noteq> rp_seq rep + 1 then (rep1, Some (EventSeq (ev_seq ev) (rp_seq rep + 1)))
      else if ev_prev ev \<noteq> rp_hash rep then (rep1, Some (PrevHash (short (ev_prev ev)) (short (rp_hash rep))))
      else
        (case snd (HashEvent sha ev (rp_hash rep)) of
           None \<Rightarrow> (rep1, Some CannotHash)
         | Some want \<Rightarrow>
             if ev_hash ev \<noteq> want then (rep1, Some (HashMismatch (short (ev_hash ev)) (short want)))
             else (rep1\<lparr>rp_events := rp_events rep + 1, rp_seq := ev_seq ev, rp_hash := ev_hash ev, rp_broken := 0\<rparr>, None)))"

definition verifyLine ::
  "(string \<Rightarrow> string) \<Rightarrow> ('p \<Rightarrow> string \<Rightarrow> string \<Rightarrow> bool) \<Rightarrow> 'p option \<Rightarrow> string \<Rightarrow> report \<Rightarrow> report \<times> line_problem option" where
  "verifyLine sha verify pub line rep =
     (case unmarshal_raw line of
        None \<Rightarrow> (rep\<lparr>rp_broken := rp_seq rep + 1\<rparr>, Some NotJSON)
      | Some v \<Rightarrow>
          (case decode_head v of
             None \<Rightarrow> (rep\<lparr>rp_broken := rp_seq rep + 1\<rparr>, Some NotJSON)
           | Some (ty, seq) \<Rightarrow>
               if ty = TypeCheckpoint then
                 (case decode_checkpoint v of
                    None \<Rightarrow> (rep\<lparr>rp_broken := seq\<rparr>, Some BadCheckpoint)
                  | Some cp \<Rightarrow> verify_checkpoint_line verify pub cp rep)
               else if ty \<in> {TypeEvent, ''event'', ''''} then
                 (case decode_event v of
                    None \<Rightarrow> (rep\<lparr>rp_broken := seq\<rparr>, Some BadEvent)
                  | Some ev \<Rightarrow> verify_event_line sha ev rep)
               else (rep\<lparr>rp_broken := rp_seq rep + 1\<rparr>, Some (UnknownType ty))))"

text \<open>\<open>bufio.ScanLines\<close>: lines without their newline and one carriage return before it. A line of
  16 MiB or more does not fit the scanner's buffer and ends the scan with an error.\<close>

definition maxLine :: nat where "maxLine = 16 * 1024 * 1024"

definition scan_lines :: "string \<Rightarrow> string list" where
  "scan_lines s = (let ls = split_when (\<lambda>c. byte c = 10) s in if last ls = [] then butlast ls else ls)"

definition drop_cr :: "string \<Rightarrow> string" where
  "drop_cr l = (if l \<noteq> [] \<and> byte (last l) = 13 then butlast l else l)"

fun verify_lines ::
  "(string \<Rightarrow> string) \<Rightarrow> ('p \<Rightarrow> string \<Rightarrow> string \<Rightarrow> bool) \<Rightarrow> 'p option \<Rightarrow> nat \<Rightarrow> report \<Rightarrow> string list \<Rightarrow> report \<times> bool" where
  "verify_lines sha verify pub n rep [] = (rep, False)"
| "verify_lines sha verify pub n rep (l # ls) =
     (if maxLine \<le> length l then (rep, True)
      else
        let line = trim_space (drop_cr l) in
        if line = [] then verify_lines sha verify pub (n + 1) rep ls
        else
          (case verifyLine sha verify pub line rep of
             (rep', Some p) \<Rightarrow> (rep'\<lparr>rp_ok := False, rp_problem := Some (n, p)\<rparr>, False)
           | (rep', None) \<Rightarrow> verify_lines sha verify pub (n + 1) rep' ls))"

definition start_report :: "'p option \<Rightarrow> report" where
  "start_report pub =
     \<lparr>rp_events = 0, rp_checkpoints = 0, rp_seq = 0, rp_hash = GenesisHash, rp_ok = True, rp_broken = 0,
      rp_problem = None, rp_sigs = (pub \<noteq> None)\<rparr>"

text \<open>The report, and whether reading failed.\<close>

definition VerifyReader ::
  "(string \<Rightarrow> string) \<Rightarrow> ('p \<Rightarrow> string \<Rightarrow> string \<Rightarrow> bool) \<Rightarrow> 'p option \<Rightarrow> string \<Rightarrow> report \<times> bool" where
  "VerifyReader sha verify pub log = verify_lines sha verify pub 1 (start_report pub) (scan_lines log)"

datatype file_state = Missing | Unreadable | Content string

definition verifyFile ::
  "(string \<Rightarrow> string) \<Rightarrow> ('p \<Rightarrow> string \<Rightarrow> string \<Rightarrow> bool) \<Rightarrow> 'p option \<Rightarrow> bool \<Rightarrow> file_state \<Rightarrow> (report \<times> bool) option" where
  "verifyFile sha verify pub missingOK f =
     (case f of
        Missing \<Rightarrow> if missingOK then Some (start_report pub, False) else None
      | Unreadable \<Rightarrow> None
      | Content log \<Rightarrow> Some (VerifyReader sha verify pub log))"

definition Verify where
  "Verify sha verify f = verifyFile sha verify (None :: 'p option) True f"

definition VerifyWithKey where
  "VerifyWithKey sha verify pub f = verifyFile sha verify pub True f"

section \<open>Appending\<close>

record 'k options =
  op_every :: int
  op_key :: "'k option"

record 'k writer =
  wr_log :: string
  wr_opts :: "'k options"
  wr_seq :: "64 word"
  wr_hash :: string

datatype audit_error =
    NeedsKey
  | OpenFailed
  | ReadFailed
  | ChainBroken "64 word" "(nat \<times> line_problem) option"
  | RestrictFailed
  | RandomFailed
  | HashFailed
  | WriteFailed
  | SignFailed
  | CheckpointWriteFailed

text \<open>An opened log: whether it was created, and its bytes.\<close>

definition resumeLog :: "(string \<Rightarrow> string) \<Rightarrow> 'k options \<Rightarrow> bool \<Rightarrow> bool \<times> string \<Rightarrow> audit_error + 'k writer" where
  "resumeLog sha opts restrict f =
     (let (created, log) = f;
          (rep, failed) = VerifyReader sha (\<lambda>_ _ _. False) (None :: unit option) log
      in if failed then Inl ReadFailed
         else if \<not> rp_ok rep then Inl (ChainBroken (rp_broken rep) (rp_problem rep))
         else if \<not> created \<and> \<not> restrict then Inl RestrictFailed
         else Inr \<lparr>wr_log = log, wr_opts = opts, wr_seq = rp_seq rep, wr_hash = rp_hash rep\<rparr>)"

definition NewWriter :: "(string \<Rightarrow> string) \<Rightarrow> 'k options \<Rightarrow> bool \<Rightarrow> (bool \<times> string) option \<Rightarrow> audit_error + 'k writer" where
  "NewWriter sha opts restrict opened =
     (if op_every opts > 0 \<and> op_key opts = None then Inl NeedsKey
      else (case opened of None \<Rightarrow> Inl OpenFailed | Some f \<Rightarrow> resumeLog sha opts restrict f))"

text \<open>How a write ends: with all of it in the file, or with an error after \<open>n\<close> bytes of it.\<close>

datatype write_result = Wrote | Torn nat

definition file_write :: "string \<Rightarrow> string \<Rightarrow> write_result \<Rightarrow> string \<times> bool" where
  "file_write log data r = (case r of Wrote \<Rightarrow> (log @ data, True) | Torn n \<Rightarrow> (log @ take n data, False))"

definition newline :: string where "newline = [CHR 0x0A]"

definition fill_arrays :: "event \<Rightarrow> event" where
  "fill_arrays ev =
     ev\<lparr>ev_targets := Some (case ev_targets ev of None \<Rightarrow> [] | Some ss \<Rightarrow> ss),
        ev_roles := Some (case ev_roles ev of None \<Rightarrow> [] | Some ss \<Rightarrow> ss),
        ev_obligations := Some (case ev_obligations ev of None \<Rightarrow> [] | Some ss \<Rightarrow> ss)\<rparr>"

definition append_checkpoint ::
  "('k \<Rightarrow> string \<Rightarrow> string) \<Rightarrow> write_result \<Rightarrow> 'k writer \<Rightarrow> 'k writer \<times> audit_error option" where
  "append_checkpoint sign r w =
     (case (case op_key (wr_opts w) of None \<Rightarrow> None | Some k \<Rightarrow> SignCheckpoint sign k (wr_seq w) (wr_hash w)) of
        None \<Rightarrow> (w, Some SignFailed)
      | Some cp \<Rightarrow>
          (let (log, done) = file_write (wr_log w) (marshal_json (checkpoint_json cp) @ newline) r
           in (w\<lparr>wr_log := log\<rparr>, if done then None else Some CheckpointWriteFailed)))"

text \<open>The fields \<open>Append\<close> sets before it asks for a random identifier, and after.\<close>

definition stamped :: "string \<Rightarrow> event \<Rightarrow> 'k writer \<Rightarrow> event" where
  "stamped now ev w =
     ev\<lparr>ev_type := TypeEvent, ev_seq := wr_seq w + 1, ev_ts := (if ev_ts ev = [] then now else ev_ts ev)\<rparr>"

definition identified :: "string option \<Rightarrow> event \<Rightarrow> event option" where
  "identified rid ev = (if ev_id ev = [] then map_option (\<lambda>i. ev\<lparr>ev_id := i\<rparr>) rid else Some ev)"

text \<open>The writer, the event with the fields set so far, and the error.\<close>

definition Append ::
  "(string \<Rightarrow> string) \<Rightarrow> ('k \<Rightarrow> string \<Rightarrow> string) \<Rightarrow> string \<Rightarrow> string option \<Rightarrow> write_result \<Rightarrow> write_result
     \<Rightarrow> event \<Rightarrow> 'k writer \<Rightarrow> 'k writer \<times> event \<times> audit_error option" where
  "Append sha sign now rid r1 r2 ev w =
     (case identified rid (stamped now ev w) of
        None \<Rightarrow> (w, stamped now ev w, Some RandomFailed)
      | Some ev1 \<Rightarrow>
          (case HashEvent sha (fill_arrays ev1) (wr_hash w) of
             (e, None) \<Rightarrow> (w, e, Some HashFailed)
           | (e, Some h) \<Rightarrow>
               (let e' = e\<lparr>ev_hash := h\<rparr>;
                    (log, done) = file_write (wr_log w) (marshal_json (event_json e') @ newline) r1
                in if \<not> done then (w\<lparr>wr_log := log\<rparr>, e', Some WriteFailed)
                   else
                     (let w' = w\<lparr>wr_log := log, wr_seq := ev_seq e', wr_hash := ev_hash e'\<rparr>;
                          every = op_every (wr_opts w)
                      in if every > 0 \<and> ev_seq e' mod word_of_int every = 0
                         then (let (w2, err) = append_checkpoint sign r2 w' in (w2, e', err))
                         else (w', e', None)))))"

section \<open>Lines\<close>

definition ends_line :: "string \<Rightarrow> bool" where
  "ends_line s \<longleftrightarrow> s = [] \<or> byte (last s) = 10"

lemma split_when_append:
  "P c \<Longrightarrow> split_when P (s @ c # t) = split_when P s @ split_when P t"
  by (induction s) (auto split: list.splits simp: append_eq_Cons_conv)

lemma split_when_none: "\<forall>c \<in> set s. \<not> P c \<Longrightarrow> split_when P s = [s]"
  by (induction s) auto

lemma scan_lines_append:
  assumes "ends_line log" "\<forall>c \<in> set l. byte c \<noteq> 10"
  shows "scan_lines (log @ l @ newline) = scan_lines log @ [l]"
proof -
  have nl: "byte (CHR 0x0A) = (10 :: nat)" by simp
  have one: "split_when (\<lambda>c. byte c = 10) (l @ newline) = [l, []]"
    using split_when_append [of "\<lambda>c. byte c = 10" "CHR 0x0A" l "[]"] split_when_none [of l "\<lambda>c. byte c = 10"] assms(2)
    by (simp add: newline_def)
  show ?thesis
  proof (cases "log = []")
    case True
    then show ?thesis using one by (simp add: scan_lines_def)
  next
    case False
    then obtain s c where log: "log = s @ [c]" "byte c = 10" using assms(1) by (cases log rule: rev_cases) (auto simp: ends_line_def)
    have "split_when (\<lambda>c. byte c = 10) (log @ l @ newline) = split_when (\<lambda>c. byte c = 10) s @ [l, []]"
      using split_when_append [of "\<lambda>c. byte c = 10" c s "l @ newline"] log one by simp
    moreover have "split_when (\<lambda>c. byte c = 10) log = split_when (\<lambda>c. byte c = 10) s @ [[]]"
      using split_when_append [of "\<lambda>c. byte c = 10" c s "[]"] log by simp
    ultimately show ?thesis by (simp add: scan_lines_def butlast_append)
  qed
qed

lemma scan_lines_Nil [simp]: "scan_lines [] = []"
  by (simp add: scan_lines_def)

lemma ends_line_newline [simp]: "ends_line (s @ newline)"
  by (simp add: ends_line_def newline_def)

section \<open>The replay loop\<close>

lemma verify_line_parts:
  "rp_ok (fst (verifyLine sha verify pub line rep)) = rp_ok rep"
  by (simp add: verifyLine_def verify_checkpoint_line_def verify_event_line_def Let_def split: option.splits prod.splits if_splits)

lemma verify_lines_append:
  "rp_ok rep \<Longrightarrow> verify_lines sha verify pub n rep (ls @ ls') =
     (case verify_lines sha verify pub n rep ls of
        (rep', failed) \<Rightarrow> if failed \<or> \<not> rp_ok rep' then (rep', failed) else verify_lines sha verify pub (n + length ls) rep' ls')"
proof (induction ls arbitrary: n rep)
  case (Cons l ls)
  let ?v = "verifyLine sha verify pub (trim_space (drop_cr l)) rep"
  have ok: "rp_ok (fst ?v)" using Cons.prems by (simp add: verify_line_parts)
  have n: "n + 1 + length ls = n + length (l # ls)" by simp
  note IH = Cons.IH [of _ "n + 1", unfolded n]
  show ?case
  proof (cases "trim_space (drop_cr l) = []")
    case True
    then show ?thesis using IH [of rep] Cons.prems by (simp del: list.size)
  next
    case False
    then show ?thesis using IH [of "fst ?v"] ok by (cases ?v; cases "snd ?v") (simp_all add: Let_def del: list.size)
  qed
qed simp

lemma verify_lines_one:
  assumes "length l < maxLine" "trim_space (drop_cr l) = l" "l \<noteq> []" "verifyLine sha verify pub l rep = (rep', None)"
  shows "verify_lines sha verify pub n rep [l] = (rep', False)"
  using assms by (simp add: Let_def)

text \<open>A marshalled struct is a line the scanner and the trimming leave as it is.\<close>

lemma struct_line:
  assumes "plain_struct (JObj m)"
  shows "\<forall>c \<in> set (marshal_json (JObj m)). byte c \<noteq> 10"
    and "trim_space (drop_cr (marshal_json (JObj m))) = marshal_json (JObj m)"
    and "marshal_json (JObj m) \<noteq> []"
    and "unmarshal_raw (marshal_json (JObj m)) = Some (sane (JObj m))"
proof -
  show "\<forall>c \<in> set (marshal_json (JObj m)). byte c \<noteq> 10"
    using assms marshal_json_bytes [of "JObj m"] by (fastforce simp: plain_struct_def)
  have "drop_cr (marshal_json (JObj m)) = marshal_json (JObj m)" by (simp add: drop_cr_def)
  then show "trim_space (drop_cr (marshal_json (JObj m))) = marshal_json (JObj m)"
    using trim_space_braces [of "join '','' (map (\<lambda>(k, v). marshal_string k @ '':'' @ marshal_json v) m)"] by simp
  show "marshal_json (JObj m) \<noteq> []" by simp
  show "unmarshal_raw (marshal_json (JObj m)) = Some (sane (JObj m))"
    using assms by (intro unmarshal_marshal) (auto simp: plain_struct_def)
qed

section \<open>Lines the writer writes\<close>

lemma fold_name_ascii: "is_ascii k \<Longrightarrow> fold_name k = map (\<lambda>c. fold_rune (byte c)) k"
  by (simp add: fold_name_def runes_ascii comp_def)

abbreviation head_fields :: "string list" where
  "head_fields \<equiv> [''type'', ''seq'']"

lemma head_other:
  "field_of head_fields ''event_id'' = None"
  "field_of head_fields ''ts'' = None"
  "field_of head_fields ''principal'' = None"
  "field_of head_fields ''session_id'' = None"
  "field_of head_fields ''server'' = None"
  "field_of head_fields ''tool'' = None"
  "field_of head_fields ''class'' = None"
  "field_of head_fields ''args_sha256'' = None"
  "field_of head_fields ''targets'' = None"
  "field_of head_fields ''roles'' = None"
  "field_of head_fields ''decision'' = None"
  "field_of head_fields ''rule_id'' = None"
  "field_of head_fields ''reason'' = None"
  "field_of head_fields ''obligations'' = None"
  "field_of head_fields ''approval'' = None"
  "field_of head_fields ''status'' = None"
  "field_of head_fields ''duration_ms'' = None"
  "field_of head_fields ''redactions'' = None"
  "field_of head_fields ''prev_hash'' = None"
  "field_of head_fields ''hash'' = None"
  "field_of head_fields ''sig'' = None"
  by (simp_all add: field_of_def fold_name_ascii fold_rune_def)

lemma head_known: "field_of head_fields ''type'' = Some ''type''" "field_of head_fields ''seq'' = Some ''seq''"
  by (simp_all add: field_of_def)

lemma set_head_simps: "set_head ''type'' v h = map_option (\<lambda>s. (s, snd h)) (str_slot (fst h) v)"
  "set_head ''seq'' v h = map_option (\<lambda>n. (fst h, n)) (uint_slot (snd h) v)"
  by (simp_all add: set_head_def)

lemma decode_head_event: "decode_head (sane (event_json e)) = Some (to_valid (ev_type e), ev_seq e)"
  by (cases "ev_approval e")
    (simp_all add: decode_head_def decode_struct_def event_json_def omit_empty_def field_names_valid head_other head_known set_head_simps)

lemma decode_head_checkpoint: "decode_head (sane (checkpoint_json c)) = Some (to_valid (cp_type c), cp_seq c)"
  by (simp add: decode_head_def decode_struct_def checkpoint_json_def omit_empty_def field_names_valid head_other head_known set_head_simps)

lemma decode_checkpoint_json: "decode_checkpoint (sane (checkpoint_json c)) = Some (sane_checkpoint c)"
  by (simp add: decode_checkpoint_def decode_struct_def checkpoint_json_def omit_empty_def field_names_valid field_of_def
      checkpoint_fields_def set_checkpoint_def zero_checkpoint_def sane_checkpoint_def)

lemma type_valid: "to_valid TypeEvent = TypeEvent" "to_valid TypeCheckpoint = TypeCheckpoint" "TypeEvent \<noteq> TypeCheckpoint" "TypeEvent \<noteq> []"
  by (simp_all add: TypeEvent_def TypeCheckpoint_def to_valid_ascii)

lemma sane_strs_json: "sane (strs_json (sane_strs ss)) = sane (strs_json ss)"
  by (cases ss) (simp_all add: strs_json_def comp_def)

lemma sane_approval_json: "sane (approval_json (sane_approval a)) = sane (approval_json a)"
  by (simp add: approval_json_def sane_approval_def)

lemma sane_event_json: "sane (event_json (sane_event e)) = sane (event_json e)"
  by (cases "ev_approval e")
    (simp_all add: event_json_def sane_event_def omit_empty_def to_valid_eq_Nil sane_strs_json sane_approval_json)

text \<open>Hex text of a SHA-256 sum, and the property of a hash function that its values are such.\<close>

definition hex_hash :: "string \<Rightarrow> bool" where
  "hex_hash s \<longleftrightarrow> length s = 64 \<and> list_all (\<lambda>c. is_decimal c \<or> (97 \<le> byte c \<and> byte c \<le> 102)) s"

lemma hex_hash_valid: "hex_hash s \<Longrightarrow> to_valid s = s"
  by (rule to_valid_ascii) (auto simp: hex_hash_def is_ascii_def list_all_iff is_decimal_def)

lemma genesis_hex: "hex_hash GenesisHash"
  by (simp add: hex_hash_def GenesisHash_def is_decimal_def list_all_iff)

text \<open>The line of an event hashed over the report's hash extends the chain.\<close>

lemma verify_written_event:
  assumes "hex_hash (rp_hash rep)" "ev_type e = TypeEvent" "ev_seq e = rp_seq rep + 1"
    and h: "HashEvent sha e (rp_hash rep) = (e', Some h)" "hex_hash h"
  shows "verifyLine sha verify pub (marshal_json (event_json (e'\<lparr>ev_hash := h\<rparr>))) rep
    = (rep\<lparr>rp_events := rp_events rep + 1, rp_seq := ev_seq e, rp_hash := h, rp_broken := 0\<rparr>, None)"
proof -
  let ?w = "e'\<lparr>ev_hash := h\<rparr>" and ?p = "rp_hash rep"
  have e': "e' = hash_fields e ?p" and hv: "h = sha (encode_json (sane (event_json (hash_fields e ?p))) @ ?p)"
    using h(1) by (auto simp: HashEvent_value)
  have p: "to_valid ?p = ?p" and hh: "to_valid h = h" using assms(1,5) hex_hash_valid by auto
  obtain m where m: "event_json ?w = JObj m" by (simp add: event_json_def)
  have u: "unmarshal_raw (marshal_json (event_json ?w)) = Some (sane (event_json ?w))"
    using struct_line(4) [of m] event_json_plain [of ?w] m by simp
  have s: "ev_seq (sane_event ?w) = ev_seq e" "ev_prev (sane_event ?w) = ?p" "ev_hash (sane_event ?w) = h" "ev_type ?w = TypeEvent"
    using p hh assms(2) by (auto simp: sane_event_def e' hash_fields_def)
  have "hash_fields (sane_event ?w) ?p = sane_event (hash_fields e ?p)"
    using p assms(2) type_valid by (simp add: e' hash_fields_def sane_event_def)
  then have "snd (HashEvent sha (sane_event ?w) ?p) = Some h"
    by (simp add: HashEvent_value sane_event_json hv)
  then show ?thesis unfolding verifyLine_def u option.case decode_head_event prod.case decode_event_json s(4) type_valid(1)
    using type_valid s assms(3) by (simp add: verify_event_line_def Let_def)
qed

lemma verify_written_checkpoint:
  assumes "SignCheckpoint sign k (rp_seq rep) (rp_hash rep) = Some cp" "hex_hash (rp_hash rep)"
    "case pub of None \<Rightarrow> True | Some p \<Rightarrow> \<forall>m. verify p m (sign k m) \<and> sign k m \<noteq> []"
  shows "verifyLine sha verify pub (marshal_json (checkpoint_json cp)) rep
    = (rep\<lparr>rp_checkpoints := rp_checkpoints rep + 1, rp_broken := 0\<rparr>, None)"
proof -
  obtain msg where msg: "checkpointMessage (rp_seq rep) (rp_hash rep) = Some msg"
    and cp: "cp = \<lparr>cp_type = TypeCheckpoint, cp_seq = rp_seq rep, cp_hash = rp_hash rep, cp_sig = b64_encode (sign k msg)\<rparr>"
    using assms(1) by (auto simp: SignCheckpoint_def)
  have sel: "cp_type cp = TypeCheckpoint" "cp_seq cp = rp_seq rep" "cp_hash cp = rp_hash rep" by (simp_all add: cp)
  obtain m where m: "checkpoint_json cp = JObj m" by (simp add: checkpoint_json_def)
  have u: "unmarshal_raw (marshal_json (checkpoint_json cp)) = Some (sane (checkpoint_json cp))"
    using struct_line(4) [of m] checkpoint_json_plain [of cp] m by simp
  have "to_valid (b64_encode (sign k msg)) = b64_encode (sign k msg)"
    using b64_encode_bytes by (intro to_valid_ascii) (auto simp: is_ascii_def)
  then have s: "sane_checkpoint cp = cp" using hex_hash_valid [OF assms(2)] type_valid by (simp add: sane_checkpoint_def cp)
  have ne: "b64_encode x \<noteq> []" if "x \<noteq> []" for x using that by (cases x rule: b64_encode.cases) auto
  have "(case pub of None \<Rightarrow> None | Some p \<Rightarrow> VerifyCheckpoint verify p cp) = None"
    using assms(3) msg ne by (cases pub) (auto simp: VerifyCheckpoint_def cp b64_roundtrip)
  then show ?thesis unfolding verifyLine_def u option.case decode_head_checkpoint prod.case decode_checkpoint_json s
    using type_valid sel by (simp add: verify_checkpoint_line_def Let_def)
qed

section \<open>Logs the writer writes verify\<close>

text \<open>The log replays to the writer's state.\<close>

definition replays :: "(string \<Rightarrow> string) \<Rightarrow> ('p \<Rightarrow> string \<Rightarrow> string \<Rightarrow> bool) \<Rightarrow> 'p option \<Rightarrow> string \<Rightarrow> 64 word \<Rightarrow> string \<Rightarrow> bool" where
  "replays sha verify pub log seq hash \<longleftrightarrow>
     (let (rep, failed) = VerifyReader sha verify pub log in
      \<not> failed \<and> rp_ok rep \<and> rp_problem rep = None \<and> rp_seq rep = seq \<and> rp_hash rep = hash)"

definition log_inv :: "(string \<Rightarrow> string) \<Rightarrow> ('p \<Rightarrow> string \<Rightarrow> string \<Rightarrow> bool) \<Rightarrow> 'p option \<Rightarrow> 'k writer \<Rightarrow> bool" where
  "log_inv sha verify pub w \<longleftrightarrow>
     ends_line (wr_log w) \<and> hex_hash (wr_hash w)
     \<and> ((\<forall>l \<in> set (scan_lines (wr_log w)). length l < maxLine) \<longrightarrow> replays sha verify pub (wr_log w) (wr_seq w) (wr_hash w))"

text \<open>One more line that the replay accepts.\<close>

lemma replays_snoc:
  assumes "scan_lines log' = scan_lines log @ [marshal_json (JObj m)]" "replays sha verify pub log seq hash" "length (marshal_json (JObj m)) < maxLine" "plain_struct (JObj m)"
    and "\<And>rep. rp_seq rep = seq \<Longrightarrow> rp_hash rep = hash \<Longrightarrow>
      \<exists>rep'. verifyLine sha verify pub (marshal_json (JObj m)) rep = (rep', None) \<and> rp_ok rep' = rp_ok rep
        \<and> rp_problem rep' = rp_problem rep \<and> rp_seq rep' = seq' \<and> rp_hash rep' = hash'"
  shows "replays sha verify pub log' seq' hash'"
proof -
  let ?l = "marshal_json (JObj m)"
  obtain rep where v: "verify_lines sha verify pub 1 (start_report pub) (scan_lines log) = (rep, False)"
    and r: "rp_ok rep" "rp_problem rep = None" "rp_seq rep = seq" "rp_hash rep = hash"
    using assms(2) by (auto simp: replays_def VerifyReader_def split: prod.splits)
  obtain rep' where r': "verifyLine sha verify pub ?l rep = (rep', None)" "rp_ok rep' = rp_ok rep" "rp_problem rep' = rp_problem rep"
      "rp_seq rep' = seq'" "rp_hash rep' = hash'"
    using assms(5) [OF r(3,4)] by blast
  have "verify_lines sha verify pub n rep [?l] = (rep', False)" for n
    by (rule verify_lines_one [OF assms(3) struct_line(2,3) [OF assms(4)] r'(1)])
  moreover have "rp_ok (start_report pub)" by (simp add: start_report_def)
  ultimately have "VerifyReader sha verify pub log' = (rep', False)"
    unfolding VerifyReader_def assms(1) using verify_lines_append [of "start_report pub" sha verify pub 1 "scan_lines log" "[?l]"] v r(1) by simp
  then show ?thesis using r r' by (simp add: replays_def)
qed

text \<open>An event line keeps the invariant, and so does a checkpoint line.\<close>

lemma lines_grow:
  assumes "ends_line log" "plain_struct (JObj m)"
  shows "scan_lines (log @ marshal_json (JObj m) @ newline) = scan_lines log @ [marshal_json (JObj m)]"
    and "ends_line (log @ marshal_json (JObj m) @ newline)"
  using scan_lines_append [OF assms(1) struct_line(1) [OF assms(2)]] ends_line_newline [of "log @ marshal_json (JObj m)"] by auto

lemma event_line_inv:
  assumes "log_inv sha verify pub w" "ev_type e = TypeEvent" "ev_seq e = wr_seq w + 1"
    "HashEvent sha e (wr_hash w) = (e', Some h)" "hex_hash h"
  shows "log_inv sha verify pub (w\<lparr>wr_log := wr_log w @ marshal_json (event_json (e'\<lparr>ev_hash := h\<rparr>)) @ newline,
    wr_seq := ev_seq (e'\<lparr>ev_hash := h\<rparr>), wr_hash := h\<rparr>)"
proof -
  let ?e = "e'\<lparr>ev_hash := h\<rparr>"
  obtain m where m: "event_json ?e = JObj m" by (simp add: event_json_def)
  have pl: "plain_struct (JObj m)" using event_json_plain [of ?e] m by simp
  have q: "ev_seq ?e = wr_seq w + 1" using assms(3,4) by (auto simp: HashEvent_value hash_fields_def)
  have i: "ends_line (wr_log w)" "hex_hash (wr_hash w)" using assms(1) by (simp_all add: log_inv_def)
  have v: "\<exists>rep'. verifyLine sha verify pub (marshal_json (JObj m)) rep = (rep', None) \<and> rp_ok rep' = rp_ok rep
        \<and> rp_problem rep' = rp_problem rep \<and> rp_seq rep' = wr_seq w + 1 \<and> rp_hash rep' = h"
    if "rp_seq rep = wr_seq w" "rp_hash rep = wr_hash w" for rep
    using verify_written_event [of rep e sha e' h verify pub] that assms i m by simp
  have "replays sha verify pub (wr_log w @ marshal_json (JObj m) @ newline) (wr_seq w + 1) h"
    if short: "\<forall>l \<in> set (scan_lines (wr_log w @ marshal_json (JObj m) @ newline)). length l < maxLine"
    using short assms(1) unfolding lines_grow(1) [OF i(1) pl] log_inv_def
    by (intro replays_snoc [OF lines_grow(1) [OF i(1) pl] _ _ pl v]) auto
  then show ?thesis using lines_grow(2) [OF i(1) pl] assms(5) q m by (simp add: log_inv_def)
qed

lemma checkpoint_line_inv:
  assumes "log_inv sha verify pub w" "SignCheckpoint sign k (wr_seq w) (wr_hash w) = Some cp"
    "case pub of None \<Rightarrow> True | Some p \<Rightarrow> \<forall>m. verify p m (sign k m) \<and> sign k m \<noteq> []"
  shows "log_inv sha verify pub (w\<lparr>wr_log := wr_log w @ marshal_json (checkpoint_json cp) @ newline\<rparr>)"
proof -
  obtain m where m: "checkpoint_json cp = JObj m" by (simp add: checkpoint_json_def)
  have pl: "plain_struct (JObj m)" using checkpoint_json_plain [of cp] m by simp
  have i: "ends_line (wr_log w)" "hex_hash (wr_hash w)" using assms(1) by (simp_all add: log_inv_def)
  have v: "\<exists>rep'. verifyLine sha verify pub (marshal_json (JObj m)) rep = (rep', None) \<and> rp_ok rep' = rp_ok rep
        \<and> rp_problem rep' = rp_problem rep \<and> rp_seq rep' = wr_seq w \<and> rp_hash rep' = wr_hash w"
    if "rp_seq rep = wr_seq w" "rp_hash rep = wr_hash w" for rep
    using verify_written_checkpoint [where sign = sign and k = k and rep = rep and cp = cp and pub = pub and verify = verify and sha = sha] that assms(2,3) i m by simp
  have "replays sha verify pub (wr_log w @ marshal_json (JObj m) @ newline) (wr_seq w) (wr_hash w)"
    if short: "\<forall>l \<in> set (scan_lines (wr_log w @ marshal_json (JObj m) @ newline)). length l < maxLine"
    using short assms(1) unfolding lines_grow(1) [OF i(1) pl] log_inv_def
    by (intro replays_snoc [OF lines_grow(1) [OF i(1) pl] _ _ pl v]) auto
  then show ?thesis using lines_grow(2) [OF i(1) pl] i(2) m by (simp add: log_inv_def)
qed

text \<open>An append that reports success, or one that wrote nothing.\<close>

lemma identified_sel:
  assumes "identified rid e = Some e'"
  shows "ev_type e' = ev_type e" "ev_seq e' = ev_seq e"
  using assms by (auto simp: identified_def split: if_splits)

lemma hashed_event:
  assumes "identified rid (stamped now ev w) = Some ev1" "\<forall>x. hex_hash (sha x)"
  obtains e h where "HashEvent sha (fill_arrays ev1) (wr_hash w) = (e, Some h)" "hex_hash h"
    "ev_type (fill_arrays ev1) = TypeEvent" "ev_seq (fill_arrays ev1) = wr_seq w + 1"
  using that assms(2) identified_sel [OF assms(1)] by (simp add: HashEvent_value fill_arrays_def stamped_def)

definition keys_match :: "('k \<Rightarrow> string \<Rightarrow> string) \<Rightarrow> ('p \<Rightarrow> string \<Rightarrow> string \<Rightarrow> bool) \<Rightarrow> 'k option \<Rightarrow> 'p option \<Rightarrow> bool" where
  "keys_match sign verify key pub \<longleftrightarrow>
     (case (pub, key) of (Some p, Some k) \<Rightarrow> \<forall>m. verify p m (sign k m) \<and> sign k m \<noteq> [] | _ \<Rightarrow> True)"

lemma Append_inv:
  assumes "log_inv sha verify pub w" "\<forall>x. hex_hash (sha x)" "keys_match sign verify (op_key (wr_opts w)) pub"
    "Append sha sign now rid Wrote Wrote ev w = (w', ev', None)"
  shows "log_inv sha verify pub w' \<and> wr_opts w' = wr_opts w \<and> wr_seq w' = wr_seq w + 1"
proof -
  obtain ev1 where ev1: "identified rid (stamped now ev w) = Some ev1"
    using assms(4) by (auto simp: Append_def split: option.splits)
  let ?f = "fill_arrays ev1"
  obtain e h where h: "HashEvent sha ?f (wr_hash w) = (e, Some h)" and hh: "hex_hash h"
    and f: "ev_type ?f = TypeEvent" "ev_seq ?f = wr_seq w + 1"
    by (rule hashed_event [OF ev1 assms(2)])
  let ?e = "e\<lparr>ev_hash := h\<rparr>"
  let ?w = "w\<lparr>wr_log := wr_log w @ marshal_json (event_json ?e) @ newline, wr_seq := ev_seq ?e, wr_hash := h\<rparr>"
  have inv: "log_inv sha verify pub ?w" by (rule event_line_inv [OF assms(1) f h hh])
  have q: "ev_seq ?e = wr_seq w + 1" using h f by (auto simp: HashEvent_value hash_fields_def)
  consider "w' = ?w" | "append_checkpoint sign Wrote ?w = (w', None)"
    using assms(4) ev1 h by (auto simp: Append_def Let_def file_write_def split: if_splits prod.splits)
  then show ?thesis
  proof cases
    case 2
    then obtain k cp where k: "op_key (wr_opts w) = Some k" "SignCheckpoint sign k (wr_seq ?w) (wr_hash ?w) = Some cp"
      and w': "w' = ?w\<lparr>wr_log := wr_log ?w @ marshal_json (checkpoint_json cp) @ newline\<rparr>"
      by (auto simp: append_checkpoint_def file_write_def Let_def split: option.splits)
    have "case pub of None \<Rightarrow> True | Some p \<Rightarrow> \<forall>m. verify p m (sign k m) \<and> sign k m \<noteq> []"
      using assms(3) k(1) by (auto simp: keys_match_def split: option.splits)
    from checkpoint_line_inv [OF inv k(2) this] show ?thesis using w' q by simp
  qed (use inv q in simp)
qed

text \<open>The life of a log: created, appended to, left unchanged by an append that fails before its
  write reaches the file, closed and opened again.\<close>

inductive audit_reach :: "(string \<Rightarrow> string) \<Rightarrow> ('k \<Rightarrow> string \<Rightarrow> string) \<Rightarrow> 'k options \<Rightarrow> 'k writer \<Rightarrow> bool"
  for sha sign opts where
  created: "NewWriter sha opts restrict (Some (True, [])) = Inr w \<Longrightarrow> audit_reach sha sign opts w"
| appended: "audit_reach sha sign opts w \<Longrightarrow> Append sha sign now rid Wrote Wrote ev w = (w', ev', None)
    \<Longrightarrow> audit_reach sha sign opts w'"
| unwritten: "audit_reach sha sign opts w \<Longrightarrow> Append sha sign now rid (Torn 0) r2 ev w = (w', ev', err)
    \<Longrightarrow> audit_reach sha sign opts w'"
| reopened: "audit_reach sha sign opts w \<Longrightarrow> NewWriter sha opts restrict (Some (False, wr_log w)) = Inr w'
    \<Longrightarrow> audit_reach sha sign opts w'"

lemma verify_lines_short:
  "verify_lines sha verify pub n rep ls = (rep', False) \<Longrightarrow> rp_ok rep' \<Longrightarrow> l \<in> set ls \<Longrightarrow> length l < maxLine"
proof (induction ls arbitrary: n rep)
  case (Cons l' ls)
  then show ?case by (auto simp: Let_def split: if_splits prod.splits option.splits)
qed simp

lemma NewWriter_Inr:
  assumes "NewWriter sha opts restrict (Some (created, log)) = Inr w"
  shows "wr_log w = log" "wr_opts w = opts"
    "\<exists>rep. VerifyReader sha (\<lambda>_ _ _. False) (None :: unit option) log = (rep, False) \<and> rp_ok rep \<and> wr_seq w = rp_seq rep \<and> wr_hash w = rp_hash rep"
  using assms by (auto simp: NewWriter_def resumeLog_def split: if_splits prod.splits)

abbreviation keyless :: "(string \<Rightarrow> string) \<Rightarrow> 'k writer \<Rightarrow> bool" where
  "keyless sha \<equiv> log_inv sha (\<lambda>_ _ _. False) (None :: unit option)"

lemma log_inv_cong:
  "wr_log w' = wr_log w \<Longrightarrow> wr_seq w' = wr_seq w \<Longrightarrow> wr_hash w' = wr_hash w \<Longrightarrow> log_inv sha verify pub w' = log_inv sha verify pub w"
  by (simp add: log_inv_def)

lemma reopened_same:
  assumes "keyless sha w" "NewWriter sha opts restrict (Some (False, wr_log w)) = Inr w'"
  shows "wr_log w' = wr_log w" "wr_opts w' = opts" "wr_seq w' = wr_seq w" "wr_hash w' = wr_hash w"
proof -
  note n = NewWriter_Inr [OF assms(2)]
  show "wr_log w' = wr_log w" "wr_opts w' = opts" by (fact n)+
  obtain rep where r: "VerifyReader sha (\<lambda>_ _ _. False) (None :: unit option) (wr_log w) = (rep, False)" "rp_ok rep"
    "wr_seq w' = rp_seq rep" "wr_hash w' = rp_hash rep" using n(3) by blast
  have "\<forall>l \<in> set (scan_lines (wr_log w)). length l < maxLine"
    using verify_lines_short [OF r(1) [unfolded VerifyReader_def] r(2)] by blast
  then have "replays sha (\<lambda>_ _ _. False) (None :: unit option) (wr_log w) (wr_seq w) (wr_hash w)"
    using assms(1) by (simp add: log_inv_def)
  then show "wr_seq w' = wr_seq w" "wr_hash w' = wr_hash w" using r by (simp_all add: replays_def)
qed

lemma created_inv:
  assumes "NewWriter sha opts restrict (Some (True, [])) = Inr w"
  shows "log_inv sha verify pub w \<and> wr_opts w = opts"
proof -
  note n = NewWriter_Inr [OF assms]
  have "VerifyReader sha v p [] = (start_report p, False)" for v and p :: "'q option" by (simp add: VerifyReader_def)
  then have "wr_seq w = 0" "wr_hash w = GenesisHash" using n(3) by (auto simp: VerifyReader_def start_report_def)
  then show ?thesis using n(1,2) genesis_hex
    by (simp add: log_inv_def ends_line_def replays_def VerifyReader_def start_report_def)
qed

lemma unwritten_same:
  assumes "Append sha sign now rid (Torn 0) r2 ev w = (w', ev', err)"
  shows "wr_log w' = wr_log w" "wr_opts w' = wr_opts w" "wr_seq w' = wr_seq w" "wr_hash w' = wr_hash w"
  using assms by (auto simp: Append_def file_write_def Let_def split: option.splits prod.splits)

lemma audit_reach_inv:
  assumes "audit_reach sha sign opts w" "\<forall>x. hex_hash (sha x)" "keys_match sign verify (op_key opts) pub"
  shows "log_inv sha verify pub w \<and> keyless sha w \<and> wr_opts w = opts"
  using assms
proof (induction rule: audit_reach.induct)
  case (created restrict w)
  then show ?case using created_inv [of sha opts restrict w verify pub] created_inv [of sha opts restrict w] by blast
next
  case (appended w now rid ev w' ev')
  have "keys_match sign (\<lambda>_ _ _. False) (op_key (wr_opts w)) (None :: unit option)" by (simp add: keys_match_def)
  then show ?case using appended Append_inv [of sha verify pub w sign now rid ev w' ev']
      Append_inv [of sha "\<lambda>_ _ _. False" "None :: unit option" w sign now rid ev w' ev'] by simp
next
  case (unwritten w now rid r2 ev w' ev' err)
  note s = unwritten_same [OF unwritten(2)]
  show ?case using unwritten(3-5) s(2) by (simp add: log_inv_cong [OF s(1,3,4)])
next
  case (reopened w restrict w')
  then have "keyless sha w" by blast
  note s = reopened_same [OF this reopened(2)]
  show ?case using reopened(3-5) s(2) by (simp add: log_inv_cong [OF s(1,3,4)])
qed

lemma reach_options: "audit_reach sha sign opts w \<Longrightarrow> \<not> (op_every opts > 0 \<and> op_key opts = None)"
  by (induction rule: audit_reach.induct) (auto simp: NewWriter_def split: if_splits)

text \<open>Property C6 (invariant). A log written by the writer verifies: after any sequence of appends, failed appends that
  wrote nothing, and re-openings, replaying the file reports no problem and ends at the writer's
  own sequence number and hash, also when the checkpoints' signatures are checked with the
  matching public key, and opening the file again resumes exactly there. The lines must be
  shorter than the 16 MiB the replay can read.\<close>

theorem written_logs_verify:
  assumes "audit_reach sha sign opts w" "\<forall>x. hex_hash (sha x)" "keys_match sign verify (op_key opts) pub"
    "\<forall>l \<in> set (scan_lines (wr_log w)). length l < maxLine"
  shows "replays sha verify pub (wr_log w) (wr_seq w) (wr_hash w) \<and> NewWriter sha opts True (Some (False, wr_log w)) = Inr w"
proof -
  have i: "log_inv sha verify pub w" "keyless sha w" "wr_opts w = opts" using audit_reach_inv [OF assms(1-3)] by auto
  then have "replays sha (\<lambda>_ _ _. False) (None :: unit option) (wr_log w) (wr_seq w) (wr_hash w)"
    using assms(4) by (simp add: log_inv_def)
  then have "NewWriter sha opts True (Some (False, wr_log w)) = Inr w"
    using i(3) reach_options [OF assms(1)] by (cases w) (auto simp: NewWriter_def resumeLog_def replays_def split: prod.splits)
  then show ?thesis using i(1) assms(4) by (simp add: log_inv_def)
qed

section \<open>The chain\<close>

text \<open>What a log states: the events of its lines, in order, and the chain they have to form.\<close>

definition line_event :: "string \<Rightarrow> event option" where
  "line_event l =
     (case unmarshal_raw (trim_space (drop_cr l)) of
        None \<Rightarrow> None
      | Some v \<Rightarrow>
          (case decode_head v of
             None \<Rightarrow> None
           | Some (ty, seq) \<Rightarrow> if ty \<in> {TypeEvent, ''event'', ''''} then decode_event v else None))"

definition log_events :: "string \<Rightarrow> event list" where
  "log_events log = List.map_filter line_event (scan_lines log)"

fun chain :: "(string \<Rightarrow> string) \<Rightarrow> 64 word \<Rightarrow> string \<Rightarrow> event list \<Rightarrow> (64 word \<times> string) option" where
  "chain sha seq h [] = Some (seq, h)"
| "chain sha seq h (e # es) =
     (if ev_seq e = seq + 1 \<and> ev_prev e = h \<and> snd (HashEvent sha e h) = Some (ev_hash e)
      then chain sha (seq + 1) (ev_hash e) es else None)"

lemma map_filter_Cons: "List.map_filter f (x # xs) = (case f x of None \<Rightarrow> List.map_filter f xs | Some y \<Rightarrow> y # List.map_filter f xs)"
  by (simp add: map_filter_simps split: option.split)

lemma event_line_accepted:
  assumes "verify_event_line sha e rep = (rep', None)"
  shows "ev_seq e = rp_seq rep + 1 \<and> ev_prev e = rp_hash rep \<and> snd (HashEvent sha e (rp_hash rep)) = Some (ev_hash e)
    \<and> rp_seq rep' = rp_seq rep + 1 \<and> rp_hash rep' = ev_hash e \<and> rp_events rep' = Suc (rp_events rep)"
  using assms by (auto simp: verify_event_line_def Let_def split: option.splits if_splits)

lemma checkpoint_line_accepted:
  assumes "verify_checkpoint_line verify pub cp rep = (rep', None)"
  shows "rp_seq rep' = rp_seq rep \<and> rp_hash rep' = rp_hash rep \<and> rp_events rep' = rp_events rep"
  using assms by (auto simp: verify_checkpoint_line_def Let_def split: option.splits if_splits)

lemma verifyLine_chain:
  assumes "verifyLine sha verify pub (trim_space (drop_cr l)) rep = (rep', None)"
  shows "(case line_event l of
      None \<Rightarrow> rp_seq rep' = rp_seq rep \<and> rp_hash rep' = rp_hash rep \<and> rp_events rep' = rp_events rep
    | Some e \<Rightarrow> ev_seq e = rp_seq rep + 1 \<and> ev_prev e = rp_hash rep \<and> snd (HashEvent sha e (rp_hash rep)) = Some (ev_hash e)
        \<and> rp_seq rep' = rp_seq rep + 1 \<and> rp_hash rep' = ev_hash e \<and> rp_events rep' = Suc (rp_events rep))"
proof -
  obtain v where v: "unmarshal_raw (trim_space (drop_cr l)) = Some v" using assms by (auto simp: verifyLine_def split: option.splits)
  obtain ty seq where h: "decode_head v = Some (ty, seq)" using assms v by (auto simp: verifyLine_def split: option.splits)
  show ?thesis
  proof (cases "ty = TypeCheckpoint")
    case True
    then obtain cp where "verify_checkpoint_line verify pub cp rep = (rep', None)"
      using assms v h by (auto simp: verifyLine_def split: option.splits)
    moreover have "line_event l = None" using v h True by (simp add: line_event_def TypeCheckpoint_def TypeEvent_def)
    ultimately show ?thesis using checkpoint_line_accepted by simp
  next
    case False
    then have ty: "ty \<in> {TypeEvent, ''event'', ''''}" using assms v h by (auto simp: verifyLine_def split: if_splits)
    then obtain e where e: "decode_event v = Some e" "verify_event_line sha e rep = (rep', None)"
      using assms v h False unfolding verifyLine_def by (cases "decode_event v") auto
    have "line_event l = Some e" using v h ty e(1) by (simp add: line_event_def)
    then show ?thesis using event_line_accepted [OF e(2)] by simp
  qed
qed

lemma verify_lines_chain:
  assumes "verify_lines sha verify pub n rep ls = (rep', False)" "rp_ok rep'"
  shows "chain sha (rp_seq rep) (rp_hash rep) (List.map_filter line_event ls) = Some (rp_seq rep', rp_hash rep')
    \<and> rp_events rep' = rp_events rep + length (List.map_filter line_event ls)"
  using assms
proof (induction ls arbitrary: n rep)
  case Nil
  then show ?case by (simp add: map_filter_simps)
next
  case (Cons l ls)
  let ?t = "trim_space (drop_cr l)"
  show ?case
  proof (cases "?t = []")
    case True
    have "unmarshal_raw [] = None" by (simp add: unmarshal_raw_def decode_raw_def value_fuel_def)
    then have "line_event l = None" using True by (simp add: line_event_def)
    then show ?thesis using Cons True by (auto simp: map_filter_Cons split: if_splits)
  next
    case False
    obtain rep1 where v: "verifyLine sha verify pub ?t rep = (rep1, None)" "verify_lines sha verify pub (n + 1) rep1 ls = (rep', False)"
      using Cons.prems False by (auto simp: Let_def split: if_splits prod.splits option.splits)
    from verifyLine_chain [OF v(1)] Cons.IH [OF v(2) Cons.prems(2)] show ?thesis
      by (auto simp: map_filter_Cons split: option.splits)
  qed
qed

text \<open>Property C7 (refinement). The replay implements the chain: when it accepts a log, the events the log's lines
  state form one hash chain from the genesis hash, each with the next sequence number, the previous event's hash
  and the hash of its own content, and the report carries the chain's last number and hash and the
  number of events.\<close>

theorem VerifyReader_chain:
  assumes "VerifyReader sha verify pub log = (rep, False)" "rp_ok rep"
  shows "chain sha 0 GenesisHash (log_events log) = Some (rp_seq rep, rp_hash rep) \<and> rp_events rep = length (log_events log)"
  using verify_lines_chain [OF assms(1) [unfolded VerifyReader_def] assms(2)]
  by (simp add: log_events_def start_report_def)

section \<open>Tampering\<close>

lemma chain_snoc:
  "chain sha seq h (es @ [e]) = Some (s, h') \<longleftrightarrow>
     (\<exists>s0 h0. chain sha seq h es = Some (s0, h0) \<and> ev_seq e = s0 + 1 \<and> ev_prev e = h0
        \<and> snd (HashEvent sha e h0) = Some (ev_hash e) \<and> s = s0 + 1 \<and> h' = ev_hash e)"
  by (induction es arbitrary: seq h) auto

lemma chain_hash_length:
  "chain sha seq h es = Some (s, h') \<Longrightarrow> length h = 64 \<Longrightarrow> \<forall>x. length (sha x) = 64 \<Longrightarrow> length h' = 64"
proof (induction es arbitrary: seq h)
  case (Cons e es)
  then have "length (ev_hash e) = 64" by (metis HashEvent_value chain.simps(2) option.inject option.distinct(1) snd_conv)
  then show ?case using Cons by (auto split: if_splits)
qed simp

text \<open>What an event's hash is computed from, and a collision among such inputs: two that differ
  and have the same hash, or one that has the genesis hash.\<close>

definition hash_input :: "event \<Rightarrow> string" where
  "hash_input e =
     (case Canonical (event_json (hash_fields e (ev_prev e))) of None \<Rightarrow> [] | Some c \<Rightarrow> c @ ev_prev e)"

definition collision_in :: "(string \<Rightarrow> string) \<Rightarrow> string list \<Rightarrow> bool" where
  "collision_in sha xs \<longleftrightarrow> (\<exists>x \<in> set xs. sha x = GenesisHash \<or> (\<exists>y \<in> set xs. x \<noteq> y \<and> sha x = sha y))"

lemma hash_input_value: "hash_input e = encode_json (sane (event_json (hash_fields e (ev_prev e)))) @ ev_prev e"
  by (simp add: hash_input_def Canonical_plain event_json_plain)

lemma HashEvent_input: "snd (HashEvent sha e (ev_prev e)) = Some (sha (hash_input e))"
  by (simp add: HashEvent_value hash_input_value)

text \<open>Records written before types were named have no type; they hash like the others.\<close>

definition typed :: "event \<Rightarrow> event" where
  "typed e = e\<lparr>ev_type := (if ev_type e = [] then TypeEvent else ev_type e)\<rparr>"

lemma valid_hash_fields: "valid_event e \<Longrightarrow> to_valid prev = prev \<Longrightarrow> valid_event (hash_fields e prev)"
  using type_valid(1) by (auto simp: valid_event_def hash_fields_def)

lemma equal_inputs:
  assumes "hash_input e = hash_input e'" "length (ev_prev e) = 64" "length (ev_prev e') = 64" "valid_event e" "valid_event e'"
    "ev_hash e = ev_hash e'"
  shows "typed e = typed e' \<and> ev_prev e = ev_prev e'"
proof -
  let ?c = "\<lambda>e. encode_json (sane (event_json (hash_fields e (ev_prev e))))"
  have c: "?c e = ?c e'" and p: "ev_prev e = ev_prev e'" using assms(1-3) append_eq_append_conv by (metis hash_input_value)+
  have "valid_event (hash_fields e (ev_prev e))" "valid_event (hash_fields e' (ev_prev e'))"
    using assms(4,5) by (auto intro!: valid_hash_fields) (simp_all add: valid_event_def)
  then have "hash_fields e (ev_prev e) = hash_fields e' (ev_prev e')" using event_canonical_inj [OF c] by (simp add: valid_event_sane)
  then show ?thesis using p assms(6) by (cases e; cases e') (simp add: hash_fields_def typed_def)
qed

lemma chain_unique:
  assumes "\<forall>x. length (sha x) = 64" "\<not> collision_in sha (map hash_input (es @ es'))"
    "chain sha 0 GenesisHash es = Some (s, h)" "chain sha 0 GenesisHash es' = Some (s', h)"
    "\<forall>e \<in> set es \<union> set es'. valid_event e"
  shows "map typed es = map typed es'"
  using assms(2-5)
proof (induction es arbitrary: es' s s' h rule: rev_induct)
  case Nil
  have h: "h = GenesisHash" using Nil by simp
  show ?case
  proof (cases es' rule: rev_cases)
    case (snoc ys y)
    then have "snd (HashEvent sha y (ev_prev y)) = Some GenesisHash" using Nil(3) h by (auto simp: chain_snoc)
    then show ?thesis using Nil(1) snoc by (auto simp: HashEvent_input collision_in_def)
  qed simp
next
  case (snoc e es)
  obtain s0 where c: "chain sha 0 GenesisHash es = Some (s0, ev_prev e)" "sha (hash_input e) = h" "ev_hash e = h"
    using snoc.prems(2) by (auto simp: chain_snoc HashEvent_input)
  show ?case
  proof (cases es' rule: rev_cases)
    case Nil
    then have "h = GenesisHash" using snoc.prems(3) by simp
    then show ?thesis using c(2) snoc.prems(1) by (auto simp: collision_in_def)
  next
    case es': (snoc es'' e'')
    obtain s1 where c': "chain sha 0 GenesisHash es'' = Some (s1, ev_prev e'')" "sha (hash_input e'') = h" "ev_hash e'' = h"
      using snoc.prems(3) es' by (auto simp: chain_snoc HashEvent_input)
    have "hash_input e = hash_input e''" using snoc.prems(1) es' c(2) c'(2) by (auto simp: collision_in_def)
    moreover have "length (ev_prev e) = 64" "length (ev_prev e'') = 64"
      using chain_hash_length [OF c(1)] chain_hash_length [OF c'(1)] assms(1) by (auto simp: GenesisHash_def)
    ultimately have t: "typed e = typed e''" "ev_prev e = ev_prev e''"
      using equal_inputs [of e e''] snoc.prems(4) es' c(3) c'(3) by auto
    have "\<not> collision_in sha (map hash_input (es @ es''))" using snoc.prems(1) es' by (auto simp: collision_in_def)
    then have "map typed es = map typed es''"
      using snoc.IH [OF _ c(1), of es'' s1] c'(1) t(2) snoc.prems(4) es' by auto
    then show ?thesis using es' t(1) by simp
  qed
qed

lemma line_event_valid: "line_event l = Some e \<Longrightarrow> valid_event e"
  unfolding line_event_def
  by (auto split: option.splits if_splits prod.splits intro!: decode_event_valid [OF _ unmarshal_valid])

lemma log_events_valid: "e \<in> set (log_events log) \<Longrightarrow> valid_event e"
proof -
  have "e \<in> set (List.map_filter line_event ls) \<Longrightarrow> valid_event e" for ls
    by (induction ls) (auto simp: map_filter_Cons map_filter_simps(2) line_event_valid split: option.splits)
  then show "e \<in> set (log_events log) \<Longrightarrow> valid_event e" by (simp add: log_events_def)
qed

text \<open>Property C5 (safety). The hash of the last event fixes the whole history: two logs that the replay accepts
  and that end in the same hash state the same events in the same order (up to the type of records that have
  none), unless two of the texts hashed in these very logs collide or one of them hashes to the
  genesis hash. So nothing in a log can be changed, removed, added or reordered below a hash that a
  checkpoint signs without exhibiting a collision.\<close>

theorem logs_tamper_evident:
  assumes "VerifyReader sha verify pub log = (rep, False)" "rp_ok rep"
    "VerifyReader sha verify' pub' log' = (rep', False)" "rp_ok rep'" "rp_hash rep = rp_hash rep'"
    "\<forall>x. length (sha x) = 64"
  shows "map typed (log_events log) = map typed (log_events log')
    \<or> collision_in sha (map hash_input (log_events log @ log_events log'))"
  using chain_unique [of sha "log_events log" "log_events log'" "rp_seq rep" "rp_hash rep" "rp_seq rep'"]
    verify_lines_chain [OF assms(1) [unfolded VerifyReader_def] assms(2)]
    verify_lines_chain [OF assms(3) [unfolded VerifyReader_def] assms(4)] log_events_valid assms(5,6)
  by (auto simp: log_events_def start_report_def)

section \<open>A torn write\<close>

lemma scan_lines_open:
  assumes "ends_line log" "\<forall>c \<in> set l. byte c \<noteq> 10" "l \<noteq> []"
  shows "scan_lines (log @ l) = scan_lines log @ [l]"
proof (cases "log = []")
  case True
  then show ?thesis using split_when_none [of l "\<lambda>c. byte c = 10"] assms by (simp add: scan_lines_def)
next
  case False
  then obtain s c where log: "log = s @ [c]" "byte c = 10" using assms(1) by (cases log rule: rev_cases) (auto simp: ends_line_def)
  have "split_when (\<lambda>c. byte c = 10) (log @ l) = split_when (\<lambda>c. byte c = 10) s @ [l]"
    using split_when_append [of "\<lambda>c. byte c = 10" c s l] split_when_none [of l "\<lambda>c. byte c = 10"] log assms by simp
  moreover have "split_when (\<lambda>c. byte c = 10) log = split_when (\<lambda>c. byte c = 10) s @ [[]]"
    using split_when_append [of "\<lambda>c. byte c = 10" c s "[]"] log by simp
  ultimately show ?thesis using assms(3) by (simp add: scan_lines_def butlast_append)
qed

lemma glued_line_rejected:
  assumes "plain_struct (JObj m)" "plain_struct (JObj m')"
  shows "snd (verifyLine sha verify pub (trim_space (drop_cr (marshal_json (JObj m) @ marshal_json (JObj m')))) rep) \<noteq> None"
    and "trim_space (drop_cr (marshal_json (JObj m) @ marshal_json (JObj m'))) \<noteq> []"
proof -
  let ?x = "marshal_json (JObj m)" and ?y = "marshal_json (JObj m')"
  let ?j = "\<lambda>m. join '','' (map (\<lambda>(k, v). marshal_string k @ '':'' @ marshal_json v) m)"
  have t: "trim_space (drop_cr (?x @ ?y)) = ?x @ ?y"
    using trim_space_braces [of "?j m @ ''}{'' @ ?j m'"] by (simp add: drop_cr_def)
  have "decode_raw (?x @ ?y) = Some (sane (JObj m), ?y)"
    using assms(1) by (intro decode_raw_marshal) (auto simp: plain_struct_def)
  moreover have "skip_space ?y \<noteq> []" by simp
  ultimately have "unmarshal_raw (?x @ ?y) = None" by (simp add: unmarshal_raw_def del: marshal_json.simps)
  then show "snd (verifyLine sha verify pub (trim_space (drop_cr (?x @ ?y))) rep) \<noteq> None"
    unfolding t by (simp add: verifyLine_def del: marshal_json.simps)
  show "trim_space (drop_cr (?x @ ?y)) \<noteq> []" unfolding t by simp
qed

lemma verify_lines_stops:
  assumes "rp_ok rep" "snd (verifyLine sha verify pub (trim_space (drop_cr l)) rep) \<noteq> None" "trim_space (drop_cr l) \<noteq> []"
    "verify_lines sha verify pub n rep (l # ls) = (rep', failed)"
  shows "failed \<or> \<not> rp_ok rep'"
  using assms by (auto simp: Let_def split: if_splits prod.splits option.splits)

lemma rejected_log:
  assumes "\<And>rep. snd (verifyLine sha verify pub (trim_space (drop_cr l)) rep) \<noteq> None" "trim_space (drop_cr l) \<noteq> []"
    "scan_lines log = ls @ l # ls'" "VerifyReader sha verify pub log = (rep, failed)"
  shows "failed \<or> \<not> rp_ok rep"
proof -
  obtain rep1 f1 where v: "verify_lines sha verify pub 1 (start_report pub) ls = (rep1, f1)" by fastforce
  have "verify_lines sha verify pub 1 (start_report pub) (ls @ l # ls') =
      (if f1 \<or> \<not> rp_ok rep1 then (rep1, f1) else verify_lines sha verify pub (1 + length ls) rep1 (l # ls'))"
    using verify_lines_append [of "start_report pub" sha verify pub 1 ls "l # ls'"] v by (simp add: start_report_def)
  then show ?thesis using assms(3,4) verify_lines_stops [OF _ assms(1,2), of rep1 "1 + length ls" ls' rep failed]
    unfolding VerifyReader_def by (auto split: if_splits)
qed

text \<open>What an append that succeeds adds to the file.\<close>

lemma Append_lines:
  assumes "Append sha sign now rid Wrote r2 ev w = (w', ev', None)"
  shows "\<exists>m rest. plain_struct (JObj m) \<and> (rest = [] \<or> (\<exists>m'. plain_struct (JObj m') \<and> rest = marshal_json (JObj m') @ newline))
    \<and> wr_log w' = wr_log w @ marshal_json (JObj m) @ newline @ rest"
proof -
  obtain ev1 where ev1: "identified rid (stamped now ev w) = Some ev1"
    using assms by (auto simp: Append_def split: option.splits)
  obtain e h where h: "HashEvent sha (fill_arrays ev1) (wr_hash w) = (e, Some h)" by (simp add: HashEvent_value)
  let ?e = "e\<lparr>ev_hash := h\<rparr>"
  let ?w = "w\<lparr>wr_log := wr_log w @ marshal_json (event_json ?e) @ newline, wr_seq := ev_seq ?e, wr_hash := h\<rparr>"
  obtain m where m: "event_json ?e = JObj m" by (simp add: event_json_def)
  have pl: "plain_struct (JObj m)" using event_json_plain [of ?e] m by simp
  consider "w' = ?w" | "append_checkpoint sign r2 ?w = (w', None)"
    using assms ev1 h by (auto simp: Append_def Let_def file_write_def split: if_splits prod.splits)
  then show ?thesis
  proof cases
    case 1
    then have "wr_log w' = wr_log w @ marshal_json (JObj m) @ newline @ []" using m by simp
    then show ?thesis using pl by blast
  next
    case 2
    then obtain cp where w': "wr_log w' = wr_log ?w @ marshal_json (checkpoint_json cp) @ newline"
      by (auto simp: append_checkpoint_def file_write_def Let_def split: option.splits write_result.splits if_splits)
    obtain m' where m': "checkpoint_json cp = JObj m'" by (simp add: checkpoint_json_def)
    then have "plain_struct (JObj m')" using checkpoint_json_plain [of cp] by simp
    moreover have "wr_log w' = wr_log w @ marshal_json (JObj m) @ newline @ marshal_json (JObj m') @ newline" using w' m m' by simp
    ultimately show ?thesis using pl by blast
  qed
qed

text \<open>The file after a write that lost its newline replays, with the event counted.\<close>

lemma torn_replays:
  assumes "keyless sha w" "\<forall>x. hex_hash (sha x)"
    "Append sha sign now rid (Torn n) r2 ev w = (w1, e1, Some WriteFailed)"
    "wr_log w1 = wr_log w @ marshal_json (event_json e1)"
    "\<forall>l \<in> set (scan_lines (wr_log w1)). length l < maxLine"
  shows "replays sha (\<lambda>_ _ _. False) (None :: unit option) (wr_log w1) (wr_seq w + 1) (ev_hash e1)"
proof -
  obtain m where m: "event_json e1 = JObj m" by (simp add: event_json_def)
  have pl: "plain_struct (JObj m)" using event_json_plain [of e1] m by simp
  have el: "ends_line (wr_log w)" "hex_hash (wr_hash w)" using assms(1) by (simp_all add: log_inv_def)
  have lines: "scan_lines (wr_log w1) = scan_lines (wr_log w) @ [marshal_json (JObj m)]"
    unfolding assms(4) m by (rule scan_lines_open [OF el(1) struct_line(1,3) [OF pl]])
  obtain ev1 where ev1: "identified rid (stamped now ev w) = Some ev1"
    using assms(3) by (auto simp: Append_def split: option.splits)
  obtain e h where h: "HashEvent sha (fill_arrays ev1) (wr_hash w) = (e, Some h)" "hex_hash h"
    and f: "ev_type (fill_arrays ev1) = TypeEvent" "ev_seq (fill_arrays ev1) = wr_seq w + 1"
    by (rule hashed_event [OF ev1 assms(2)])
  have e1: "e1 = e\<lparr>ev_hash := h\<rparr>" using assms(3) ev1 h by (auto simp: Append_def file_write_def Let_def)
  have "replays sha (\<lambda>_ _ _. False) (None :: unit option) (wr_log w) (wr_seq w) (wr_hash w)"
    using assms(1,5) unfolding lines by (auto simp: log_inv_def)
  then show ?thesis
    by (rule replays_snoc [OF lines _ _ pl])
      (use assms(5) lines h el(2) f e1 m verify_written_event [of _ "fill_arrays ev1" sha e h "\<lambda>_ _ _. False" "None :: unit option"] in auto)
qed

text \<open>The next line is glued to the unfinished one.\<close>

lemma next_append_glued:
  assumes "ends_line log" "plain_struct (JObj m)" "wr_log w2 = log @ marshal_json (JObj m)"
    "Append sha sign now rid Wrote Wrote ev w2 = (w3, e3, None)" "VerifyReader sha verify pub (wr_log w3) = (rep, failed)"
  shows "failed \<or> \<not> rp_ok rep"
proof -
  obtain m' rest where m': "plain_struct (JObj m')" "rest = [] \<or> (\<exists>m''. plain_struct (JObj m'') \<and> rest = marshal_json (JObj m'') @ newline)"
    and w3: "wr_log w3 = wr_log w2 @ marshal_json (JObj m') @ newline @ rest" using Append_lines [OF assms(4)] by blast
  let ?l = "marshal_json (JObj m) @ marshal_json (JObj m')"
  have nl: "\<forall>c \<in> set ?l. byte c \<noteq> 10" using struct_line(1) [OF assms(2)] struct_line(1) [OF m'(1)] by auto
  have one: "scan_lines (log @ ?l @ newline) = scan_lines log @ [?l]" by (rule scan_lines_append [OF assms(1) nl])
  have "\<exists>ls'. scan_lines (wr_log w3) = scan_lines log @ ?l # ls'"
  proof (cases "rest = []")
    case True
    then show ?thesis using w3 assms(3) one by simp
  next
    case False
    then obtain m'' where m'': "plain_struct (JObj m'')" "rest = marshal_json (JObj m'') @ newline" using m'(2) by blast
    then have "scan_lines ((log @ ?l @ newline) @ marshal_json (JObj m'') @ newline) = scan_lines (log @ ?l @ newline) @ [marshal_json (JObj m'')]"
      by (intro lines_grow(1)) (auto simp: ends_line_newline [of "log @ ?l", simplified])
    then show ?thesis using w3 assms(3) one m''(2) by simp
  qed
  then show ?thesis using rejected_log [OF glued_line_rejected [OF assms(2) m'(1)] _ assms(5)] by blast
qed

text \<open>Property C31 (error). A write that loses only the final newline poisons the log: the append reports an error, yet
  the file still replays, with the event counted, and opening it again succeeds; but the next
  append glues its line to the unfinished one, reports success, and leaves a log that no longer
  verifies, so the writer refuses it from then on.\<close>

theorem torn_newline_poisons_log:
  assumes "audit_reach sha sign opts w" "\<forall>x. hex_hash (sha x)"
    "Append sha sign now rid (Torn n) r2 ev w = (w1, e1, Some WriteFailed)"
    "wr_log w1 = wr_log w @ marshal_json (event_json e1)"
    "\<forall>l \<in> set (scan_lines (wr_log w1)). length l < maxLine"
  shows "\<exists>w2. NewWriter sha opts True (Some (False, wr_log w1)) = Inr w2 \<and> wr_seq w2 = wr_seq w + 1
    \<and> (\<forall>now' rid' ev' w3 e3 rep failed. Append sha sign now' rid' Wrote Wrote ev' w2 = (w3, e3, None)
        \<longrightarrow> VerifyReader sha verify pub (wr_log w3) = (rep, failed) \<longrightarrow> failed \<or> \<not> rp_ok rep)"
proof -
  have k: "keyless sha w" using audit_reach_inv [OF assms(1,2), of "\<lambda>_ _ _. False" "None :: unit option"] by (auto simp: keys_match_def)
  then have el: "ends_line (wr_log w)" by (simp add: log_inv_def)
  obtain m where m: "event_json e1 = JObj m" by (simp add: event_json_def)
  obtain w2 where w2: "NewWriter sha opts True (Some (False, wr_log w1)) = Inr w2" "wr_seq w2 = wr_seq w + 1" "wr_log w2 = wr_log w @ marshal_json (JObj m)"
    using torn_replays [OF k assms(2-5)] reach_options [OF assms(1)] assms(4) m
    by (auto simp: NewWriter_def resumeLog_def replays_def split: prod.splits)
  show ?thesis using w2(1,2) next_append_glued [OF el _ w2(3)] event_json_plain [of e1] m by (metis (no_types))
qed

section \<open>A concrete log\<close>

definition demo_sha :: "string \<Rightarrow> string" where
  "demo_sha x = replicate 64 (CHR ''a'')"

definition demo_sign :: "unit \<Rightarrow> string \<Rightarrow> string" where
  "demo_sign k m = ''s''"

definition demo_options :: "unit options" where
  "demo_options = \<lparr>op_every = 0, op_key = None\<rparr>"

definition demo_created :: "unit writer" where
  "demo_created = \<lparr>wr_log = [], wr_opts = demo_options, wr_seq = 0, wr_hash = GenesisHash\<rparr>"

definition demo_input :: event where
  "demo_input = zero_event\<lparr>ev_tool := ''show'', ev_targets := Some [''leaf1'']\<rparr>"

definition demo_written :: event where
  "demo_written =
     fill_arrays demo_input\<lparr>ev_type := TypeEvent, ev_seq := 1, ev_ts := ''now'', ev_id := ''id'', ev_prev := GenesisHash,
       ev_hash := replicate 64 (CHR ''a'')\<rparr>"

definition demo_log :: "unit writer" where
  "demo_log = \<lparr>wr_log = marshal_json (event_json demo_written) @ newline, wr_opts = demo_options, wr_seq = 1, wr_hash = replicate 64 (CHR ''a'')\<rparr>"

lemma demo_sha_hex: "\<forall>x. hex_hash (demo_sha x)"
  by (simp add: hex_hash_def demo_sha_def list_all_iff)

lemma demo_new: "NewWriter demo_sha demo_options True (Some (True, [])) = Inr demo_created"
  by (simp add: NewWriter_def resumeLog_def VerifyReader_def start_report_def demo_options_def demo_created_def)

lemma demo_hash:
  "identified (Some ''id'') (stamped ''now'' demo_input demo_created)
     = Some (demo_input\<lparr>ev_type := TypeEvent, ev_seq := 1, ev_ts := ''now'', ev_id := ''id''\<rparr>)"
  by (simp add: identified_def stamped_def demo_input_def zero_event_def demo_created_def)

lemma demo_append:
  "Append demo_sha demo_sign ''now'' (Some ''id'') Wrote Wrote demo_input demo_created = (demo_log, demo_written, None)"
  unfolding Append_def demo_hash
  by (simp add: HashEvent_value hash_fields_def fill_arrays_def file_write_def Let_def demo_created_def
      demo_options_def demo_sha_def demo_log_def demo_written_def demo_input_def zero_event_def TypeEvent_def)

lemma demo_reach: "audit_reach demo_sha demo_sign demo_options demo_created" "audit_reach demo_sha demo_sign demo_options demo_log"
  using audit_reach.created [OF demo_new] audit_reach.appended [OF audit_reach.created [OF demo_new] demo_append] by blast+

text \<open>Strings of plain printable text are marshalled as they are, in quotes.\<close>

definition plain_char :: "char \<Rightarrow> bool" where
  "plain_char c \<longleftrightarrow> 32 \<le> byte c \<and> byte c < 127 \<and> byte c \<notin> {34, 92, 38, 60, 62}"

lemma marshal_plain: "list_all plain_char s \<Longrightarrow> length (marshal_string s) = length s + 2"
proof -
  assume p: "list_all plain_char s"
  then have a: "is_ascii s" by (auto simp: is_ascii_def list_all_iff plain_char_def)
  have "map marshal_rune (map (\<lambda>c. (byte c, [c])) s) = map (\<lambda>c. [c]) s"
    using p by (auto simp: list_all_iff plain_char_def marshal_rune_def encode_string_rune_def)
  then have "concat (map marshal_rune (runes s)) = concat (map (\<lambda>c. [c]) s)" by (simp only: runes_ascii [OF a])
  then show ?thesis by (simp add: marshal_string_def)
qed

lemma demo_length: "length (marshal_json (event_json demo_written)) < maxLine"
  by (simp add: event_json_def demo_written_def fill_arrays_def demo_input_def zero_event_def TypeEvent_def strs_json_def omit_empty_def
      GenesisHash_def marshal_plain plain_char_def list_all_iff seq_text_def int64_text_def int_text_def nat_text_zero
      nat_text.simps [of "Suc 0"] maxLine_def join_Cons)

lemma demo_lines: "scan_lines (wr_log demo_log) = [marshal_json (event_json demo_written)]"
proof -
  obtain m where m: "event_json demo_written = JObj m" by (simp add: event_json_def)
  then have "plain_struct (JObj m)" using event_json_plain [of demo_written] by simp
  from lines_grow(1) [OF _ this, of "[]"] show ?thesis using m by (simp add: demo_log_def ends_line_def)
qed

lemma demo_short: "\<forall>l \<in> set (scan_lines (wr_log demo_log)). length l < maxLine"
  using demo_length by (simp add: demo_lines del: marshal_json.simps)

lemma demo_keys: "keys_match demo_sign (\<lambda>_ _ _. True) (op_key demo_options) (Some ())"
  by (simp add: keys_match_def demo_options_def)

theorem written_logs_verify_witness:
  "audit_reach demo_sha demo_sign demo_options demo_log \<and> wr_seq demo_log = 1
    \<and> replays demo_sha (\<lambda>_ _ _. True) (Some ()) (wr_log demo_log) (wr_seq demo_log) (wr_hash demo_log)
    \<and> NewWriter demo_sha demo_options True (Some (False, wr_log demo_log)) = Inr demo_log"
  using written_logs_verify [OF demo_reach(2) demo_sha_hex demo_keys demo_short] demo_reach(2) by (simp add: demo_log_def)

lemma demo_verifies:
  obtains rep where "VerifyReader demo_sha (\<lambda>_ _ _. True) (Some ()) (wr_log demo_log) = (rep, False)" "rp_ok rep"
  using audit_reach_inv [OF demo_reach(2) demo_sha_hex demo_keys] demo_short
  by (auto simp: log_inv_def replays_def split: prod.splits)

theorem VerifyReader_chain_witness:
  "\<exists>rep. VerifyReader demo_sha (\<lambda>_ _ _. True) (Some ()) (wr_log demo_log) = (rep, False)
    \<and> chain demo_sha 0 GenesisHash (log_events (wr_log demo_log)) = Some (rp_seq rep, rp_hash rep) \<and> rp_events rep = length (log_events (wr_log demo_log))"
proof -
  obtain rep where r: "VerifyReader demo_sha (\<lambda>_ _ _. True) (Some ()) (wr_log demo_log) = (rep, False)" "rp_ok rep" by (rule demo_verifies)
  from VerifyReader_chain [OF r] r(1) show ?thesis by blast
qed

theorem logs_tamper_evident_witness:
  "map typed (log_events (wr_log demo_log)) = map typed (log_events (wr_log demo_log))
    \<or> collision_in demo_sha (map hash_input (log_events (wr_log demo_log) @ log_events (wr_log demo_log)))"
proof -
  obtain rep where r: "VerifyReader demo_sha (\<lambda>_ _ _. True) (Some ()) (wr_log demo_log) = (rep, False)" "rp_ok rep" by (rule demo_verifies)
  show ?thesis by (rule logs_tamper_evident [OF r r refl]) (simp add: demo_sha_def)
qed

theorem torn_newline_poisons_log_witness:
  "\<exists>w2. NewWriter demo_sha demo_options True (Some (False, marshal_json (event_json demo_written))) = Inr w2 \<and> wr_seq w2 = 1"
proof -
  let ?n = "length (marshal_json (event_json demo_written))"
  let ?w = "demo_created\<lparr>wr_log := marshal_json (event_json demo_written)\<rparr>"
  have a: "Append demo_sha demo_sign ''now'' (Some ''id'') (Torn ?n) Wrote demo_input demo_created = (?w, demo_written, Some WriteFailed)"
  proof -
    have e: "HashEvent demo_sha (fill_arrays (demo_input\<lparr>ev_type := TypeEvent, ev_seq := 1, ev_ts := ''now'', ev_id := ''id''\<rparr>)) (wr_hash demo_created)
        = (demo_written\<lparr>ev_hash := []\<rparr>, Some (replicate 64 (CHR ''a'')))"
      by (simp add: HashEvent_value hash_fields_def fill_arrays_def demo_created_def demo_sha_def demo_written_def demo_input_def zero_event_def TypeEvent_def)
    have "demo_written\<lparr>ev_hash := replicate 64 (CHR ''a'')\<rparr> = demo_written" by (simp add: demo_written_def)
    then show ?thesis unfolding Append_def demo_hash option.case e prod.case
      by (simp add: file_write_def Let_def demo_created_def del: marshal_json.simps)
  qed
  obtain m where m: "event_json demo_written = JObj m" by (simp add: event_json_def)
  then have pl: "plain_struct (JObj m)" using event_json_plain [of demo_written] by simp
  have "scan_lines (wr_log ?w) = [marshal_json (event_json demo_written)]"
    using scan_lines_open [OF _ struct_line(1,3) [OF pl], of "[]"] m by (simp add: ends_line_def del: marshal_json.simps)
  then have s: "\<forall>l \<in> set (scan_lines (wr_log ?w)). length l < maxLine" using demo_length by (simp del: marshal_json.simps)
  have "wr_log ?w = wr_log demo_created @ marshal_json (event_json demo_written)" "wr_seq demo_created = 0" by (simp_all add: demo_created_def)
  then show ?thesis using torn_newline_poisons_log [OF demo_reach(1) demo_sha_hex a _ s, of "\<lambda>_ _ _. True" "Some ()"] by auto
qed

end
