(* ===== verification/Spec2Isabelle.thy ===== *)
theory Spec2Isabelle
  imports Classify_Normalize Policy_Load Proxy_Calls Proxy_Lines Proxy_State Audit_Log
begin

text \<open>
  Verification library of fathomgate, a policy gate in front of MCP servers that manage network
  devices.
\<close>

end
